(* ===== verification/Prelude.thy ===== *)
theory Prelude
  imports Complex_Main "HOL-Library.Word" "HOL-Library.AList" "HOL-Library.Multiset"
begin

text \<open>
  Shared vocabulary of the development: the collections its automation draws on and the
  generic facts on lists, options, association lists and sums that several components use.
  A Go map is an association list with distinct keys (\<open>AList.update\<close> and \<open>AList.delete\<close>
  keep them distinct); the order of the list stands for one iteration order of a
  \<open>range\<close> loop, and theorems quantify over the order.
\<close>

named_theorems go_defs \<open>definitions of Go standard library functions\<close>
named_theorems wire_defs \<open>definitions of the wire types and their constants\<close>
named_theorems lock_defs \<open>definitions of the Redis side\<close>
named_theorems store_defs \<open>definitions of the Postgres side\<close>
named_theorems booking_defs \<open>definitions of the booking service\<close>
named_theorems api_defs \<open>definitions of the HTTP layer\<close>

section \<open>Types shared by the components\<close>

type_synonym session = string
type_synonym seat_id = int

text \<open>A Go call that returns \<open>(value, error)\<close>: \<open>Inl\<close> is the error.\<close>

type_synonym ('e, 'a) result = "'e + 'a"

section \<open>Association lists as Go maps\<close>

abbreviation keys :: "('k \<times> 'v) list \<Rightarrow> 'k list" where
  "keys m \<equiv> map fst m"

abbreviation distinct_keys :: "('k \<times> 'v) list \<Rightarrow> bool" where
  "distinct_keys m \<equiv> distinct (map fst m)"

text \<open>A lookup stays a lookup, rather than a membership, in the proofs about Go maps.\<close>

declare map_of_eq_Some_iff [simp del] Some_eq_map_of_iff [simp del]

lemma distinct_keys_update [simp, intro]:
  "distinct_keys m \<Longrightarrow> distinct_keys (AList.update k v m)"
  by (rule distinct_update)

lemma distinct_keys_delete [simp, intro]:
  "distinct_keys m \<Longrightarrow> distinct_keys (AList.delete k m)"
  by (rule distinct_delete)

lemma map_of_update [simp]: "map_of (AList.update k v m) = (map_of m)(k \<mapsto> v)"
  by (rule update_conv')

lemma map_of_delete [simp]: "map_of (AList.delete k m) = (map_of m)(k := None)"
  by (rule delete_conv')

lemma mem_iff_map_of:
  "distinct_keys m \<Longrightarrow> (k, v) \<in> set m \<longleftrightarrow> map_of m k = Some v"
  by (simp add: map_of_eq_Some_iff)

lemma map_of_in_set: "map_of m k = Some v \<Longrightarrow> (k, v) \<in> set m"
  by (rule map_of_SomeD)

lemma map_of_in_keys: "map_of m k = Some v \<Longrightarrow> k \<in> set (keys m)"
  by (force dest: map_of_SomeD)

text \<open>Two iteration orders of one Go map: the same entries, permuted.\<close>

lemma mset_eq_same_map:
  assumes "mset xs = mset ys" and "distinct_keys xs"
  shows "distinct_keys ys" and "map_of ys = map_of xs" and "set ys = set xs"
proof -
  have "mset (map fst ys) = mset (map fst xs)"
    using assms(1) by simp
  then show d: "distinct_keys ys"
    using assms(2) by (metis mset_eq_imp_distinct_iff)
  show s: "set ys = set xs"
    using assms(1) by (metis set_mset_mset)
  show "map_of ys = map_of xs"
    using d assms(2) s by (simp add: map_of_inject_set)
qed

section \<open>Lists\<close>

lemma find_distinct:
  assumes "distinct (map f xs)" and "x \<in> set xs"
  shows "find (\<lambda>y. f y = f x) xs = Some x"
  using assms by (induction xs) auto

lemma find_None_map: "find (\<lambda>y. f y = a) xs = None \<longleftrightarrow> a \<notin> f ` set xs"
  by (auto simp: find_None_iff)

lemma find_SomeD: "find P xs = Some x \<Longrightarrow> x \<in> set xs \<and> P x"
  by (induction xs) (auto split: if_splits)

lemma find_append: "find P (xs @ ys) = (case find P xs of None \<Rightarrow> find P ys | Some x \<Rightarrow> Some x)"
  by (induction xs) auto

text \<open>Interleavings.\<close>

lemma shuffles_snoc1: "zs \<in> shuffles xs ys \<Longrightarrow> zs @ [x] \<in> shuffles (xs @ [x]) ys"
proof (induction xs ys arbitrary: zs rule: shuffles.induct)
  case (1 ys)
  then show ?case by (induction ys arbitrary: zs) auto
next
  case (2 xs)
  then show ?case by (cases xs) auto
next
  case (3 x' xs y ys)
  then show ?case by auto
qed

lemma shuffles_snoc2: "zs \<in> shuffles xs ys \<Longrightarrow> zs @ [y] \<in> shuffles xs (ys @ [y])"
  by (metis shuffles_commutes shuffles_snoc1)

section \<open>Building a Go map in a loop\<close>

lemma fold_update_distinct [simp]:
  "distinct_keys m \<Longrightarrow> distinct_keys (fold (\<lambda>b m. AList.update (k b) (v b) m) bs m)"
  by (induction bs arbitrary: m) auto

lemma fold_update_lookup:
  assumes "distinct (map k bs)"
  shows "map_of (fold (\<lambda>b m. AList.update (k b) (v b) m) bs m) x =
     (case find (\<lambda>b. k b = x) bs of None \<Rightarrow> map_of m x | Some b \<Rightarrow> Some (v b))"
  using assms
proof (induction bs arbitrary: m)
  case Nil
  then show ?case by simp
next
  case (Cons b bs)
  then have "k b = x \<Longrightarrow> find (\<lambda>c. k c = x) bs = None"
    by (auto simp: find_None_map)
  with Cons show ?case by (auto split: option.splits)
qed

text \<open>Storing the entries of a map with distinct keys, key by key.\<close>

lemma find_map_of: "find (\<lambda>b. fst b = x) bs = map_option (Pair x) (map_of bs x)"
  by (induction bs) auto

lemma map_of_filter_key: "map_of (filter (\<lambda>(k, v). P k) m) x = (if P x then map_of m x else None)"
  by (induction m) auto

end
