(* ===== verification/Go_Std.thy ===== *)
theory Go_Std
  imports Prelude
begin

text \<open>
  What the backend uses of the Go standard library: \<open>strconv.Itoa\<close> and
  \<open>strconv.Atoi\<close> on a 64-bit \<open>int\<close>, the prefix functions of \<open>strings\<close>,
  \<open>time.Duration\<close> as a 64-bit word of nanoseconds, and JSON values as
  \<open>encoding/json\<close> sees them. Strings are byte strings.
\<close>

section \<open>errors\<close>

text \<open>
  An \<open>error\<close> value: a message, or a message wrapped around another error as
  \<open>fmt.Errorf\<close> with \<open>%w\<close> makes it.
\<close>

datatype go_error = Err string | Wrap string go_error

fun error_is :: "go_error \<Rightarrow> go_error \<Rightarrow> bool" where
  "error_is (Err m) t \<longleftrightarrow> Err m = t"
| "error_is (Wrap m e) t \<longleftrightarrow> Wrap m e = t \<or> error_is e t"

section \<open>strconv\<close>

definition int_range :: "int \<Rightarrow> bool" where
  "int_range n \<longleftrightarrow> - (2 ^ 63) \<le> n \<and> n < 2 ^ 63"

definition digit_char :: "nat \<Rightarrow> char" where
  "digit_char d = char_of (48 + d)"

definition digit_val :: "char \<Rightarrow> nat option" where
  "digit_val c = (let n = of_char c :: nat in if 48 \<le> n \<and> n \<le> 57 then Some (n - 48) else None)"

fun utoa :: "nat \<Rightarrow> string" where
  "utoa n = (if n < 10 then [digit_char n] else utoa (n div 10) @ [digit_char (n mod 10)])"

declare utoa.simps [simp del]

definition itoa :: "int \<Rightarrow> string" where
  "itoa n = (if n < 0 then CHR ''-'' # utoa (nat (- n)) else utoa (nat n))"

fun atou :: "nat \<Rightarrow> string \<Rightarrow> nat option" where
  "atou acc [] = Some acc"
| "atou acc (c # cs) =
     (case digit_val c of None \<Rightarrow> None | Some d \<Rightarrow> atou (10 * acc + d) cs)"

text \<open>
  \<open>Atoi\<close>: an optional sign, then at least one decimal digit and nothing else, within the
  range of \<open>int\<close>; every other string is an error, here \<open>None\<close>.
\<close>

definition atoi :: "string \<Rightarrow> int option" where
  "atoi s =
     (let (neg, ds) = (case s of
          [] \<Rightarrow> (False, [])
        | c # cs \<Rightarrow> if c = CHR ''-'' then (True, cs)
                    else if c = CHR ''+'' then (False, cs) else (False, s))
      in if ds = [] then None
         else case atou 0 ds of
           None \<Rightarrow> None
         | Some n \<Rightarrow> (let v = (if neg then - int n else int n)
                      in if int_range v then Some v else None))"

lemma digit_val_char [simp]: "d < 10 \<Longrightarrow> digit_val (digit_char d) = Some d"
  by (simp add: digit_val_def digit_char_def)

lemma digit_char_sign [simp]:
  "d < 10 \<Longrightarrow> digit_char d \<noteq> CHR ''-''" "d < 10 \<Longrightarrow> digit_char d \<noteq> CHR ''+''"
  using digit_val_char [of d] by (auto simp: digit_val_def)

lemma utoa_not_Nil [simp]: "utoa n \<noteq> []"
  by (subst utoa.simps) simp

lemma atou_append:
  "atou acc (xs @ ys) = (case atou acc xs of None \<Rightarrow> None | Some a \<Rightarrow> atou a ys)"
  by (induction acc xs rule: atou.induct) (auto split: option.splits)

lemma atou_utoa [simp]: "atou 0 (utoa n) = Some n"
proof (induction n rule: utoa.induct)
  case (1 n)
  show ?case
  proof (cases "n < 10")
    case True
    then show ?thesis by (subst utoa.simps) simp
  next
    case False
    then show ?thesis using "1.IH" by (subst utoa.simps) (simp add: atou_append)
  qed
qed

lemma utoa_hd: "\<exists>d cs. utoa n = digit_char d # cs \<and> d < 10"
proof (induction n rule: utoa.induct)
  case (1 n)
  show ?case
  proof (cases "n < 10")
    case True
    then show ?thesis by (subst utoa.simps) auto
  next
    case False
    with "1.IH" obtain d cs where "utoa (n div 10) = digit_char d # cs" "d < 10" by auto
    then show ?thesis using False by (subst utoa.simps) auto
  qed
qed

lemma atoi_itoa_eq: "atoi (itoa n) = (if int_range n then Some n else None)"
proof -
  obtain d cs where h: "utoa (nat n) = digit_char d # cs" "d < 10"
    using utoa_hd by blast
  have "atou 0 (digit_char d # cs) = Some (nat n)"
    using h(1) atou_utoa by metis
  with h show ?thesis
    by (auto simp: itoa_def atoi_def)
qed

lemma atoi_itoa [simp]: "int_range n \<Longrightarrow> atoi (itoa n) = Some n"
  by (simp add: atoi_itoa_eq)

lemma atoi_range: "atoi s = Some n \<Longrightarrow> int_range n"
  by (auto simp: atoi_def Let_def split: list.splits if_splits option.splits)

lemma utoa_inject [simp]: "utoa m = utoa n \<longleftrightarrow> m = n"
  by (metis atou_utoa option.inject)

lemma utoa_no_sign [simp]: "utoa n \<noteq> CHR ''-'' # cs" "CHR ''-'' # cs \<noteq> utoa n"
  using utoa_hd [of n] by (metis digit_char_sign(1) list.inject)+

lemma itoa_inject [simp]: "itoa a = itoa b \<longleftrightarrow> a = b"
  by (auto simp: itoa_def split: if_splits)

section \<open>strings\<close>

definition has_prefix :: "string \<Rightarrow> string \<Rightarrow> bool" where
  "has_prefix s p \<longleftrightarrow> take (length p) s = p"

definition trim_prefix :: "string \<Rightarrow> string \<Rightarrow> string" where
  "trim_prefix s p = (if has_prefix s p then drop (length p) s else s)"

lemma has_prefix_append [simp]: "has_prefix (p @ s) p"
  by (simp add: has_prefix_def)

lemma trim_prefix_append [simp]: "trim_prefix (p @ s) p = s"
  by (simp add: trim_prefix_def)

lemma has_prefix_decomp: "has_prefix s p \<longleftrightarrow> (\<exists>t. s = p @ t)"
  by (metis append_take_drop_id has_prefix_append has_prefix_def)

section \<open>time\<close>

text \<open>
  A \<open>time.Duration\<close> counts nanoseconds in an \<open>int64\<close>; multiplication wraps. A
  \<open>time.Time\<close> is an instant in nanoseconds since the epoch, unbounded.
\<close>

type_synonym duration = "64 word"

definition second :: duration where
  "second = 1000000000"

definition trunc_div :: "int \<Rightarrow> int \<Rightarrow> int" where
  "trunc_div a b = sgn a * sgn b * (\<bar>a\<bar> div \<bar>b\<bar>)"

text \<open>
  \<open>int(d.Seconds())\<close>: the quotient towards zero. \<open>Seconds\<close> returns a \<open>float64\<close>,
  which is exact for the whole seconds the backend uses.
\<close>

definition int_seconds :: "duration \<Rightarrow> int" where
  "int_seconds d = trunc_div (sint d) 1000000000"

lemma int_seconds_le: "int_seconds d \<le> 9223372036"
proof -
  have "sint d \<le> 2 ^ 63 - 1"
    using sint_lt [of d] by simp
  then show ?thesis
    by (cases "sint d < 0") (auto simp: int_seconds_def trunc_div_def sgn_if)
qed

definition unix_milli :: "int \<Rightarrow> int" where
  "unix_milli t = t div 1000000"

definition time_add :: "int \<Rightarrow> duration \<Rightarrow> int" where
  "time_add t d = t + sint d"

section \<open>encoding/json\<close>

text \<open>
  A JSON value after lexing. \<open>JNum\<close> holds a number literal that is not an integer
  (a fraction or an exponent). An object keeps its members in order, duplicates included.
\<close>

datatype json =
    JNull
  | JBool bool
  | JInt int
  | JNum string
  | JStr string
  | JArr "json list"
  | JObj "(string \<times> json) list"

definition ascii_lower :: "char \<Rightarrow> char" where
  "ascii_lower c = (let n = of_char c :: nat in if 65 \<le> n \<and> n \<le> 90 then char_of (n + 32) else c)"

text \<open>
  \<open>encoding/json\<close> matches a member to a struct field by name, folding case. Two letters outside ASCII
  fold to an ASCII one: the long s (U+017F) and the Kelvin sign (U+212A), here in UTF-8. All the
  names of fields are ASCII.
\<close>

function json_fold :: "string \<Rightarrow> string" where
  "json_fold [] = []"
| "json_fold (c # cs) =
     (if c = CHR 0xC5 \<and> take 1 cs = [CHR 0xBF] then CHR ''s'' # json_fold (drop 1 cs)
      else if c = CHR 0xE2 \<and> take 2 cs = [CHR 0x84, CHR 0xAA] then CHR ''k'' # json_fold (drop 2 cs)
      else ascii_lower c # json_fold cs)"
  by pat_completeness auto
termination by (relation "measure length") auto

definition field_match :: "string \<Rightarrow> string \<Rightarrow> bool" where
  "field_match name k \<longleftrightarrow> json_fold k = name"

text \<open>Storing a member into a string or an \<open>int\<close> field; \<open>null\<close> leaves it as it is.\<close>

fun decode_string :: "json \<Rightarrow> string \<Rightarrow> string option" where
  "decode_string (JStr s) _ = Some s"
| "decode_string JNull old = Some old"
| "decode_string _ _ = None"

fun decode_int :: "json \<Rightarrow> int \<Rightarrow> int option" where
  "decode_int (JInt n) _ = (if int_range n then Some n else None)"
| "decode_int JNull old = Some old"
| "decode_int _ _ = None"

end
