(* ===== verification/Model.thy ===== *)
theory Model
  imports Go_Std
begin

text \<open>
  The types of \<open>backend/model/model.go\<close>: the static description of a seat, its live
  state, the events of the live channel and the snapshot a client starts from, with the
  JSON they are sent as. The struct tags give the member names; an \<open>omitempty\<close> member is
  left out when it holds its zero value. Strings are taken to be valid UTF-8: other bytes would be
  replaced by \<open>Marshal\<close>.
\<close>

section \<open>Constants\<close>

definition StatusAvailable :: string where "StatusAvailable = ''available''"
definition StatusHeld :: string where "StatusHeld = ''held''"
definition StatusBooked :: string where "StatusBooked = ''booked''"

definition MsgSnapshot :: string where "MsgSnapshot = ''snapshot''"
definition MsgHeld :: string where "MsgHeld = ''held''"
definition MsgBooked :: string where "MsgBooked = ''booked''"
definition MsgFreed :: string where "MsgFreed = ''freed''"

lemmas status_consts [wire_defs] = StatusAvailable_def StatusHeld_def StatusBooked_def
lemmas msg_consts [wire_defs] = MsgSnapshot_def MsgHeld_def MsgBooked_def MsgFreed_def

section \<open>Structs\<close>

record seat =
  seat_ID :: int
  seat_Section :: string
  seat_RowLabel :: string
  seat_SeatNumber :: int
  seat_PriceCents :: int
  seat_Position :: int

record seat_state =
  st_SeatID :: int
  st_Status :: string
  st_HeldBy :: string
  st_BookedBy :: string
  st_ExpiresAtMs :: int

record seat_event =
  ev_Type :: string
  ev_SeatID :: int
  ev_Status :: string
  ev_HeldBy :: string
  ev_BookedBy :: string
  ev_ExpiresAtMs :: int
  ev_ServedBy :: string

record snapshot =
  sn_Type :: string
  sn_InstanceID :: string
  sn_HoldTTLSeconds :: int
  sn_ServerTimeMs :: int
  sn_Seats :: "seat_state list"
  sn_RedisHealthy :: bool

text \<open>The zero value of a \<open>SeatEvent\<close>, which \<open>var ev model.SeatEvent\<close> starts from.\<close>

definition zero_event :: seat_event where
  "zero_event = \<lparr>ev_Type = [], ev_SeatID = 0, ev_Status = [], ev_HeldBy = [], ev_BookedBy = [],
     ev_ExpiresAtMs = 0, ev_ServedBy = []\<rparr>"

section \<open>Marshalling\<close>

definition omit_str :: "string \<Rightarrow> string \<Rightarrow> (string \<times> json) list" where
  "omit_str k v = (if v = [] then [] else [(k, JStr v)])"

definition omit_int :: "string \<Rightarrow> int \<Rightarrow> (string \<times> json) list" where
  "omit_int k v = (if v = 0 then [] else [(k, JInt v)])"

definition marshal_seat :: "seat \<Rightarrow> json" where
  "marshal_seat s = JObj
     [(''id'', JInt (seat_ID s)), (''section'', JStr (seat_Section s)),
      (''row_label'', JStr (seat_RowLabel s)), (''seat_number'', JInt (seat_SeatNumber s)),
      (''price_cents'', JInt (seat_PriceCents s)), (''position'', JInt (seat_Position s))]"

definition marshal_state :: "seat_state \<Rightarrow> json" where
  "marshal_state s = JObj
     ([(''seat_id'', JInt (st_SeatID s)), (''status'', JStr (st_Status s))]
      @ omit_str ''held_by'' (st_HeldBy s) @ omit_str ''booked_by'' (st_BookedBy s)
      @ omit_int ''expires_at_ms'' (st_ExpiresAtMs s))"

definition marshal_event :: "seat_event \<Rightarrow> json" where
  "marshal_event e = JObj
     ([(''type'', JStr (ev_Type e)), (''seat_id'', JInt (ev_SeatID e)),
       (''status'', JStr (ev_Status e))]
      @ omit_str ''held_by'' (ev_HeldBy e) @ omit_str ''booked_by'' (ev_BookedBy e)
      @ omit_int ''expires_at_ms'' (ev_ExpiresAtMs e) @ omit_str ''served_by'' (ev_ServedBy e))"

definition marshal_snapshot :: "snapshot \<Rightarrow> json" where
  "marshal_snapshot s = JObj
     [(''type'', JStr (sn_Type s)), (''instance_id'', JStr (sn_InstanceID s)),
      (''hold_ttl_seconds'', JInt (sn_HoldTTLSeconds s)),
      (''server_time_ms'', JInt (sn_ServerTimeMs s)),
      (''seats'', JArr (map marshal_state (sn_Seats s))),
      (''redis_healthy'', JBool (sn_RedisHealthy s))]"

section \<open>Unmarshalling an event\<close>

text \<open>
  One object member stored into the struct; \<open>None\<close> is a type mismatch, for which
  \<open>json.Unmarshal\<close> returns an error. Members that name no field are skipped.
\<close>

definition set_event_member :: "string \<Rightarrow> json \<Rightarrow> seat_event \<Rightarrow> seat_event option" where
  "set_event_member k v e =
     (if field_match ''type'' k then map_option (\<lambda>x. e\<lparr>ev_Type := x\<rparr>) (decode_string v (ev_Type e))
      else if field_match ''seat_id'' k
        then map_option (\<lambda>x. e\<lparr>ev_SeatID := x\<rparr>) (decode_int v (ev_SeatID e))
      else if field_match ''status'' k
        then map_option (\<lambda>x. e\<lparr>ev_Status := x\<rparr>) (decode_string v (ev_Status e))
      else if field_match ''held_by'' k
        then map_option (\<lambda>x. e\<lparr>ev_HeldBy := x\<rparr>) (decode_string v (ev_HeldBy e))
      else if field_match ''booked_by'' k
        then map_option (\<lambda>x. e\<lparr>ev_BookedBy := x\<rparr>) (decode_string v (ev_BookedBy e))
      else if field_match ''expires_at_ms'' k
        then map_option (\<lambda>x. e\<lparr>ev_ExpiresAtMs := x\<rparr>) (decode_int v (ev_ExpiresAtMs e))
      else if field_match ''served_by'' k
        then map_option (\<lambda>x. e\<lparr>ev_ServedBy := x\<rparr>) (decode_string v (ev_ServedBy e))
      else Some e)"

fun set_event_members :: "(string \<times> json) list \<Rightarrow> seat_event \<Rightarrow> seat_event option" where
  "set_event_members [] e = Some e"
| "set_event_members ((k, v) # ms) e =
     (case set_event_member k v e of None \<Rightarrow> None | Some e' \<Rightarrow> set_event_members ms e')"

fun unmarshal_event :: "json \<Rightarrow> seat_event option" where
  "unmarshal_event (JObj ms) = set_event_members ms zero_event"
| "unmarshal_event JNull = Some zero_event"
| "unmarshal_event _ = None"

section \<open>Round trip\<close>

definition event_ok :: "seat_event \<Rightarrow> bool" where
  "event_ok e \<longleftrightarrow> int_range (ev_SeatID e) \<and> int_range (ev_ExpiresAtMs e)"

lemma field_match_self [simp]:
  "field_match ''type'' ''type''" "field_match ''seat_id'' ''seat_id''"
  "field_match ''status'' ''status''" "field_match ''held_by'' ''held_by''"
  "field_match ''booked_by'' ''booked_by''" "field_match ''expires_at_ms'' ''expires_at_ms''"
  "field_match ''served_by'' ''served_by''"
  by code_simp+

lemma lower_names [simp]:
  "json_fold ''type'' = ''type''" "json_fold ''seat_id'' = ''seat_id''"
  "json_fold ''status'' = ''status''" "json_fold ''held_by'' = ''held_by''"
  "json_fold ''booked_by'' = ''booked_by''"
  "json_fold ''expires_at_ms'' = ''expires_at_ms''"
  "json_fold ''served_by'' = ''served_by''"
  by code_simp+

lemma set_event_member_names [simp]:
  "set_event_member ''type'' (JStr s) e = Some (e\<lparr>ev_Type := s\<rparr>)"
  "int_range n \<Longrightarrow> set_event_member ''seat_id'' (JInt n) e = Some (e\<lparr>ev_SeatID := n\<rparr>)"
  "set_event_member ''status'' (JStr s) e = Some (e\<lparr>ev_Status := s\<rparr>)"
  "set_event_member ''held_by'' (JStr s) e = Some (e\<lparr>ev_HeldBy := s\<rparr>)"
  "set_event_member ''booked_by'' (JStr s) e = Some (e\<lparr>ev_BookedBy := s\<rparr>)"
  "int_range n \<Longrightarrow> set_event_member ''expires_at_ms'' (JInt n) e = Some (e\<lparr>ev_ExpiresAtMs := n\<rparr>)"
  "set_event_member ''served_by'' (JStr s) e = Some (e\<lparr>ev_ServedBy := s\<rparr>)"
  by (simp_all only: set_event_member_def field_match_def lower_names) (simp_all)

lemma set_event_members_append:
  "set_event_members (xs @ ys) e =
     (case set_event_members xs e of None \<Rightarrow> None | Some e' \<Rightarrow> set_event_members ys e')"
  by (induction xs e rule: set_event_members.induct) (auto split: option.splits)

text \<open>What reading back one optional member does to a struct that still holds its zero value.\<close>

lemma set_event_members_omit:
  "ev_HeldBy e = [] \<Longrightarrow> set_event_members (omit_str ''held_by'' s) e = Some (e\<lparr>ev_HeldBy := s\<rparr>)"
  "ev_BookedBy e = [] \<Longrightarrow> set_event_members (omit_str ''booked_by'' s) e = Some (e\<lparr>ev_BookedBy := s\<rparr>)"
  "ev_ServedBy e = [] \<Longrightarrow> set_event_members (omit_str ''served_by'' s) e = Some (e\<lparr>ev_ServedBy := s\<rparr>)"
  "ev_ExpiresAtMs e = 0 \<Longrightarrow> int_range n \<Longrightarrow>
     set_event_members (omit_int ''expires_at_ms'' n) e = Some (e\<lparr>ev_ExpiresAtMs := n\<rparr>)"
  by (simp_all add: omit_str_def omit_int_def)

lemma unmarshal_marshal_event: "event_ok e \<Longrightarrow> unmarshal_event (marshal_event e) = Some e"
  by (simp add: event_ok_def marshal_event_def set_event_members_append set_event_members_omit
      zero_event_def)

end
