(* ===== verification/Redis_Api.thy ===== *)
theory Redis_Api
  imports Model
begin

text \<open>
  The Redis server and the go-redis client are not part of the repository. The model takes
  the commands the backend issues as a record of functions over a server state, and the
  locale \<open>redis\<close> states what the documentation of each command promises. A small in-memory
  server shows that the promises can be kept; it serves the witnesses.
\<close>

section \<open>The commands\<close>

text \<open>
  \<open>rd_set_nx_ex\<close> is \<open>SET key value NX EX seconds\<close>: \<open>None\<close> is an error reply, the flag
  tells a status reply from a nil one. \<open>rd_pttl\<close> is \<open>-2\<close> without the key and \<open>-1\<close> without
  an expiry. \<open>rd_elapse\<close> is the passing of milliseconds on the server, which removes the keys
  whose time is up. \<open>rd_log\<close> lists the messages accepted by \<open>PUBLISH\<close> so far.
\<close>

record 'r redis_api =
  rd_get :: "'r \<Rightarrow> string \<Rightarrow> string option"
  rd_exists :: "'r \<Rightarrow> string \<Rightarrow> nat"
  rd_pttl :: "'r \<Rightarrow> string \<Rightarrow> int"
  rd_set_nx_ex :: "'r \<Rightarrow> string \<Rightarrow> string \<Rightarrow> int \<Rightarrow> ('r \<times> bool) option"
  rd_set :: "'r \<Rightarrow> string \<Rightarrow> string \<Rightarrow> 'r"
  rd_del :: "'r \<Rightarrow> string \<Rightarrow> 'r"
  rd_scan :: "'r \<Rightarrow> nat \<Rightarrow> string \<Rightarrow> nat \<Rightarrow> string list \<times> nat"
  rd_publish :: "'r \<Rightarrow> string \<Rightarrow> json \<Rightarrow> 'r"
  rd_log :: "'r \<Rightarrow> (string \<times> json) list"
  rd_elapse :: "'r \<Rightarrow> nat \<Rightarrow> 'r"

text \<open>A complete iteration with \<open>SCAN\<close> over a server that does not change meanwhile.\<close>

fun scan_all :: "'r redis_api \<Rightarrow> nat \<Rightarrow> 'r \<Rightarrow> nat \<Rightarrow> string \<Rightarrow> nat \<Rightarrow> string list option" where
  "scan_all R 0 r c pat cnt = None"
| "scan_all R (Suc n) r c pat cnt =
     (let (ks, next) = rd_scan R r c pat cnt
      in if next = 0 then Some ks else map_option (\<lambda>ks'. ks @ ks') (scan_all R n r next pat cnt))"

text \<open>A complete iteration whose \<open>SCAN\<close>s see, one after the other, the states \<open>rs\<close>.\<close>

fun scan_over :: "'r redis_api \<Rightarrow> 'r list \<Rightarrow> nat \<Rightarrow> string \<Rightarrow> nat \<Rightarrow> string list option" where
  "scan_over R [] c pat cnt = None"
| "scan_over R (r # rs) c pat cnt =
     (let (ks, next) = rd_scan R r c pat cnt
      in if next = 0 then Some ks else map_option (\<lambda>ks'. ks @ ks') (scan_over R rs next pat cnt))"

text \<open>A match pattern that is a literal prefix followed by a star.\<close>

definition plain_prefix :: "string \<Rightarrow> bool" where
  "plain_prefix p \<longleftrightarrow> list_all (\<lambda>c. c \<notin> set (CHR 0x5C # ''*?[]^-'')) p"

text \<open>The largest number of seconds a \<open>time.Duration\<close> can hold; Redis accepts all of them.\<close>

definition max_ex :: int where
  "max_ex = 9223372036"

section \<open>The documented behaviour\<close>

locale redis =
  fixes R :: "'r redis_api"
  assumes exists_get: "rd_exists R r k = (if rd_get R r k = None then 0 else 1)"
    and pttl_none: "rd_get R r k = None \<longleftrightarrow> rd_pttl R r k = -2"
    and pttl_ge: "-2 \<le> rd_pttl R r k"
    and nx_bad: "s \<le> 0 \<Longrightarrow> rd_set_nx_ex R r k v s = None"
    and nx_taken: "0 < s \<Longrightarrow> s \<le> max_ex \<Longrightarrow> rd_get R r k \<noteq> None \<Longrightarrow>
          rd_set_nx_ex R r k v s = Some (r, False)"
    and nx_free: "0 < s \<Longrightarrow> s \<le> max_ex \<Longrightarrow> rd_get R r k = None \<Longrightarrow>
          \<exists>r'. rd_set_nx_ex R r k v s = Some (r', True) \<and>
               rd_get R r' = (rd_get R r)(k := Some v) \<and>
               rd_pttl R r' = (rd_pttl R r)(k := 1000 * s) \<and> rd_log R r' = rd_log R r"
    and set_get: "rd_get R (rd_set R r k v) = (rd_get R r)(k := Some v)"
    and set_pttl: "rd_pttl R (rd_set R r k v) = (rd_pttl R r)(k := -1)"
    and set_log: "rd_log R (rd_set R r k v) = rd_log R r"
    and del_get: "rd_get R (rd_del R r k) = (rd_get R r)(k := None)"
    and del_pttl: "rd_pttl R (rd_del R r k) = (rd_pttl R r)(k := -2)"
    and del_log: "rd_log R (rd_del R r k) = rd_log R r"
    and scan_complete: "plain_prefix p \<Longrightarrow>
          \<exists>n ks. scan_all R n r 0 (p @ ''*'') cnt = Some ks \<and>
                 set ks = {k. rd_get R r k \<noteq> None \<and> has_prefix k p}"
    and scan_full: "plain_prefix p \<Longrightarrow> scan_over R rs 0 (p @ ''*'') cnt = Some ks \<Longrightarrow>
          \<forall>r \<in> set rs. rd_get R r k \<noteq> None \<Longrightarrow> has_prefix k p \<Longrightarrow> k \<in> set ks"
    and publish_get: "rd_get R (rd_publish R r ch m) = rd_get R r"
    and publish_pttl: "rd_pttl R (rd_publish R r ch m) = rd_pttl R r"
    and publish_log: "rd_log R (rd_publish R r ch m) = rd_log R r @ [(ch, m)]"
    and elapse_get: "rd_get R (rd_elapse R r d) k =
          (if 0 \<le> rd_pttl R r k \<and> rd_pttl R r k \<le> int d then None else rd_get R r k)"
    and elapse_pttl: "rd_pttl R (rd_elapse R r d) k =
          (if rd_pttl R r k < 0 then rd_pttl R r k
           else if rd_pttl R r k \<le> int d then -2 else rd_pttl R r k - int d)"
    and elapse_log: "rd_log R (rd_elapse R r d) = rd_log R r"
begin

lemmas set_laws = set_get set_pttl set_log
lemmas del_laws = del_get del_pttl del_log
lemmas publish_laws = publish_get publish_pttl publish_log
lemmas elapse_laws = elapse_get elapse_pttl elapse_log

lemma nx_freeE:
  assumes "0 < s" "s \<le> max_ex" "rd_get R r k = None"
  obtains r' where "rd_set_nx_ex R r k v s = Some (r', True)"
    and "rd_get R r' = (rd_get R r)(k := Some v)"
    and "rd_pttl R r' = (rd_pttl R r)(k := 1000 * s)" and "rd_log R r' = rd_log R r"
  using nx_free [OF assms] by blast

text \<open>A key that never expires stays; a key with a deadline is gone once it has passed.\<close>

lemma elapse_persistent: "rd_pttl R r k = -1 \<Longrightarrow> rd_get R (rd_elapse R r d) k = rd_get R r k"
  by (simp add: elapse_get)

lemma elapse_gone:
  "0 \<le> rd_pttl R r k \<Longrightarrow> rd_pttl R r k \<le> int d \<Longrightarrow> rd_get R (rd_elapse R r d) k = None"
  by (simp add: elapse_get)

lemma elapse_alive: "int d < rd_pttl R r k \<Longrightarrow> rd_get R (rd_elapse R r d) k = rd_get R r k"
  by (simp add: elapse_get)

lemma elapse_none: "rd_get R r k = None \<Longrightarrow> rd_get R (rd_elapse R r d) k = None"
  by (simp add: elapse_get)

end

section \<open>Calls over the network\<close>

text \<open>
  go-redis resends a command whose reply it did not get. \<open>Answered n\<close> is a call that gets
  the reply of its last attempt after the server has run \<open>n\<close> earlier ones whose replies were
  lost; \<open>Failed n\<close> is a call that ends in an error after the server has run it \<open>n\<close> times.
\<close>

datatype net = Answered nat | Failed nat

fun server_runs :: "nat \<Rightarrow> ('r \<Rightarrow> 'r \<times> 'a) \<Rightarrow> 'r \<Rightarrow> 'r" where
  "server_runs 0 f r = r"
| "server_runs (Suc n) f r = server_runs n f (fst (f r))"

definition redis_down :: go_error where
  "redis_down = Err ''redis: no reply''"

fun redis_call :: "net \<Rightarrow> ('r \<Rightarrow> 'r \<times> 'a) \<Rightarrow> 'r \<Rightarrow> 'r \<times> (go_error, 'a) result" where
  "redis_call (Answered n) f r = (let (r', a) = f (server_runs n f r) in (r', Inr a))"
| "redis_call (Failed n) f r = (server_runs n f r, Inl redis_down)"

lemma server_runs_id: "(\<And>r. fst (f r) = r) \<Longrightarrow> server_runs n f r = r"
  by (induction n arbitrary: r) auto

lemma server_runs_inv: "(\<And>r. P r \<Longrightarrow> P (fst (f r))) \<Longrightarrow> P r \<Longrightarrow> P (server_runs n f r)"
  by (induction n arbitrary: r) auto

lemma server_runs_idem:
  "(\<And>r. fst (f (fst (f r))) = fst (f r)) \<Longrightarrow> server_runs (Suc n) f r = fst (f r)"
  by (induction n arbitrary: r) auto

lemma redis_call_inv:
  "(\<And>r. P r \<Longrightarrow> P (fst (f r))) \<Longrightarrow> P r \<Longrightarrow> P (fst (redis_call net f r))"
  by (cases net) (auto simp: split_beta intro: server_runs_inv)

section \<open>An in-memory server\<close>

text \<open>Keys map to a value and the milliseconds left to live, if the key expires.\<close>

record mem_state =
  mm_keys :: "(string \<times> (string \<times> nat option)) list"
  mm_log :: "(string \<times> json) list"

definition mem_empty :: mem_state where
  "mem_empty = \<lparr>mm_keys = [], mm_log = []\<rparr>"

definition mem_get :: "mem_state \<Rightarrow> string \<Rightarrow> string option" where
  "mem_get m k = map_option fst (map_of (mm_keys m) k)"

definition mem_pttl :: "mem_state \<Rightarrow> string \<Rightarrow> int" where
  "mem_pttl m k = (case map_of (mm_keys m) k of
     None \<Rightarrow> -2 | Some (v, None) \<Rightarrow> -1 | Some (v, Some t) \<Rightarrow> int t)"

definition mem_put :: "mem_state \<Rightarrow> string \<Rightarrow> string \<Rightarrow> nat option \<Rightarrow> mem_state" where
  "mem_put m k v t = m\<lparr>mm_keys := AList.update k (v, t) (mm_keys m)\<rparr>"

definition mem_set_nx_ex :: "mem_state \<Rightarrow> string \<Rightarrow> string \<Rightarrow> int \<Rightarrow> (mem_state \<times> bool) option" where
  "mem_set_nx_ex m k v s =
     (if s \<le> 0 then None
      else if mem_get m k \<noteq> None then Some (m, False)
      else Some (mem_put m k v (Some (nat (1000 * s))), True))"

definition mem_del :: "mem_state \<Rightarrow> string \<Rightarrow> mem_state" where
  "mem_del m k = m\<lparr>mm_keys := AList.delete k (mm_keys m)\<rparr>"

definition mem_elapse :: "mem_state \<Rightarrow> nat \<Rightarrow> mem_state" where
  "mem_elapse m d = m\<lparr>mm_keys := List.map_filter (\<lambda>(k, v, t). case t of
       None \<Rightarrow> Some (k, v, None)
     | Some x \<Rightarrow> if x \<le> d then None else Some (k, v, Some (x - d))) (AList.clearjunk (mm_keys m))\<rparr>"

definition mem_redis :: "mem_state redis_api" where
  "mem_redis = \<lparr>
     rd_get = mem_get,
     rd_exists = (\<lambda>m k. if mem_get m k = None then 0 else 1),
     rd_pttl = mem_pttl,
     rd_set_nx_ex = mem_set_nx_ex,
     rd_set = (\<lambda>m k v. mem_put m k v None),
     rd_del = mem_del,
     rd_scan = (\<lambda>m c pat cnt.
       (filter (\<lambda>k. has_prefix k (butlast pat)) (keys (AList.clearjunk (mm_keys m))), 0)),
     rd_publish = (\<lambda>m ch p. m\<lparr>mm_log := mm_log m @ [(ch, p)]\<rparr>),
     rd_log = mm_log,
     rd_elapse = mem_elapse\<rparr>"

lemmas mem_defs = mem_redis_def mem_get_def mem_pttl_def mem_put_def mem_set_nx_ex_def
  mem_del_def mem_empty_def

lemma map_of_map_filter:
  assumes "distinct_keys xs"
  shows "map_of (List.map_filter (\<lambda>(k, v). map_option (Pair k) (f v)) xs) k
    = Option.bind (map_of xs k) f"
  using assms
proof (induction xs)
  case Nil
  then show ?case by (simp add: map_filter_def)
next
  case (Cons x xs)
  obtain a b where x: "x = (a, b)" by (cases x)
  have none: "map_of xs a = None"
    using Cons.prems x by (auto simp: map_of_eq_None_iff)
  show ?case
    using Cons none x by (cases "f b") (auto simp: List.map_filter_simps)
qed

lemma mem_elapse_lookup:
  "map_of (mm_keys (mem_elapse m d)) k =
     Option.bind (map_of (mm_keys m) k) (\<lambda>(v, t). case t of
        None \<Rightarrow> Some (v, None) | Some x \<Rightarrow> if x \<le> d then None else Some (v, Some (x - d)))"
proof -
  let ?f = "\<lambda>(v :: string, t :: nat option). case t of
     None \<Rightarrow> Some (v, None) | Some x \<Rightarrow> if x \<le> d then None else Some (v, Some (x - d))"
  have "(\<lambda>(k, v, t). case t of None \<Rightarrow> Some (k, v, None)
          | Some x \<Rightarrow> if x \<le> d then None else Some (k, v, Some (x - d)))
      = (\<lambda>(k :: string, v). map_option (Pair k) (?f v))"
    by (auto simp: fun_eq_iff split: option.splits)
  then show ?thesis
    by (simp add: mem_elapse_def map_of_map_filter distinct_clearjunk map_of_clearjunk)
qed

lemma mem_elapse_log: "mm_log (mem_elapse m d) = mm_log m"
  by (simp add: mem_elapse_def)

lemma scan_all_mem:
  "scan_all mem_redis (Suc n) m c pat cnt =
     Some (filter (\<lambda>k. has_prefix k (butlast pat)) (keys (AList.clearjunk (mm_keys m))))"
  by (simp add: mem_redis_def)

lemma scan_over_mem: "scan_over mem_redis rs c pat cnt = Some ks \<Longrightarrow>
  rs \<noteq> [] \<and> ks = filter (\<lambda>k. has_prefix k (butlast pat)) (keys (AList.clearjunk (mm_keys (hd rs))))"
  by (cases rs) (simp_all add: mem_redis_def)

lemma mem_keys_get: "fst ` set (AList.clearjunk (mm_keys m)) = {k. mem_get m k \<noteq> None}"
proof -
  have "dom (map_of (AList.clearjunk (mm_keys m))) = {k. mem_get m k \<noteq> None}"
    by (auto simp: map_of_clearjunk mem_get_def dom_def)
  then show ?thesis by (simp add: dom_map_of_conv_image_fst)
qed

interpretation mem: redis mem_redis
proof
  fix p cnt and r :: mem_state
  assume "plain_prefix p"
  show "\<exists>n ks. scan_all mem_redis n r 0 (p @ ''*'') cnt = Some ks \<and>
         set ks = {k. rd_get mem_redis r k \<noteq> None \<and> has_prefix k p}"
  proof (intro exI conjI)
    show "scan_all mem_redis (Suc 0) r 0 (p @ ''*'') cnt =
        Some (filter (\<lambda>k. has_prefix k p) (keys (AList.clearjunk (mm_keys r))))"
      by (simp only: scan_all_mem butlast_snoc)
    show "set (filter (\<lambda>k. has_prefix k p) (keys (AList.clearjunk (mm_keys r)))) =
        {k. rd_get mem_redis r k \<noteq> None \<and> has_prefix k p}"
      using mem_keys_get [of r] by (auto simp: mem_redis_def)
  qed
next
  fix p cnt rs k and ks :: "string list"
  assume "scan_over mem_redis rs 0 (p @ ''*'') cnt = Some ks" "\<forall>r \<in> set rs. rd_get mem_redis r k \<noteq> None" "has_prefix k p"
  then show "k \<in> set ks"
    using scan_over_mem [of rs 0 "p @ ''*''" cnt ks] mem_keys_get [of "hd rs"]
    by (cases rs) (auto simp: mem_redis_def)
qed (auto simp: mem_defs fun_eq_iff mem_elapse_lookup mem_elapse_log
      split: option.splits prod.splits)

end
