(* ===== verification/Locking.thy ===== *)
theory Locking
  imports Redis_Api
begin

text \<open>
  \<open>backend/locking/locking.go\<close>: the keys, the two Lua scripts, every operation of the
  \<open>Client\<close> and the two subscription loops, over the Redis commands of \<open>Redis_Api\<close>.
\<close>

section \<open>Constants and keys\<close>

definition holdPrefix :: string where "holdPrefix = ''hold:''"
definition bookedPrefix :: string where "bookedPrefix = ''booked:''"
definition eventChannel :: string where "eventChannel = ''seat_events''"
definition expiredChannel :: string where "expiredChannel = ''__keyevent@0__:expired''"

definition HoldAcquired :: string where "HoldAcquired = ''OK''"
definition HoldTaken :: string where "HoldTaken = ''HELD''"
definition HoldBooked :: string where "HoldBooked = ''BOOKED''"

lemmas hold_results [lock_defs] = HoldAcquired_def HoldTaken_def HoldBooked_def

definition holdKey :: "seat_id \<Rightarrow> string" where
  "holdKey seatID = holdPrefix @ itoa seatID"

definition bookedKey :: "seat_id \<Rightarrow> string" where
  "bookedKey seatID = bookedPrefix @ itoa seatID"

definition seatIDFromKey :: "string \<Rightarrow> string \<Rightarrow> seat_id \<times> bool" where
  "seatIDFromKey key prefix =
     (if \<not> has_prefix key prefix then (0, False)
      else case atoi (trim_prefix key prefix) of
        None \<Rightarrow> (0, False)
      | Some n \<Rightarrow> (n, True))"

lemma holdKey_inject [simp]: "holdKey a = holdKey b \<longleftrightarrow> a = b"
  by (simp add: holdKey_def)

lemma bookedKey_inject [simp]: "bookedKey a = bookedKey b \<longleftrightarrow> a = b"
  by (simp add: bookedKey_def)

lemma holdKey_bookedKey [simp]: "holdKey a \<noteq> bookedKey b" "bookedKey b \<noteq> holdKey a"
  by (simp_all add: holdKey_def bookedKey_def holdPrefix_def bookedPrefix_def)

lemma has_prefix_holdKey [simp]: "has_prefix (holdKey n) holdPrefix"
  by (simp add: holdKey_def)

lemma not_prefix_bookedKey [simp]: "\<not> has_prefix (bookedKey n) holdPrefix"
  by (simp add: bookedKey_def has_prefix_def holdPrefix_def bookedPrefix_def)

lemma seatIDFromKey_holdKey [simp]: "int_range n \<Longrightarrow> seatIDFromKey (holdKey n) holdPrefix = (n, True)"
  by (simp add: seatIDFromKey_def holdKey_def)

lemma plain_holdPrefix [simp]: "plain_prefix holdPrefix"
  by (simp add: plain_prefix_def holdPrefix_def)

section \<open>The Lua scripts\<close>

text \<open>The result is the new server state and the reply; \<open>None\<close> is an error reply.\<close>

definition holdScript ::
  "'r redis_api \<Rightarrow> string \<Rightarrow> string \<Rightarrow> string \<Rightarrow> int \<Rightarrow> 'r \<Rightarrow> 'r \<times> string option" where
  "holdScript R key1 key2 arg1 arg2 r =
     (if rd_exists R r key2 = 1 then (r, Some ''BOOKED'')
      else case rd_set_nx_ex R r key1 arg1 arg2 of
        None \<Rightarrow> (r, None)
      | Some (r', ok) \<Rightarrow> if ok then (r', Some ''OK'') else (r', Some ''HELD''))"

definition bookScript ::
  "'r redis_api \<Rightarrow> string \<Rightarrow> string \<Rightarrow> string \<Rightarrow> 'r \<Rightarrow> 'r \<times> string option" where
  "bookScript R key1 key2 arg1 r = (rd_set R (rd_del R r key1) key2 arg1, Some ''OK'')"

section \<open>The operations of the client\<close>

fun script_result :: "string \<Rightarrow> (go_error, string option) result \<Rightarrow> (go_error, string) result" where
  "script_result msg (Inl e) = Inl (Wrap msg e)"
| "script_result msg (Inr None) = Inl (Wrap msg (Err ''ERR invalid expire time''))"
| "script_result msg (Inr (Some res)) = Inr res"

definition TryHold ::
  "'r redis_api \<Rightarrow> net \<Rightarrow> int \<Rightarrow> seat_id \<Rightarrow> session \<Rightarrow> duration \<Rightarrow> 'r
     \<Rightarrow> 'r \<times> (go_error, string \<times> int) result" where
  "TryHold R net now seatID sess ttl r =
     (let (r', rep) = redis_call net
            (holdScript R (holdKey seatID) (bookedKey seatID) sess (int_seconds ttl)) r
      in case script_result ''hold script'' rep of
           Inl e \<Rightarrow> (r', Inl e)
         | Inr res \<Rightarrow> (r', Inr (res, if res = HoldAcquired
                                      then unix_milli (time_add now ttl) else 0)))"

definition HoldOwner ::
  "'r redis_api \<Rightarrow> net \<Rightarrow> seat_id \<Rightarrow> 'r \<Rightarrow> 'r \<times> (go_error, session \<times> bool) result" where
  "HoldOwner R net seatID r =
     (let (r', rep) = redis_call net (\<lambda>r. (r, rd_get R r (holdKey seatID))) r
      in (r', case rep of
                Inl e \<Rightarrow> Inl e
              | Inr None \<Rightarrow> Inr ([], False)
              | Inr (Some v) \<Rightarrow> Inr (v, True)))"

definition MarkBooked ::
  "'r redis_api \<Rightarrow> net \<Rightarrow> seat_id \<Rightarrow> session \<Rightarrow> 'r \<Rightarrow> 'r \<times> (go_error, unit) result" where
  "MarkBooked R net seatID sess r =
     (let (r', rep) = redis_call net (bookScript R (holdKey seatID) (bookedKey seatID) sess) r
      in (r', case rep of Inl e \<Rightarrow> Inl e | Inr _ \<Rightarrow> Inr ()))"

text \<open>
  The pipeline of \<open>SET\<close> commands in the iteration order of the map; a broken pipeline has
  run some number of them.
\<close>

datatype pipe = Pipe_ok | Pipe_broken nat

definition set_booked_keys ::
  "'r redis_api \<Rightarrow> (seat_id \<times> session) list \<Rightarrow> 'r \<Rightarrow> 'r" where
  "set_booked_keys R booked r =
     fold (\<lambda>(seatID, sess) r. rd_set R r (bookedKey seatID) sess) booked r"

definition RehydrateBooked ::
  "'r redis_api \<Rightarrow> pipe \<Rightarrow> (seat_id \<times> session) list \<Rightarrow> 'r \<Rightarrow> 'r \<times> (go_error, unit) result" where
  "RehydrateBooked R pipe booked r =
     (if booked = [] then (r, Inr ())
      else case pipe of
        Pipe_ok \<Rightarrow> (set_booked_keys R booked r, Inr ())
      | Pipe_broken n \<Rightarrow> (set_booked_keys R (take n booked) r, Inl redis_down))"

definition Publish ::
  "'r redis_api \<Rightarrow> net \<Rightarrow> seat_event \<Rightarrow> 'r \<Rightarrow> 'r \<times> (go_error, unit) result" where
  "Publish R net ev r = redis_call net (\<lambda>r. (rd_publish R r eventChannel (marshal_event ev), ())) r"

fun Healthy :: "net \<Rightarrow> bool" where
  "Healthy (Answered n) = True"
| "Healthy (Failed n) = False"

subsection \<open>Scanning the holds\<close>

text \<open>
  \<open>HeldSeats\<close> makes a sequence of round trips while other clients change the server, also between
  the commands of one pipeline. The argument \<open>obs\<close> gives, for each round trip of the call, the server
  state that each of its commands sees and the clock in nanoseconds at each key of its reply, or
  \<open>None\<close> when it fails. The first round trip of an iteration is the \<open>SCAN\<close>, the second, if the page
  is not empty, the pipeline of one \<open>GET\<close> and one \<open>PTTL\<close> for each key.
\<close>

type_synonym 'r trips = "nat \<Rightarrow> ((nat \<Rightarrow> 'r) \<times> (nat \<Rightarrow> int)) option"

text \<open>The entry of one key: its \<open>GET\<close> sees \<open>r\<close>, its \<open>PTTL\<close> sees \<open>r'\<close>.\<close>

definition hold_state :: "'r redis_api \<Rightarrow> 'r \<Rightarrow> 'r \<Rightarrow> int \<Rightarrow> string \<Rightarrow> (seat_id \<times> seat_state) option" where
  "hold_state R r r' now k =
     (case seatIDFromKey k holdPrefix of (seatID, ok) \<Rightarrow>
        if \<not> ok then None
        else case rd_get R r k of
          None \<Rightarrow> None
        | Some sess \<Rightarrow>
            let d = rd_pttl R r' k;
                expiresAtMs = (if 0 < d then unix_milli (now + d * 1000000) else 0)
            in Some (seatID, \<lparr>st_SeatID = seatID, st_Status = StatusHeld, st_HeldBy = sess,
                              st_BookedBy = [], st_ExpiresAtMs = expiresAtMs\<rparr>))"

fun collect_page ::
  "'r redis_api \<Rightarrow> (nat \<Rightarrow> 'r) \<Rightarrow> (nat \<Rightarrow> int) \<Rightarrow> nat \<Rightarrow> string list \<Rightarrow> (seat_id \<times> seat_state) list
     \<Rightarrow> (seat_id \<times> seat_state) list" where
  "collect_page R rs now j [] out = out"
| "collect_page R rs now j (k # ks) out =
     (case hold_state R (rs (2 * j)) (rs (2 * j + 1)) (now j) k of
        None \<Rightarrow> collect_page R rs now (Suc j) ks out
      | Some entry \<Rightarrow> collect_page R rs now (Suc j) ks (AList.update (fst entry) (snd entry) out))"

definition scan_page ::
  "'r redis_api \<Rightarrow> 'r trips \<Rightarrow> nat \<Rightarrow> nat \<Rightarrow> (seat_id \<times> seat_state) list
     \<Rightarrow> (go_error, nat \<times> nat \<times> (seat_id \<times> seat_state) list) result" where
  "scan_page R obs i cursor out =
     (case obs i of
        None \<Rightarrow> Inl redis_down
      | Some (rs, _) \<Rightarrow>
          let (ks, next) = rd_scan R (rs 0) cursor (holdPrefix @ ''*'') 200
          in if ks = [] then Inr (next, Suc i, out)
             else case obs (Suc i) of
               None \<Rightarrow> Inl redis_down
             | Some (rs', now) \<Rightarrow> Inr (next, Suc (Suc i), collect_page R rs' now 0 ks out))"

partial_function (option) scan_loop ::
  "'r redis_api \<Rightarrow> 'r trips \<Rightarrow> nat \<Rightarrow> nat \<Rightarrow> (seat_id \<times> seat_state) list
     \<Rightarrow> (go_error, (seat_id \<times> seat_state) list) result option" where
  "scan_loop R obs i cursor out =
     (case scan_page R obs i cursor out of
        Inl e \<Rightarrow> Some (Inl e)
      | Inr (next, j, out') \<Rightarrow>
          if next = 0 then Some (Inr out') else scan_loop R obs j next out')"

definition HeldSeats ::
  "'r redis_api \<Rightarrow> 'r trips \<Rightarrow> (go_error, (seat_id \<times> seat_state) list) result option" where
  "HeldSeats R obs = scan_loop R obs 0 0 []"

subsection \<open>Subscriptions\<close>

text \<open>What a subscription loop receives: the end of its context, the end of the channel, a message.\<close>

datatype 'p delivery = Ctx_done | Chan_closed | Msg 'p

fun SubscribeSeatEvents :: "(seat_event \<Rightarrow> 's \<Rightarrow> 's) \<Rightarrow> json delivery list \<Rightarrow> 's \<Rightarrow> 's" where
  "SubscribeSeatEvents handler [] s = s"
| "SubscribeSeatEvents handler (Ctx_done # ds) s = s"
| "SubscribeSeatEvents handler (Chan_closed # ds) s = s"
| "SubscribeSeatEvents handler (Msg payload # ds) s =
     (case unmarshal_event payload of
        None \<Rightarrow> SubscribeSeatEvents handler ds s
      | Some ev \<Rightarrow> SubscribeSeatEvents handler ds (handler ev s))"

fun SubscribeExpiries :: "(seat_id \<Rightarrow> 's \<Rightarrow> 's) \<Rightarrow> string delivery list \<Rightarrow> 's \<Rightarrow> 's" where
  "SubscribeExpiries handler [] s = s"
| "SubscribeExpiries handler (Ctx_done # ds) s = s"
| "SubscribeExpiries handler (Chan_closed # ds) s = s"
| "SubscribeExpiries handler (Msg payload # ds) s =
     (case seatIDFromKey payload holdPrefix of (seatID, ok) \<Rightarrow>
        if \<not> ok then SubscribeExpiries handler ds s
        else SubscribeExpiries handler ds (handler seatID s))"

section \<open>What the operations do to the seats\<close>

text \<open>The state of one seat on the server: who holds it, the booked marker, the time left.\<close>

definition seat_holder :: "'r redis_api \<Rightarrow> 'r \<Rightarrow> seat_id \<Rightarrow> session option" where
  "seat_holder R r seatID = rd_get R r (holdKey seatID)"

definition seat_marker :: "'r redis_api \<Rightarrow> 'r \<Rightarrow> seat_id \<Rightarrow> session option" where
  "seat_marker R r seatID = rd_get R r (bookedKey seatID)"

definition hold_left :: "'r redis_api \<Rightarrow> 'r \<Rightarrow> seat_id \<Rightarrow> int" where
  "hold_left R r seatID = rd_pttl R r (holdKey seatID)"

text \<open>The server after one run of the hold script.\<close>

definition grabbed :: "'r redis_api \<Rightarrow> seat_id \<Rightarrow> session \<Rightarrow> duration \<Rightarrow> 'r \<Rightarrow> 'r" where
  "grabbed R seatID sess ttl r =
     fst (holdScript R (holdKey seatID) (bookedKey seatID) sess (int_seconds ttl) r)"

lemmas seat_views = seat_holder_def seat_marker_def hold_left_def

context redis
begin

lemma holdScript_booked:
  "seat_marker R r s \<noteq> None \<Longrightarrow>
   holdScript R (holdKey s) (bookedKey s) u t r = (r, Some ''BOOKED'')"
  by (auto simp: holdScript_def exists_get seat_marker_def)

lemma holdScript_held:
  "seat_marker R r s = None \<Longrightarrow> seat_holder R r s \<noteq> None \<Longrightarrow> 0 < t \<Longrightarrow> t \<le> max_ex \<Longrightarrow>
   holdScript R (holdKey s) (bookedKey s) u t r = (r, Some ''HELD'')"
  by (simp add: holdScript_def exists_get seat_marker_def seat_holder_def nx_taken)

lemma holdScript_bad:
  "seat_marker R r s = None \<Longrightarrow> t \<le> 0 \<Longrightarrow>
   holdScript R (holdKey s) (bookedKey s) u t r = (r, None)"
  by (simp add: holdScript_def exists_get seat_marker_def nx_bad)

lemma holdScript_free:
  assumes "seat_marker R r s = None" "seat_holder R r s = None" "0 < t" "t \<le> max_ex"
  shows "\<exists>r'. holdScript R (holdKey s) (bookedKey s) u t r = (r', Some ''OK'') \<and>
     rd_get R r' = (rd_get R r)(holdKey s := Some u) \<and>
     rd_pttl R r' = (rd_pttl R r)(holdKey s := 1000 * t) \<and> rd_log R r' = rd_log R r"
proof -
  from assms(2) have "rd_get R r (holdKey s) = None" by (simp add: seat_holder_def)
  from nx_freeE [OF assms(3,4) this, where v = u] obtain r' where
    "rd_set_nx_ex R r (holdKey s) u t = Some (r', True)"
    "rd_get R r' = (rd_get R r)(holdKey s := Some u)"
    "rd_pttl R r' = (rd_pttl R r)(holdKey s := 1000 * t)" "rd_log R r' = rd_log R r"
    by blast
  with assms(1) show ?thesis
    by (simp add: holdScript_def exists_get seat_marker_def)
qed

lemma holdScript_reply_free:
  assumes "seat_marker R r s = None" "seat_holder R r s = None" "0 < int_seconds ttl"
  shows "holdScript R (holdKey s) (bookedKey s) u (int_seconds ttl) r
    = (grabbed R s u ttl r, Some ''OK'')"
  using holdScript_free [OF assms, of u] int_seconds_le [of ttl]
  by (auto simp: grabbed_def max_ex_def)

text \<open>The seats after a run of the script on a free seat.\<close>

lemma grabbed_free:
  assumes "seat_marker R r s = None" "seat_holder R r s = None" "0 < int_seconds ttl"
  shows "seat_holder R (grabbed R s u ttl r) = (seat_holder R r)(s := Some u)"
    and "seat_marker R (grabbed R s u ttl r) = seat_marker R r"
    and "hold_left R (grabbed R s u ttl r) = (hold_left R r)(s := 1000 * int_seconds ttl)"
    and "rd_log R (grabbed R s u ttl r) = rd_log R r"
    and "rd_pttl R (grabbed R s u ttl r) (bookedKey x) = rd_pttl R r (bookedKey x)"
  using holdScript_free [OF assms, of u] int_seconds_le [of ttl]
  by (auto simp: grabbed_def max_ex_def seat_views fun_eq_iff)

lemma grabbed_not_free:
  "seat_marker R r s \<noteq> None \<or> seat_holder R r s \<noteq> None \<or> int_seconds ttl \<le> 0 \<Longrightarrow>
   grabbed R s u ttl r = r"
proof -
  assume a: "seat_marker R r s \<noteq> None \<or> seat_holder R r s \<noteq> None \<or> int_seconds ttl \<le> 0"
  have le: "int_seconds ttl \<le> max_ex"
    using int_seconds_le [of ttl] by (simp add: max_ex_def)
  show ?thesis
  proof (cases "seat_marker R r s = None")
    case False
    then show ?thesis by (simp add: grabbed_def holdScript_booked)
  next
    case True
    with a le show ?thesis
      by (cases "int_seconds ttl \<le> 0") (simp_all add: grabbed_def holdScript_bad holdScript_held)
  qed
qed

lemma grabbed_idem: "grabbed R s u ttl (grabbed R s u ttl r) = grabbed R s u ttl r"
proof (cases "seat_marker R r s = None \<and> seat_holder R r s = None \<and> 0 < int_seconds ttl")
  case True
  then have "seat_holder R (grabbed R s u ttl r) s \<noteq> None"
    by (simp add: grabbed_free)
  then show ?thesis by (simp add: grabbed_not_free)
next
  case False
  then have "grabbed R s u ttl r = r" by (intro grabbed_not_free) auto
  then show ?thesis by simp
qed

lemma runs_holdScript:
  "server_runs (Suc n) (holdScript R (holdKey s) (bookedKey s) u (int_seconds ttl)) r
     = grabbed R s u ttl r"
  using grabbed_idem by (subst server_runs_idem) (simp_all add: grabbed_def)

lemma runs_holdScript_cases:
  "server_runs n (holdScript R (holdKey s) (bookedKey s) u (int_seconds ttl)) r
     = (if n = 0 then r else grabbed R s u ttl r)"
  by (cases n) (simp_all add: runs_holdScript del: server_runs.simps(2))

lemma TryHold_state:
  "fst (TryHold R net now s u ttl r) = r \<or>
   fst (TryHold R net now s u ttl r) = grabbed R s u ttl r"
  by (cases net)
    (auto simp: TryHold_def Let_def runs_holdScript_cases grabbed_idem split_beta
      split: sum.splits simp flip: grabbed_def)

lemma TryHold_booked:
  "seat_marker R r s \<noteq> None \<Longrightarrow>
   TryHold R (Answered n) now s u ttl r = (r, Inr (HoldBooked, 0))"
  by (simp add: TryHold_def runs_holdScript_cases grabbed_not_free holdScript_booked lock_defs)

lemma TryHold_held:
  "seat_marker R r s = None \<Longrightarrow> seat_holder R r s \<noteq> None \<Longrightarrow> 0 < int_seconds ttl \<Longrightarrow>
   TryHold R (Answered n) now s u ttl r = (r, Inr (HoldTaken, 0))"
  using int_seconds_le [of ttl]
  by (simp add: TryHold_def runs_holdScript_cases grabbed_not_free holdScript_held lock_defs
      max_ex_def)

text \<open>
  On a free seat a first attempt wins; an attempt that was resent after a lost reply finds the
  seat held, by its own session, and is told so.
\<close>

lemma TryHold_free:
  assumes "seat_marker R r s = None" "seat_holder R r s = None" "0 < int_seconds ttl"
  shows "TryHold R (Answered 0) now s u ttl r =
      (grabbed R s u ttl r, Inr (HoldAcquired, unix_milli (time_add now ttl)))"
    and "TryHold R (Answered (Suc n)) now s u ttl r = (grabbed R s u ttl r, Inr (HoldTaken, 0))"
proof -
  show "TryHold R (Answered 0) now s u ttl r =
      (grabbed R s u ttl r, Inr (HoldAcquired, unix_milli (time_add now ttl)))"
    by (simp add: TryHold_def holdScript_reply_free assms lock_defs)
  let ?g = "grabbed R s u ttl r"
  have "seat_marker R ?g s = None" "seat_holder R ?g s \<noteq> None"
    using assms by (simp_all add: grabbed_free)
  then have "holdScript R (holdKey s) (bookedKey s) u (int_seconds ttl) ?g = (?g, Some ''HELD'')"
    using assms(3) int_seconds_le [of ttl] by (intro holdScript_held) (simp_all add: max_ex_def)
  then show "TryHold R (Answered (Suc n)) now s u ttl r = (?g, Inr (HoldTaken, 0))"
    by (simp add: TryHold_def runs_holdScript lock_defs del: server_runs.simps(2))
qed

lemma TryHold_bad_ttl:
  "seat_marker R r s = None \<Longrightarrow> int_seconds ttl \<le> 0 \<Longrightarrow>
   TryHold R (Answered n) now s u ttl r =
     (r, Inl (Wrap ''hold script'' (Err ''ERR invalid expire time'')))"
  by (simp add: TryHold_def runs_holdScript_cases grabbed_not_free holdScript_bad)

lemma TryHold_failed:
  "TryHold R (Failed n) now s u ttl r =
     (if n = 0 then r else grabbed R s u ttl r, Inl (Wrap ''hold script'' redis_down))"
  by (simp add: TryHold_def runs_holdScript_cases)

lemma TryHold_acquiredD:
  assumes "TryHold R net now s u ttl r = (r', Inr (HoldAcquired, ms))"
  shows "seat_marker R r s = None" "seat_holder R r s = None" "0 < int_seconds ttl"
    "r' = grabbed R s u ttl r" "ms = unix_milli (time_add now ttl)"
proof -
  obtain n where n: "net = Answered n"
    using assms by (cases net) (auto simp: TryHold_failed)
  have m: "seat_marker R r s = None"
    using assms TryHold_booked [of r s n now u ttl] n
    by (cases "seat_marker R r s") (auto simp: lock_defs)
  have t: "0 < int_seconds ttl"
    using assms TryHold_bad_ttl [OF m, of ttl n now u] n by fastforce
  have h: "seat_holder R r s = None"
    using assms TryHold_held [OF m _ t, of n now u] n
    by (cases "seat_holder R r s") (auto simp: lock_defs)
  show "seat_marker R r s = None" "seat_holder R r s = None" "0 < int_seconds ttl"
    by (fact m h t)+
  show "r' = grabbed R s u ttl r" "ms = unix_milli (time_add now ttl)"
    using assms TryHold_free [OF m h t] n by (cases n; simp add: lock_defs)+
qed

lemma HoldOwner_state [simp]: "fst (HoldOwner R net s r) = r"
  by (cases net) (simp_all add: HoldOwner_def server_runs_id)

lemma HoldOwner_answered:
  "HoldOwner R (Answered n) s r =
     (r, Inr (case seat_holder R r s of None \<Rightarrow> ([], False) | Some u \<Rightarrow> (u, True)))"
  by (simp add: HoldOwner_def server_runs_id seat_holder_def split: option.splits)

lemma HoldOwner_failed: "HoldOwner R (Failed n) s r = (r, Inl redis_down)"
  by (simp add: HoldOwner_def server_runs_id)

lemma HoldOwner_InrD:
  "HoldOwner R net s r = (r', Inr (u, h)) \<Longrightarrow> r' = r \<and> (h \<longleftrightarrow> seat_holder R r s \<noteq> None)
     \<and> (h \<longrightarrow> seat_holder R r s = Some u)"
  by (cases net) (auto simp: HoldOwner_answered HoldOwner_failed split: option.splits)

end

text \<open>The server after one run of the booking script.\<close>

definition marked :: "'r redis_api \<Rightarrow> seat_id \<Rightarrow> session \<Rightarrow> 'r \<Rightarrow> 'r" where
  "marked R seatID sess r = fst (bookScript R (holdKey seatID) (bookedKey seatID) sess r)"

context redis
begin

lemma marked_views:
  "seat_holder R (marked R s u r) = (seat_holder R r)(s := None)"
  "seat_marker R (marked R s u r) = (seat_marker R r)(s := Some u)"
  "hold_left R (marked R s u r) = (hold_left R r)(s := -2)"
  "rd_pttl R (marked R s u r) (bookedKey x) = (if x = s then -1 else rd_pttl R r (bookedKey x))"
  "rd_log R (marked R s u r) = rd_log R r"
  by (auto simp: marked_def bookScript_def seat_views set_laws del_laws fun_eq_iff)

lemma MarkBooked_state:
  "fst (MarkBooked R (Failed 0) s u r) = r"
  "\<exists>n. fst (MarkBooked R net s u r) =
     server_runs n (bookScript R (holdKey s) (bookedKey s) u) r"
  "fst (MarkBooked R (Answered 0) s u r) = marked R s u r"
proof -
  show "fst (MarkBooked R (Failed 0) s u r) = r" by (simp add: MarkBooked_def)
  show "fst (MarkBooked R (Answered 0) s u r) = marked R s u r"
    by (simp add: MarkBooked_def marked_def bookScript_def)
  have *: "fst (f (server_runs n f x)) = server_runs (Suc n) f x"
    for n and f :: "'a \<Rightarrow> 'a \<times> string option" and x
    by (induction n arbitrary: x) auto
  show "\<exists>n. fst (MarkBooked R net s u r) =
     server_runs n (bookScript R (holdKey s) (bookedKey s) u) r"
    by (cases net) (auto simp: MarkBooked_def split_beta Let_def * simp del: server_runs.simps(2))
qed

text \<open>However often the booking script is run, the seats end up as after one run.\<close>

lemma runs_bookScript:
  "let r' = server_runs (Suc n) (bookScript R (holdKey s) (bookedKey s) u) r in
     rd_get R r' = rd_get R (marked R s u r) \<and> rd_pttl R r' = rd_pttl R (marked R s u r) \<and>
     rd_log R r' = rd_log R r"
proof (induction n arbitrary: r)
  case 0
  show ?case by (auto simp: marked_def bookScript_def set_laws del_laws)
next
  case (Suc n)
  show ?case
    using Suc [of "marked R s u r"]
    by (simp add: marked_def bookScript_def set_laws del_laws Let_def)
qed

end

section \<open>What a scan of the holds returns\<close>

text \<open>The entry the scan makes for a seat, and the keyspace the backend keeps.\<close>

definition held_entry :: "'r redis_api \<Rightarrow> 'r \<Rightarrow> int \<Rightarrow> seat_id \<Rightarrow> seat_state option" where
  "held_entry R r now s = map_option snd (hold_state R r r now (holdKey s))"

definition canonical_holds :: "'r redis_api \<Rightarrow> 'r \<Rightarrow> bool" where
  "canonical_holds R r \<longleftrightarrow>
     (\<forall>k. rd_get R r k \<noteq> None \<and> has_prefix k holdPrefix \<longrightarrow> (\<exists>s. int_range s \<and> k = holdKey s))"

lemma held_entry_eq:
  "int_range s \<Longrightarrow> held_entry R r now s = map_option
     (\<lambda>u. \<lparr>st_SeatID = s, st_Status = StatusHeld, st_HeldBy = u, st_BookedBy = [],
          st_ExpiresAtMs = (if 0 < hold_left R r s
             then unix_milli (now + hold_left R r s * 1000000) else 0)\<rparr>) (seat_holder R r s)"
  by (simp add: held_entry_def hold_state_def seat_views Let_def split: option.splits)

lemma hold_state_key: "hold_state R r r' now k = Some (s, st) \<Longrightarrow>
    seatIDFromKey k holdPrefix = (s, True) \<and> rd_get R r k = Some (st_HeldBy st)
    \<and> st_Status st = StatusHeld \<and> st_SeatID st = s \<and> st_BookedBy st = []"
  by (auto simp: hold_state_def Let_def split: prod.splits if_splits option.splits)

lemma held_entry_SomeD:
  assumes "held_entry R r now s = Some st"
  shows "int_range s \<and> st_SeatID st = s \<and> st_Status st = StatusHeld \<and> seat_holder R r s = Some (st_HeldBy st)"
proof -
  from assms obtain x where h: "hold_state R r r now (holdKey s) = Some (x, st)"
    by (auto simp: held_entry_def)
  note k = hold_state_key [OF h]
  then have "int_range s \<and> x = s"
    by (auto simp: seatIDFromKey_def holdKey_def atoi_itoa_eq split: if_splits)
  with k show ?thesis by (simp add: seat_holder_def)
qed

lemma collect_page_distinct [simp]:
  "distinct_keys out \<Longrightarrow> distinct_keys (collect_page R rs now j ks out)"
  by (induction R rs now j ks out rule: collect_page.induct) (auto split: option.splits)

lemma collect_page_dom:
  "map_of out s \<noteq> None \<Longrightarrow> map_of (collect_page R rs now j ks out) s \<noteq> None"
  by (induction R rs now j ks out rule: collect_page.induct) (auto split: option.splits)

lemma collect_page_mem:
  "k \<in> set ks \<Longrightarrow> (\<And>a b t. \<exists>st. hold_state R (rs a) (rs b) t k = Some (s, st)) \<Longrightarrow>
   map_of (collect_page R rs now j ks out) s \<noteq> None"
proof (induction R rs now j ks out rule: collect_page.induct)
  case (1 R rs now j out)
  then show ?case by simp
next
  case (2 R rs now j x ks out)
  show ?case
  proof (cases "k \<in> set ks")
    case True
    with 2 show ?thesis by (cases "hold_state R (rs (2 * j)) (rs (2 * j + 1)) (now j) x") auto
  next
    case False
    with "2.prems"(1) "2.prems"(2) [of "2 * j" "2 * j + 1" "now j"]
    obtain st where "hold_state R (rs (2 * j)) (rs (2 * j + 1)) (now j) x = Some (s, st)" by auto
    then show ?thesis
      using collect_page_dom [of "AList.update s st out" s R rs now "Suc j" ks] by simp
  qed
qed

lemma collect_page_lookup:
  "map_of (collect_page R rs now j ks out) s = Some st \<Longrightarrow>
   map_of out s = Some st \<or> (\<exists>k \<in> set ks. \<exists>a b i. hold_state R (rs a) (rs b) (now i) k = Some (s, st))"
proof (induction R rs now j ks out rule: collect_page.induct)
  case (1 R rs now j out)
  then show ?case by simp
next
  case (2 R rs now j x ks out)
  show ?case
  proof (cases "hold_state R (rs (2 * j)) (rs (2 * j + 1)) (now j) x")
    case None
    with 2 show ?thesis by auto
  next
    case (Some e)
    obtain s' st' where e: "e = (s', st')" by (cases e)
    show ?thesis
    proof (cases "s' = s \<and> st' = st")
      case True
      with Some e show ?thesis by auto
    next
      case False
      with 2 Some e show ?thesis by (fastforce split: if_splits)
    qed
  qed
qed

text \<open>What every iteration of the scan keeps, whatever the server does meanwhile.\<close>

definition observed :: "'r redis_api \<Rightarrow> 'r trips \<Rightarrow> (seat_id \<times> seat_state) list \<Rightarrow> bool" where
  "observed R obs out \<longleftrightarrow> distinct_keys out \<and> (\<forall>s st. map_of out s = Some st \<longrightarrow>
     (\<exists>i rs now a b c k. obs i = Some (rs, now) \<and> hold_state R (rs a) (rs b) (now c) k = Some (s, st)))"

lemma collect_page_observed:
  assumes "observed R obs out" and "obs i = Some (rs, now)"
  shows "observed R obs (collect_page R rs now j ks out)"
  unfolding observed_def
proof (intro conjI allI impI)
  show "distinct_keys (collect_page R rs now j ks out)"
    using assms(1) by (simp add: observed_def)
  fix s st
  assume "map_of (collect_page R rs now j ks out) s = Some st"
  then show "\<exists>i rs now a b c k. obs i = Some (rs, now) \<and> hold_state R (rs a) (rs b) (now c) k = Some (s, st)"
    using assms collect_page_lookup [of R rs now j ks out s st] unfolding observed_def by blast
qed

lemma scan_page_observed:
  "scan_page R obs i c out = Inr (next, j, out') \<Longrightarrow> observed R obs out \<Longrightarrow> observed R obs out'"
  unfolding scan_page_def Let_def
  by (auto split: option.splits prod.splits if_splits intro: collect_page_observed)

lemma scan_loop_observed:
  assumes "scan_loop R obs i c out = Some res" and "observed R obs out" and "res = Inr out'"
  shows "observed R obs out'"
proof -
  have "observed R obs out \<longrightarrow> (\<forall>out'. res = Inr out' \<longrightarrow> observed R obs out')"
  proof (rule scan_loop.raw_induct [where P = "\<lambda>R obs i c out res.
        observed R obs out \<longrightarrow> (\<forall>out'. res = Inr out' \<longrightarrow> observed R obs out')", OF _ assms(1)])
    fix f :: "'a redis_api \<Rightarrow> 'a trips \<Rightarrow> nat \<Rightarrow> nat \<Rightarrow> (seat_id \<times> seat_state) list
       \<Rightarrow> (go_error, (seat_id \<times> seat_state) list) result option"
      and R :: "'a redis_api" and obs i c out res
    assume IH: "\<And>R obs i c out res. f R obs i c out = Some res \<Longrightarrow>
        observed R obs out \<longrightarrow> (\<forall>out'. res = Inr out' \<longrightarrow> observed R obs out')"
      and eq: "(case scan_page R obs i c out of Inl e \<Rightarrow> Some (Inl e)
         | Inr (next, j, out') \<Rightarrow>
             if next = 0 then Some (Inr out') else f R obs j next out') = Some res"
    show "observed R obs out \<longrightarrow> (\<forall>out'. res = Inr out' \<longrightarrow> observed R obs out')"
    proof (cases "scan_page R obs i c out")
      case (Inl e)
      with eq show ?thesis by auto
    next
      case (Inr t)
      obtain n j o' where t: "t = (n, j, o')" by (cases t)
      from Inr t have o': "observed R obs out \<Longrightarrow> observed R obs o'"
        by (simp add: scan_page_observed)
      show ?thesis
      proof (cases "n = 0")
        case True
        with eq Inr t have "res = Inr o'" by simp
        with o' show ?thesis by simp
      next
        case False
        with eq Inr t have "f R obs j n o' = Some res" by simp
        from IH [OF this] o' show ?thesis by blast
      qed
    qed
  qed
  with assms(2,3) show ?thesis by blast
qed

text \<open>
  Over a server that does not change during the call: the entries made so far are right, and
  every hold among the keys \<open>S\<close> seen so far has one.
\<close>

definition scanned ::
  "'r redis_api \<Rightarrow> 'r \<Rightarrow> (nat \<Rightarrow> nat \<Rightarrow> int) \<Rightarrow> string set \<Rightarrow> (seat_id \<times> seat_state) list \<Rightarrow> bool" where
  "scanned R r clk S out \<longleftrightarrow> distinct_keys out
     \<and> (\<forall>s st. map_of out s = Some st \<longrightarrow> (\<exists>i j. held_entry R r (clk i j) s = Some st))
     \<and> (\<forall>s. int_range s \<longrightarrow> holdKey s \<in> S \<longrightarrow> seat_holder R r s \<noteq> None \<longrightarrow> map_of out s \<noteq> None)"

lemma collect_page_scanned:
  assumes "scanned R r clk S out" and "canonical_holds R r"
  shows "scanned R r clk (S \<union> set ks) (collect_page R (\<lambda>_. r) (clk i) 0 ks out)"
  unfolding scanned_def
proof (intro conjI allI impI)
  show "distinct_keys (collect_page R (\<lambda>_. r) (clk i) 0 ks out)"
    using assms(1) by (simp add: scanned_def)
next
  fix s st
  assume "map_of (collect_page R (\<lambda>_. r) (clk i) 0 ks out) s = Some st"
  then consider "map_of out s = Some st"
    | k j where "k \<in> set ks" "hold_state R r r (clk i j) k = Some (s, st)"
    by (auto dest: collect_page_lookup)
  then show "\<exists>i j. held_entry R r (clk i j) s = Some st"
  proof cases
    case 1
    then show ?thesis using assms(1) by (auto simp: scanned_def)
  next
    case 2
    from hold_state_key [OF 2(2)] have k: "seatIDFromKey k holdPrefix = (s, True)"
      "rd_get R r k = Some (st_HeldBy st)" by simp_all
    then have "has_prefix k holdPrefix"
      by (auto simp: seatIDFromKey_def split: if_splits)
    with k(2) assms(2) obtain x where "int_range x" "k = holdKey x"
      by (auto simp: canonical_holds_def)
    with k(1) 2(2) have "held_entry R r (clk i j) s = Some st"
      by (simp add: held_entry_def)
    then show ?thesis by blast
  qed
next
  fix s
  assume s: "int_range s" "holdKey s \<in> S \<union> set ks" "seat_holder R r s \<noteq> None"
  show "map_of (collect_page R (\<lambda>_. r) (clk i) 0 ks out) s \<noteq> None"
  proof (cases "holdKey s \<in> S")
    case True
    with s assms(1) have "map_of out s \<noteq> None" unfolding scanned_def by blast
    then show ?thesis by (rule collect_page_dom)
  next
    case False
    from s(1,3) have "\<exists>st. hold_state R r r t (holdKey s) = Some (s, st)" for t
      by (auto simp: hold_state_def seat_holder_def Let_def)
    with False s(2) show ?thesis by (intro collect_page_mem) auto
  qed
qed

lemma scan_loop_static:
  assumes "scan_all R n r c (holdPrefix @ ''*'') 200 = Some ks"
    and "\<And>i. obs i = Some (\<lambda>_. r, clk i)" and "canonical_holds R r" and "scanned R r clk S out"
  shows "\<exists>out'. scan_loop R obs i c out = Some (Inr out') \<and> scanned R r clk (S \<union> set ks) out'"
  using assms(1,4)
proof (induction n arbitrary: c ks i out S)
  case 0
  then show ?case by simp
next
  case (Suc n)
  obtain page next' where p: "rd_scan R r c (holdPrefix @ ''*'') 200 = (page, next')"
    by (cases "rd_scan R r c (holdPrefix @ ''*'') 200")
  define out1 where "out1 = (if page = [] then out else collect_page R (\<lambda>_. r) (clk (Suc i)) 0 page out)"
  define j where "j = (if page = [] then Suc i else Suc (Suc i))"
  have page: "scan_page R obs i c out = Inr (next', j, out1)"
    by (simp add: scan_page_def assms(2) p out1_def j_def)
  have sc: "scanned R r clk (S \<union> set page) out1"
    using collect_page_scanned [OF Suc.prems(2) assms(3)] Suc.prems(2) by (simp add: out1_def)
  show ?case
  proof (cases "next' = 0")
    case True
    with page sc Suc.prems(1) p show ?thesis by (simp add: scan_loop.simps)
  next
    case False
    with Suc.prems(1) p obtain ks' where ks': "scan_all R n r next' (holdPrefix @ ''*'') 200 = Some ks'"
      "ks = page @ ks'" by auto
    from Suc.IH [OF ks'(1) sc, of j] obtain out' where
      "scan_loop R obs j next' out1 = Some (Inr out')" "scanned R r clk (S \<union> set page \<union> set ks') out'"
      by blast
    with page False ks'(2) show ?thesis by (auto simp: scan_loop.simps [of R obs i] Un_assoc)
  qed
qed

text \<open>
  Over a server that does change: the \<open>SCAN\<close>s of the rest of the iteration have seen some states in
  turn, and a seat whose hold was in all the states the round trips saw has an entry
  if its key came up.
\<close>

definition steady :: "'r redis_api \<Rightarrow> 'r trips \<Rightarrow> seat_id \<Rightarrow> bool" where
  "steady R obs s \<longleftrightarrow> (\<forall>i rs now j. obs i = Some (rs, now) \<longrightarrow> seat_holder R (rs j) s \<noteq> None)"

definition kept ::
  "'r redis_api \<Rightarrow> 'r trips \<Rightarrow> nat \<Rightarrow> (seat_id \<times> seat_state) list \<Rightarrow> (seat_id \<times> seat_state) list \<Rightarrow> bool" where
  "kept R obs c out out' \<longleftrightarrow> (\<exists>rl ks. scan_over R rl c (holdPrefix @ ''*'') 200 = Some ks \<and>
     (\<forall>r \<in> set rl. \<exists>i rs now. obs i = Some (rs, now) \<and> r = rs 0) \<and>
     (\<forall>s. map_of out s \<noteq> None \<longrightarrow> map_of out' s \<noteq> None) \<and>
     (\<forall>s. int_range s \<and> steady R obs s \<and> holdKey s \<in> set ks \<longrightarrow> map_of out' s \<noteq> None))"

lemma scan_page_kept:
  assumes "scan_page R obs i c out = Inr (next, j, out1)"
  obtains rs now ks where "obs i = Some (rs, now)" "rd_scan R (rs 0) c (holdPrefix @ ''*'') 200 = (ks, next)"
    "\<And>s. map_of out s \<noteq> None \<Longrightarrow> map_of out1 s \<noteq> None"
    "\<And>s. int_range s \<Longrightarrow> steady R obs s \<Longrightarrow> holdKey s \<in> set ks \<Longrightarrow> map_of out1 s \<noteq> None"
proof -
  obtain rs now where o: "obs i = Some (rs, now)" using assms by (auto simp: scan_page_def split: option.splits)
  obtain ks next' where ks: "rd_scan R (rs 0) c (holdPrefix @ ''*'') 200 = (ks, next')" by fastforce
  show thesis
  proof (cases "ks = []")
    case True
    with assms o ks have "next' = next" "out1 = out" by (simp_all add: scan_page_def)
    with True that [of rs now ks] o ks show thesis by simp
  next
    case False
    then obtain rs' now' where o': "obs (Suc i) = Some (rs', now')" "next' = next" "out1 = collect_page R rs' now' 0 ks out"
      using assms o ks by (auto simp: scan_page_def split: option.splits)
    show thesis
    proof (rule that [OF o ks [unfolded o'(2)]])
      show "map_of out s \<noteq> None \<Longrightarrow> map_of out1 s \<noteq> None" for s unfolding o'(3) by (rule collect_page_dom)
      fix s assume s: "int_range s" "steady R obs s" "holdKey s \<in> set ks"
      have "\<exists>st. hold_state R (rs' a) (rs' b) t (holdKey s) = Some (s, st)" for a b t
      proof -
        have "seat_holder R (rs' a) s \<noteq> None" using s(2) o'(1) unfolding steady_def by blast
        then obtain u where "rd_get R (rs' a) (holdKey s) = Some u" by (auto simp: seat_holder_def)
        then show ?thesis using s(1) by (simp add: hold_state_def Let_def)
      qed
      then show "map_of out1 s \<noteq> None" unfolding o'(3) by (rule collect_page_mem [OF s(3)])
    qed
  qed
qed

lemma scan_loop_kept:
  assumes "scan_loop R obs i c out = Some (Inr out')"
  shows "kept R obs c out out'"
proof -
  have "\<forall>out'. res = Inr out' \<longrightarrow> kept R obs c out out'" if "scan_loop R obs i c out = Some res" for res
  proof (rule scan_loop.raw_induct [where P = "\<lambda>R obs i c out res. \<forall>out'. res = Inr out' \<longrightarrow> kept R obs c out out'", OF _ that])
    fix f :: "'a redis_api \<Rightarrow> 'a trips \<Rightarrow> nat \<Rightarrow> nat \<Rightarrow> (seat_id \<times> seat_state) list
       \<Rightarrow> (go_error, (seat_id \<times> seat_state) list) result option"
      and R :: "'a redis_api" and obs i c out res
    assume IH: "\<And>R obs i c out res. f R obs i c out = Some res \<Longrightarrow> \<forall>out'. res = Inr out' \<longrightarrow> kept R obs c out out'"
      and eq: "(case scan_page R obs i c out of Inl e \<Rightarrow> Some (Inl e)
         | Inr (next, j, out') \<Rightarrow> if next = 0 then Some (Inr out') else f R obs j next out') = Some res"
    show "\<forall>out'. res = Inr out' \<longrightarrow> kept R obs c out out'"
    proof (intro allI impI)
      fix out' assume res: "res = Inr out'"
      obtain n j out1 where page: "scan_page R obs i c out = Inr (n, j, out1)"
        using eq res by (cases "scan_page R obs i c out") auto
      obtain rs now ks where p: "obs i = Some (rs, now)" "rd_scan R (rs 0) c (holdPrefix @ ''*'') 200 = (ks, n)"
        "\<And>s. map_of out s \<noteq> None \<Longrightarrow> map_of out1 s \<noteq> None"
        "\<And>s. int_range s \<Longrightarrow> steady R obs s \<Longrightarrow> holdKey s \<in> set ks \<Longrightarrow> map_of out1 s \<noteq> None"
        by (rule scan_page_kept [OF page], rule that)
      show "kept R obs c out out'"
      proof (cases "n = 0")
        case True
        with eq res page have "out' = out1" by simp
        with p True show ?thesis unfolding kept_def by (intro exI [of _ "[rs 0]"] exI [of _ ks]) auto
      next
        case False
        with eq res page have "f R obs j n out1 = Some (Inr out')" by simp
        from IH [OF this] obtain rl ks' where r: "scan_over R rl n (holdPrefix @ ''*'') 200 = Some ks'"
          "\<forall>r \<in> set rl. \<exists>i rs now. obs i = Some (rs, now) \<and> r = rs 0"
          "\<And>s. map_of out1 s \<noteq> None \<Longrightarrow> map_of out' s \<noteq> None"
          "\<And>s. int_range s \<Longrightarrow> steady R obs s \<Longrightarrow> holdKey s \<in> set ks' \<Longrightarrow> map_of out' s \<noteq> None"
          unfolding kept_def by auto
        with p False show ?thesis
          unfolding kept_def by (intro exI [of _ "rs 0 # rl"] exI [of _ "ks @ ks'"]) auto
      qed
    qed
  qed
  with assms show ?thesis by blast
qed

lemma HeldSeats_entries:
  assumes "HeldSeats R obs = Some (Inr out)"
  shows "distinct_keys out" "map_of out s = Some st \<Longrightarrow> st_SeatID st = s \<and> st_Status st = StatusHeld \<and>
    (\<exists>i rs now j k. obs i = Some (rs, now) \<and> seatIDFromKey k holdPrefix = (s, True) \<and>
       rd_get R (rs j) k = Some (st_HeldBy st))"
proof -
  have "observed R obs []" by (simp add: observed_def)
  from scan_loop_observed [OF assms [unfolded HeldSeats_def] this refl] have o: "observed R obs out" .
  then show "distinct_keys out" by (simp add: observed_def)
  assume "map_of out s = Some st"
  then obtain i rs now a b c k where "obs i = Some (rs, now)" "hold_state R (rs a) (rs b) (now c) k = Some (s, st)"
    using o unfolding observed_def by blast
  with hold_state_key [OF this(2)] show "st_SeatID st = s \<and> st_Status st = StatusHeld \<and>
    (\<exists>i rs now j k. obs i = Some (rs, now) \<and> seatIDFromKey k holdPrefix = (s, True) \<and>
       rd_get R (rs j) k = Some (st_HeldBy st))" by blast
qed

context redis
begin

lemma HeldSeats_static:
  assumes "\<And>i. obs i = Some (\<lambda>_. r, clk i)" and "canonical_holds R r"
  shows "\<exists>out. HeldSeats R obs = Some (Inr out) \<and> distinct_keys out \<and>
     (\<forall>s. int_range s \<longrightarrow> (case seat_holder R r s of
           None \<Rightarrow> map_of out s = None
         | Some u \<Rightarrow> \<exists>i j. map_of out s = held_entry R r (clk i j) s)) \<and>
     (\<forall>s st. map_of out s = Some st \<longrightarrow> (\<exists>i j. held_entry R r (clk i j) s = Some st))"
proof -
  obtain n ks where ks: "scan_all R n r 0 (holdPrefix @ ''*'') 200 = Some ks"
    "set ks = {k. rd_get R r k \<noteq> None \<and> has_prefix k holdPrefix}"
    using scan_complete [OF plain_holdPrefix] by blast
  have "scanned R r clk {} []" by (simp add: scanned_def)
  from scan_loop_static [OF ks(1) assms this, of 0] obtain out where
    out: "HeldSeats R obs = Some (Inr out)" "scanned R r clk (set ks) out"
    by (auto simp: HeldSeats_def)
  have "case seat_holder R r s of None \<Rightarrow> map_of out s = None
      | Some u \<Rightarrow> \<exists>i j. map_of out s = held_entry R r (clk i j) s" if "int_range s" for s
  proof (cases "seat_holder R r s")
    case None
    with that have "held_entry R r (clk i j) s = None" for i j
      by (simp add: held_entry_eq)
    with None out(2) show ?thesis by (cases "map_of out s") (force simp: scanned_def)+
  next
    case (Some u)
    then have "holdKey s \<in> set ks" by (simp add: ks(2) seat_holder_def)
    with Some that out(2) obtain st where st: "map_of out s = Some st"
      unfolding scanned_def by blast
    with out(2) obtain i j where "held_entry R r (clk i j) s = Some st"
      unfolding scanned_def by blast
    then have "map_of out s = held_entry R r (clk i j) s" using st by simp
    then show ?thesis unfolding Some option.case by blast
  qed
  with out show ?thesis by (auto simp: scanned_def)
qed

text \<open>A seat whose hold is the same in all the states the call saw is reported with that hold.\<close>

lemma HeldSeats_steady:
  assumes run: "HeldSeats R obs = Some (Inr out)" and s: "int_range s"
    and canon: "\<And>i rs now j. obs i = Some (rs, now) \<Longrightarrow> canonical_holds R (rs j)"
    and same: "\<And>i rs now j. obs i = Some (rs, now) \<Longrightarrow> seat_holder R (rs j) s = h"
  shows "map_option st_HeldBy (map_of out s) = h"
proof -
  have entry: "h = Some (st_HeldBy st)" if st: "map_of out s = Some st" for st
  proof -
    obtain i rs now a k where k: "obs i = Some (rs, now)" and
      key: "seatIDFromKey k holdPrefix = (s, True)" "rd_get R (rs a) k = Some (st_HeldBy st)"
      using HeldSeats_entries(2) [OF run st] by blast
    then have "has_prefix k holdPrefix" by (auto simp: seatIDFromKey_def split: if_splits)
    with key canon [OF k, of a] obtain x where "int_range x" "k = holdKey x" by (auto simp: canonical_holds_def)
    with key have "seat_holder R (rs a) s = Some (st_HeldBy st)" by (auto simp: seat_holder_def)
    with same [OF k] show ?thesis by simp
  qed
  show ?thesis
  proof (cases h)
    case None
    with entry show ?thesis by (cases "map_of out s") auto
  next
    case (Some u)
    then have steady: "steady R obs s" using same by (auto simp: steady_def)
    obtain rl ks where r: "scan_over R rl 0 (holdPrefix @ ''*'') 200 = Some ks"
      "\<forall>r \<in> set rl. \<exists>i rs now. obs i = Some (rs, now) \<and> r = rs 0" "holdKey s \<in> set ks \<Longrightarrow> map_of out s \<noteq> None"
      using scan_loop_kept [OF run [unfolded HeldSeats_def]] s steady unfolding kept_def by auto
    have "rd_get R r (holdKey s) \<noteq> None" if "r \<in> set rl" for r
      using r(2) that same Some by (fastforce simp: seat_holder_def)
    then have "holdKey s \<in> set ks" by (intro scan_full [OF plain_holdPrefix r(1)]) simp_all
    with r(3) entry show ?thesis by (cases "map_of out s") auto
  qed
qed

end

section \<open>Properties\<close>

text \<open>C24: whatever other clients do to Redis while the holds are scanned, the result has one entry per
  seat, and every entry tells of a hold that one of the round trips of the call really saw.\<close>

theorem scanned_holds_were_real:
  assumes "HeldSeats R obs = Some (Inr out)" and "map_of out s = Some st"
  shows "distinct_keys out \<and> st_SeatID st = s \<and> st_Status st = StatusHeld \<and>
    (\<exists>i rs now j k. obs i = Some (rs, now) \<and> seatIDFromKey k holdPrefix = (s, True) \<and>
       rd_get R (rs j) k = Some (st_HeldBy st))"
  using HeldSeats_entries [OF assms(1)] assms(2) by blast

theorem scanned_holds_were_real_witness:
  "\<exists>out st. HeldSeats mem_redis (\<lambda>i. Some (\<lambda>_. \<lparr>mm_keys = [(holdKey 1, ''ada'', Some 9)], mm_log = []\<rparr>, \<lambda>_. 0))
      = Some (Inr out) \<and> map_of out 1 = Some st \<and> st_SeatID st = 1"
proof -
  let ?m = "\<lparr>mm_keys = [(holdKey 1, ''ada'', Some 9)], mm_log = []\<rparr>"
  have held: "rd_get mem_redis ?m k = (if k = holdKey 1 then Some ''ada'' else None)" for k
    by (simp add: mem_redis_def mem_get_def)
  have "canonical_holds mem_redis ?m"
    unfolding canonical_holds_def held by (auto simp: int_range_def)
  note static = mem.HeldSeats_static [where obs = "\<lambda>i. Some (\<lambda>_. ?m, \<lambda>_. 0)" and clk = "\<lambda>_ _. 0", OF refl this]
  obtain out where out: "HeldSeats mem_redis (\<lambda>i. Some (\<lambda>_. ?m, \<lambda>_. 0)) = Some (Inr out)"
    "\<forall>s. int_range s \<longrightarrow> (case seat_holder mem_redis ?m s of None \<Rightarrow> map_of out s = None
       | Some u \<Rightarrow> \<exists>(i::nat) j::nat. map_of out s = held_entry mem_redis ?m 0 s)"
    by (rule exE [OF static]) (elim conjE, rule that)
  have h: "int_range 1" "seat_holder mem_redis ?m 1 = Some ''ada''"
    by (simp_all add: int_range_def seat_views mem_defs)
  then obtain st where "map_of out 1 = Some st"
    using spec [OF out(2), of 1] by (auto simp: held_entry_eq)
  with scanned_holds_were_real [OF out(1) this] out(1) show ?thesis by blast
qed

end
