(* ===== verification/Store.thy ===== *)
theory Store
  imports Model
begin

text \<open>
  \<open>backend/store/store.go\<close> and \<open>backend/db/schema.sql\<close>: the tables with their
  constraints, every SQL statement the backend issues, and the methods of \<open>Store\<close>. A table
  is the list of its rows in insertion order. The columns \<open>created_at\<close> and
  \<open>bookings.id\<close>, which no statement reads, are left out.
\<close>

section \<open>The tables\<close>

record event_row =
  Event_ID :: int
  Event_Slug :: string
  Event_Name :: string
  Event_Venue :: string
  Event_StartsAt :: int

record seat_row =
  sr_seat :: seat
  sr_event_id :: int

record booking_row =
  bk_seat_id :: int
  bk_event_id :: int
  bk_session_id :: session

text \<open>The serial columns draw from sequences, which a rollback does not reset.\<close>

record db =
  db_events :: "event_row list"
  db_seats :: "seat_row list"
  db_bookings :: "booking_row list"
  db_event_seq :: int
  db_seat_seq :: int

definition empty_db :: db where
  "empty_db = \<lparr>db_events = [], db_seats = [], db_bookings = [], db_event_seq = 1, db_seat_seq = 1\<rparr>"

definition int4 :: "int \<Rightarrow> bool" where
  "int4 n \<longleftrightarrow> - (2 ^ 31) \<le> n \<and> n < 2 ^ 31"

section \<open>Errors and connections\<close>

definition ErrNoRows :: go_error where "ErrNoRows = Err ''no rows in result set''"
definition pg_down :: go_error where "pg_down = Err ''postgres: connection failed''"
definition unique_violation :: go_error where "unique_violation = Err ''23505''"
definition foreign_key_violation :: go_error where "foreign_key_violation = Err ''23503''"
definition out_of_range :: go_error where "out_of_range = Err ''22003''"

lemmas pg_errors [store_defs] = ErrNoRows_def pg_down_def unique_violation_def
  foreign_key_violation_def out_of_range_def

text \<open>
  A statement that goes through, or a connection that fails; the flag tells whether the
  server had already applied the statement. pgx does not resend.
\<close>

datatype pg_net = Pg_ok | Pg_lost bool

text \<open>A statement returns an error or the new tables and at most one row.\<close>

type_synonym 'a stmt = "db \<Rightarrow> (go_error, db \<times> 'a option) result"

fun query_row :: "pg_net \<Rightarrow> 'a stmt \<Rightarrow> db \<Rightarrow> db \<times> (go_error, 'a) result" where
  "query_row Pg_ok q d =
     (case q d of
        Inl e \<Rightarrow> (d, Inl e)
      | Inr (d', None) \<Rightarrow> (d', Inl ErrNoRows)
      | Inr (d', Some a) \<Rightarrow> (d', Inr a))"
| "query_row (Pg_lost applied) q d =
     (if applied then (case q d of Inl e \<Rightarrow> d | Inr (d', _) \<Rightarrow> d') else d, Inl pg_down)"

text \<open>A query that only reads, for any number of rows.\<close>

fun pg_read :: "pg_net \<Rightarrow> (db \<Rightarrow> 'a) \<Rightarrow> db \<Rightarrow> (go_error, 'a) result" where
  "pg_read Pg_ok q d = Inr (q d)"
| "pg_read (Pg_lost applied) q d = Inl pg_down"

section \<open>Bookings\<close>

definition booking_row_of :: "db \<Rightarrow> seat_id \<Rightarrow> booking_row option" where
  "booking_row_of d seatID = find (\<lambda>b. bk_seat_id b = seatID) (db_bookings d)"

definition booking_owner :: "db \<Rightarrow> seat_id \<Rightarrow> session option" where
  "booking_owner d seatID = map_option bk_session_id (booking_row_of d seatID)"

text \<open>
  \<open>INSERT INTO bookings ... ON CONFLICT (seat_id) DO NOTHING RETURNING session_id\<close>:
  a row with this seat makes the statement return no row; otherwise the foreign keys decide.
\<close>

definition insert_booking :: "seat_id \<Rightarrow> int \<Rightarrow> session \<Rightarrow> session stmt" where
  "insert_booking seatID eventID sess d =
     (if \<not> int4 seatID \<or> \<not> int4 eventID then Inl out_of_range
      else if booking_row_of d seatID \<noteq> None then Inr (d, None)
      else if seatID \<notin> (seat_ID \<circ> sr_seat) ` set (db_seats d) then Inl foreign_key_violation
      else if eventID \<notin> Event_ID ` set (db_events d) then Inl foreign_key_violation
      else Inr (d\<lparr>db_bookings := db_bookings d @
             [\<lparr>bk_seat_id = seatID, bk_event_id = eventID, bk_session_id = sess\<rparr>]\<rparr>, Some sess))"

text \<open>\<open>SELECT session_id FROM bookings WHERE seat_id = $1\<close>\<close>

definition select_owner :: "seat_id \<Rightarrow> session stmt" where
  "select_owner seatID d =
     (if \<not> int4 seatID then Inl out_of_range else Inr (d, booking_owner d seatID))"

definition ConfirmBooking ::
  "pg_net \<Rightarrow> pg_net \<Rightarrow> int \<Rightarrow> seat_id \<Rightarrow> session \<Rightarrow> db \<Rightarrow> db \<times> (go_error, bool \<times> session) result" where
  "ConfirmBooking n1 n2 eventID seatID sess d =
     (case query_row n1 (insert_booking seatID eventID sess) d of
        (d1, Inr owner) \<Rightarrow> (d1, Inr (True, owner))
      | (d1, Inl e) \<Rightarrow>
          if error_is e ErrNoRows
          then (case query_row n2 (select_owner seatID) d1 of
                  (d2, Inl e') \<Rightarrow> (d2, Inl (Wrap ''read existing booking'' e'))
                | (d2, Inr owner) \<Rightarrow> (d2, Inr (False, owner)))
          else (d1, Inl (Wrap ''insert booking'' e)))"

definition BookingOwner ::
  "pg_net \<Rightarrow> seat_id \<Rightarrow> db \<Rightarrow> db \<times> (go_error, session \<times> bool) result" where
  "BookingOwner n seatID d =
     (case query_row n (select_owner seatID) d of
        (d', Inr owner) \<Rightarrow> (d', Inr (owner, True))
      | (d', Inl e) \<Rightarrow> if error_is e ErrNoRows then (d', Inr ([], False)) else (d', Inl e))"

text \<open>\<open>SELECT seat_id, session_id FROM bookings WHERE event_id = $1\<close>, row by row into a map.\<close>

definition event_bookings :: "int \<Rightarrow> db \<Rightarrow> booking_row list" where
  "event_bookings eventID d = filter (\<lambda>b. bk_event_id b = eventID) (db_bookings d)"

definition BookedSeats :: "pg_net \<Rightarrow> int \<Rightarrow> db \<Rightarrow> (go_error, (seat_id \<times> session) list) result" where
  "BookedSeats n eventID d = pg_read n (\<lambda>d. fold
     (\<lambda>b out. AList.update (bk_seat_id b) (bk_session_id b) out) (event_bookings eventID d) []) d"

text \<open>\<open>SELECT count(*), count(DISTINCT seat_id) FROM bookings WHERE event_id = $1\<close>\<close>

definition BookingStats :: "pg_net \<Rightarrow> int \<Rightarrow> db \<Rightarrow> (go_error, nat \<times> nat) result" where
  "BookingStats n eventID d = pg_read n (\<lambda>d.
     (length (event_bookings eventID d),
      length (remdups (map bk_seat_id (event_bookings eventID d))))) d"

section \<open>Seats and events\<close>

definition Seats :: "pg_net \<Rightarrow> int \<Rightarrow> db \<Rightarrow> (go_error, seat list) result" where
  "Seats n eventID d = pg_read n (\<lambda>d. sort_key seat_Position
     (map sr_seat (filter (\<lambda>s. sr_event_id s = eventID) (db_seats d)))) d"

text \<open>\<open>SELECT ... FROM events ORDER BY id LIMIT 1\<close>\<close>

definition PrimaryEvent :: "pg_net \<Rightarrow> db \<Rightarrow> db \<times> (go_error, event_row) result" where
  "PrimaryEvent n d = query_row n (\<lambda>d. Inr (d, case sort_key Event_ID (db_events d) of
     [] \<Rightarrow> None | e # _ \<Rightarrow> Some e)) d"

text \<open>The schema is created where it is missing; \<open>None\<close> is a database without the tables.\<close>

definition RunMigrations :: "pg_net \<Rightarrow> db option \<Rightarrow> db option \<times> (go_error, unit) result" where
  "RunMigrations n d =
     (let created = (case d of None \<Rightarrow> Some empty_db | Some d \<Rightarrow> Some d)
      in case n of
           Pg_ok \<Rightarrow> (created, Inr ())
         | Pg_lost applied \<Rightarrow> (if applied then created else d, Inl pg_down))"

section \<open>Well-formed tables\<close>

text \<open>What the constraints of the schema promise: keys, uniqueness, references.\<close>

definition wf_db :: "db \<Rightarrow> bool" where
  "wf_db d \<longleftrightarrow>
     distinct (map Event_ID (db_events d)) \<and> distinct (map Event_Slug (db_events d)) \<and>
     distinct (map (seat_ID \<circ> sr_seat) (db_seats d)) \<and>
     distinct (map (\<lambda>r. (sr_event_id r, seat_Section (sr_seat r), seat_RowLabel (sr_seat r),
                        seat_SeatNumber (sr_seat r))) (db_seats d)) \<and>
     distinct (map bk_seat_id (db_bookings d)) \<and>
     (\<forall>r \<in> set (db_seats d). sr_event_id r \<in> Event_ID ` set (db_events d)) \<and>
     (\<forall>b \<in> set (db_bookings d). bk_seat_id b \<in> (seat_ID \<circ> sr_seat) ` set (db_seats d) \<and>
        bk_event_id b \<in> Event_ID ` set (db_events d)) \<and>
     (\<forall>e \<in> set (db_events d). Event_ID e < db_event_seq d) \<and>
     (\<forall>r \<in> set (db_seats d). seat_ID (sr_seat r) < db_seat_seq d)"

lemma wf_empty_db [simp]: "wf_db empty_db"
  by (simp add: wf_db_def empty_db_def)

lemma booking_row_None: "booking_row_of d s = None \<longleftrightarrow> s \<notin> bk_seat_id ` set (db_bookings d)"
  by (simp add: booking_row_of_def find_None_map)

lemma booking_owner_None: "booking_owner d s = None \<longleftrightarrow> booking_row_of d s = None"
  by (simp add: booking_owner_def)

lemma booking_owner_bookings:
  "db_bookings d' = db_bookings d \<Longrightarrow> booking_owner d' s = booking_owner d s"
  by (simp add: booking_owner_def booking_row_of_def)

lemma booking_owner_append:
  "booking_owner (d\<lparr>db_bookings := db_bookings d @ [b]\<rparr>) s =
     (case booking_owner d s of
        Some u \<Rightarrow> Some u
      | None \<Rightarrow> if bk_seat_id b = s then Some (bk_session_id b) else None)"
  by (simp add: booking_owner_def booking_row_of_def find_append split: option.splits)

lemma booking_owner_in:
  "distinct (map bk_seat_id (db_bookings d)) \<Longrightarrow> b \<in> set (db_bookings d) \<Longrightarrow>
   booking_owner d (bk_seat_id b) = Some (bk_session_id b)"
  by (simp add: booking_owner_def booking_row_of_def find_distinct)

section \<open>What the booking statements do\<close>

definition insertable :: "db \<Rightarrow> seat_id \<Rightarrow> int \<Rightarrow> bool" where
  "insertable d seatID eventID \<longleftrightarrow> int4 seatID \<and> int4 eventID \<and>
     seatID \<in> (seat_ID \<circ> sr_seat) ` set (db_seats d) \<and> eventID \<in> Event_ID ` set (db_events d)"

lemma insert_booking_cases:
  assumes "insert_booking s e u d = Inr (d', row)"
  shows "(row = None \<and> d' = d \<and> booking_owner d s \<noteq> None) \<or>
     (row = Some u \<and> booking_owner d s = None \<and> insertable d s e \<and>
      d' = d\<lparr>db_bookings := db_bookings d @
        [\<lparr>bk_seat_id = s, bk_event_id = e, bk_session_id = u\<rparr>]\<rparr>)"
  using assms
  by (auto simp: insert_booking_def insertable_def booking_owner_def split: if_splits)

lemma wf_insert_booking:
  assumes "wf_db d" and "insert_booking s e u d = Inr (d', row)"
  shows "wf_db d'"
proof (cases "row = None")
  case True
  with insert_booking_cases [OF assms(2)] assms(1) show ?thesis by auto
next
  case False
  with insert_booking_cases [OF assms(2)] have
    d': "d' = d\<lparr>db_bookings := db_bookings d @
        [\<lparr>bk_seat_id = s, bk_event_id = e, bk_session_id = u\<rparr>]\<rparr>"
    and fresh: "s \<notin> bk_seat_id ` set (db_bookings d)" and ins: "insertable d s e"
    by (auto simp: booking_owner_None booking_row_None)
  with assms(1) show ?thesis by (auto simp: wf_db_def insertable_def)
qed

text \<open>The tables a call can leave behind: unchanged, or with the one row it inserts.\<close>

definition db_step :: "seat_id \<Rightarrow> int \<Rightarrow> session \<Rightarrow> db \<Rightarrow> db \<Rightarrow> bool" where
  "db_step s e u d d' \<longleftrightarrow> d' = d \<or> (booking_owner d s = None \<and> insertable d s e \<and>
     d' = d\<lparr>db_bookings := db_bookings d @
        [\<lparr>bk_seat_id = s, bk_event_id = e, bk_session_id = u\<rparr>]\<rparr>)"

lemma db_step_refl [simp]: "db_step s e u d d"
  by (simp add: db_step_def)

lemma db_step_wf: "db_step s e u d d' \<Longrightarrow> wf_db d \<Longrightarrow> wf_db d'"
proof (cases "d' = d")
  case False
  assume "db_step s e u d d'" and w: "wf_db d"
  with False have "insert_booking s e u d = Inr (d', Some u)"
    by (auto simp: db_step_def insert_booking_def insertable_def booking_owner_None)
  with w show ?thesis by (rule wf_insert_booking)
qed simp

lemma db_step_owner:
  "db_step s e u d d' \<Longrightarrow> booking_owner d x = Some v \<Longrightarrow> booking_owner d' x = Some v"
  by (auto simp: db_step_def booking_owner_append)

lemma db_step_other: "db_step s e u d d' \<Longrightarrow> x \<noteq> s \<Longrightarrow> booking_owner d' x = booking_owner d x"
  by (auto simp: db_step_def booking_owner_append split: option.splits)

lemma db_step_new:
  "db_step s e u d d' \<Longrightarrow> booking_owner d x = None \<Longrightarrow> booking_owner d' x = Some v \<Longrightarrow> x = s \<and> v = u"
  by (auto simp: db_step_def booking_owner_append split: if_splits)

lemma insert_query_step: "db_step s e u d (fst (query_row n (insert_booking s e u) d))"
proof (cases n)
  case Pg_ok
  then show ?thesis
    by (auto simp: db_step_def split: sum.splits prod.splits option.splits
        dest!: insert_booking_cases)
next
  case (Pg_lost applied)
  then show ?thesis
    by (auto simp: db_step_def split: sum.splits prod.splits dest!: insert_booking_cases)
qed

lemma select_query_state [simp]: "fst (query_row n (select_owner s) d) = d"
  by (cases n) (auto simp: select_owner_def split: sum.splits option.splits prod.splits)

lemma select_queryD: "query_row n (select_owner s) d = (d', res) \<Longrightarrow> d' = d"
  by (metis fst_conv select_query_state)

lemma ConfirmBooking_step: "db_step s e u d (fst (ConfirmBooking n1 n2 e s u d))"
proof -
  obtain d1 res where q: "query_row n1 (insert_booking s e u) d = (d1, res)"
    by (cases "query_row n1 (insert_booking s e u) d")
  then have "db_step s e u d d1" using insert_query_step [of s e u d n1] by simp
  then show ?thesis
    by (auto simp: ConfirmBooking_def q split: sum.splits prod.splits dest!: select_queryD)
qed

lemma ErrNoRows_is [simp]:
  "error_is ErrNoRows ErrNoRows" "\<not> error_is pg_down ErrNoRows"
  "\<not> error_is out_of_range ErrNoRows" "\<not> error_is foreign_key_violation ErrNoRows"
  "\<not> error_is unique_violation ErrNoRows"
  by (simp_all add: store_defs)

lemma ConfirmBooking_taken:
  "int4 s \<Longrightarrow> int4 e \<Longrightarrow> booking_owner d s = Some v \<Longrightarrow>
   ConfirmBooking Pg_ok Pg_ok e s u d = (d, Inr (False, v))"
  by (simp add: ConfirmBooking_def insert_booking_def booking_owner_def select_owner_def)
    (auto simp: booking_owner_def)

lemma ConfirmBooking_free:
  "insertable d s e \<Longrightarrow> booking_owner d s = None \<Longrightarrow>
   ConfirmBooking Pg_ok n e s u d = (d\<lparr>db_bookings := db_bookings d @
        [\<lparr>bk_seat_id = s, bk_event_id = e, bk_session_id = u\<rparr>]\<rparr>, Inr (True, u))"
  by (simp add: ConfirmBooking_def insert_booking_def booking_owner_None insertable_def)

lemma ConfirmBooking_InrD:
  assumes "ConfirmBooking n1 n2 e s u d = (d', Inr (ins, v))"
  shows "booking_owner d' s = Some v" "ins \<Longrightarrow> v = u \<and> booking_owner d s = None"
    "\<not> ins \<Longrightarrow> d' = d"
  using assms
  by (cases n1; cases n2;
      auto simp: ConfirmBooking_def select_owner_def booking_owner_append
        split: sum.splits prod.splits option.splits if_splits dest!: insert_booking_cases)+

lemma BookingOwner_state [simp]: "fst (BookingOwner n s d) = d"
  by (auto simp: BookingOwner_def split: prod.splits sum.splits dest!: select_queryD)

lemma BookingOwnerD: "BookingOwner n s d = (d', res) \<Longrightarrow> d' = d"
  by (metis fst_conv BookingOwner_state)

lemma BookingOwner_ok:
  "int4 s \<Longrightarrow> BookingOwner Pg_ok s d = (d, Inr (case booking_owner d s of
     None \<Rightarrow> ([], False) | Some u \<Rightarrow> (u, True)))"
  by (simp add: BookingOwner_def select_owner_def split: option.splits)

lemma BookingOwner_InrD:
  "BookingOwner n s d = (d', Inr (u, found)) \<Longrightarrow>
   d' = d \<and> (found \<longleftrightarrow> booking_owner d s \<noteq> None) \<and> (found \<longrightarrow> booking_owner d s = Some u)"
  by (cases n) (auto simp: BookingOwner_def select_owner_def
      split: option.splits if_splits)

section \<open>Reading the bookings back\<close>

lemma event_bookings_distinct:
  "wf_db d \<Longrightarrow> distinct (map bk_seat_id (event_bookings e d))"
  by (auto simp: wf_db_def event_bookings_def distinct_map intro: inj_on_subset)

text \<open>Every booking the service writes carries its own event.\<close>

definition only_event :: "int \<Rightarrow> db \<Rightarrow> bool" where
  "only_event e d \<longleftrightarrow> (\<forall>b \<in> set (db_bookings d). bk_event_id b = e)"

lemma only_event_step: "db_step s e u d d' \<Longrightarrow> only_event e d \<Longrightarrow> only_event e d'"
  by (auto simp: db_step_def only_event_def)

lemma only_event_filter: "only_event e d \<Longrightarrow> event_bookings e d = db_bookings d"
  by (simp add: only_event_def event_bookings_def)

lemma BookedSeats_lookup:
  assumes "wf_db d" and "BookedSeats n e d = Inr booked"
  shows "distinct_keys booked"
    and "map_of booked s = map_option bk_session_id
           (find (\<lambda>b. bk_seat_id b = s) (event_bookings e d))"
  using assms event_bookings_distinct [OF assms(1), of e]
  by (cases n; auto simp: BookedSeats_def fold_update_lookup split: option.splits)+

lemma BookedSeats_owner:
  "wf_db d \<Longrightarrow> only_event e d \<Longrightarrow> BookedSeats n e d = Inr booked \<Longrightarrow>
   map_of booked s = booking_owner d s"
  by (simp add: BookedSeats_lookup only_event_filter booking_owner_def booking_row_of_def)

lemma BookingStats_equal:
  "wf_db d \<Longrightarrow> BookingStats n e d = Inr (cnt, uniq) \<Longrightarrow> cnt = uniq"
  using event_bookings_distinct [of d e]
  by (cases n) (auto simp: BookingStats_def distinct_remdups_id)

section \<open>The booking table as a write-once register\<close>

text \<open>
  The contract the booking service relies on: an entry, once there, is never changed by any
  later write, and a write to a free entry stores its own value or nothing.
\<close>

locale write_once =
  fixes entry :: "'d \<Rightarrow> 'k \<Rightarrow> 'v option"
    and put :: "'k \<Rightarrow> 'v \<Rightarrow> 'd \<Rightarrow> 'd"
  assumes put_keeps: "entry d k = Some v \<Longrightarrow> entry (put k' v' d) k = Some v"
    and put_new: "entry d k = None \<Longrightarrow> entry (put k' v' d) k = Some v \<Longrightarrow> k = k' \<and> v = v'"
begin

lemma fold_keeps: "entry d k = Some v \<Longrightarrow> entry (fold (\<lambda>(k, v). put k v) ops d) k = Some v"
  by (induction ops arbitrary: d) (auto simp: put_keeps)

lemma fold_new:
  "entry d k = None \<Longrightarrow> entry (fold (\<lambda>(k, v). put k v) ops d) k = Some v \<Longrightarrow> (k, v) \<in> set ops"
proof (induction ops arbitrary: d)
  case Nil
  then show ?case by simp
next
  case (Cons op ops)
  obtain k' v' where op: "op = (k', v')" by (cases op)
  show ?case
  proof (cases "entry (put k' v' d) k")
    case None
    with Cons op show ?thesis by simp
  next
    case (Some w)
    with Cons.prems(1) have "k = k'" "w = v'" by (auto dest: put_new)
    moreover have "v = w"
      using fold_keeps [OF Some, of ops] Cons.prems(2) op by simp
    ultimately show ?thesis using op by simp
  qed
qed

text \<open>The order of writers decides once: what a prefix of the writes stored, the rest keeps.\<close>

lemma fold_stable:
  "entry (fold (\<lambda>(k, v). put k v) ops d) k = Some v \<Longrightarrow>
   entry (fold (\<lambda>(k, v). put k v) (ops @ ops') d) k = Some v"
  by (simp add: fold_keeps)

end

interpretation bookings: write_once booking_owner
  "\<lambda>s u d. fst (ConfirmBooking n1 n2 e s u d)" for n1 n2 e
  by unfold_locales
    (blast intro: db_step_owner [OF ConfirmBooking_step], blast dest: db_step_new [OF ConfirmBooking_step])

end
