(* ===== verification/Seed.thy ===== *)
theory Seed
  imports Store
begin

text \<open>
  \<open>backend/store/seed.go\<close>: the venue and \<open>SeedIfEmpty\<close>, which fills an empty database in one
  transaction. The three nested loops are three recursive functions that thread the running
  position and the tables; an error leaves all of them at once, as the early return does.
\<close>

record sectionSpec =
  sec_name :: string
  sec_rows :: "string list"
  sec_seatsPer :: nat
  sec_priceCents :: int

definition venue :: "sectionSpec list" where
  "venue =
    [\<lparr>sec_name = ''Pit'', sec_rows = [''A'', ''B''], sec_seatsPer = 12, sec_priceCents = 18000\<rparr>,
     \<lparr>sec_name = ''Orchestra'', sec_rows = [''A'', ''B'', ''C'', ''D'', ''E'', ''F''],
      sec_seatsPer = 18, sec_priceCents = 12500\<rparr>,
     \<lparr>sec_name = ''Mezzanine'', sec_rows = [''A'', ''B'', ''C'', ''D'', ''E''],
      sec_seatsPer = 20, sec_priceCents = 8500\<rparr>,
     \<lparr>sec_name = ''Balcony'', sec_rows = [''A'', ''B'', ''C'', ''D''],
      sec_seatsPer = 22, sec_priceCents = 5500\<rparr>]"

text \<open>The title of the event; the dash is three bytes of UTF-8.\<close>

definition event_title :: string where
  "event_title = ''Aurora '' @ [CHR 0xE2, CHR 0x80, CHR 0x94] @ '' Live in Concert''"

section \<open>The statements\<close>

text \<open>A serial column takes the next value of its sequence, within the range of \<open>INTEGER\<close>.\<close>

definition insert_event :: "string \<Rightarrow> string \<Rightarrow> string \<Rightarrow> int \<Rightarrow> int stmt" where
  "insert_event slug name ven startsAt d =
     (if \<not> int4 (db_event_seq d) then Inl out_of_range
      else if slug \<in> Event_Slug ` set (db_events d) then Inl unique_violation
      else Inr (d\<lparr>db_events := db_events d @
             [\<lparr>Event_ID = db_event_seq d, Event_Slug = slug, Event_Name = name,
               Event_Venue = ven, Event_StartsAt = startsAt\<rparr>],
           db_event_seq := db_event_seq d + 1\<rparr>, Some (db_event_seq d)))"

definition seat_key :: "seat_row \<Rightarrow> int \<times> string \<times> string \<times> int" where
  "seat_key r = (sr_event_id r, seat_Section (sr_seat r), seat_RowLabel (sr_seat r),
     seat_SeatNumber (sr_seat r))"

definition insert_seat :: "int \<Rightarrow> string \<Rightarrow> string \<Rightarrow> int \<Rightarrow> int \<Rightarrow> int \<Rightarrow> unit stmt" where
  "insert_seat eventID sec row num price pos d =
     (if \<not> int4 (db_seat_seq d) \<or> \<not> int4 num \<or> \<not> int4 price \<or> \<not> int4 pos then Inl out_of_range
      else if (eventID, sec, row, num) \<in> seat_key ` set (db_seats d) then Inl unique_violation
      else if eventID \<notin> Event_ID ` set (db_events d) then Inl foreign_key_violation
      else Inr (d\<lparr>db_seats := db_seats d @
             [\<lparr>sr_seat = \<lparr>seat_ID = db_seat_seq d, seat_Section = sec, seat_RowLabel = row,
                seat_SeatNumber = num, seat_PriceCents = price, seat_Position = pos\<rparr>,
               sr_event_id = eventID\<rparr>],
           db_seat_seq := db_seat_seq d + 1\<rparr>, Some ()))"

section \<open>The loops\<close>

text \<open>
  \<open>nets pos\<close> is what the connection does to the insert at position \<open>pos\<close>. The result is
  the position reached with the tables, or the error with the tables at that moment.
\<close>

type_synonym seed_result = "(go_error \<times> db, int \<times> db) result"

fun seed_seats ::
  "(int \<Rightarrow> pg_net) \<Rightarrow> int \<Rightarrow> sectionSpec \<Rightarrow> string \<Rightarrow> nat \<Rightarrow> int \<Rightarrow> int \<Rightarrow> db \<Rightarrow> seed_result" where
  "seed_seats nets eventID sec row 0 n pos d = Inr (pos, d)"
| "seed_seats nets eventID sec row (Suc left) n pos d =
     (case query_row (nets (pos + 1))
             (insert_seat eventID (sec_name sec) row n (sec_priceCents sec) (pos + 1)) d of
        (d', Inl e) \<Rightarrow> Inl (Wrap ''seed seat'' e, d')
      | (d', Inr _) \<Rightarrow> seed_seats nets eventID sec row left (n + 1) (pos + 1) d')"

fun seed_rows ::
  "(int \<Rightarrow> pg_net) \<Rightarrow> int \<Rightarrow> sectionSpec \<Rightarrow> string list \<Rightarrow> int \<Rightarrow> db \<Rightarrow> seed_result" where
  "seed_rows nets eventID sec [] pos d = Inr (pos, d)"
| "seed_rows nets eventID sec (row # rows) pos d =
     (case seed_seats nets eventID sec row (sec_seatsPer sec) 1 pos d of
        Inl e \<Rightarrow> Inl e
      | Inr (pos', d') \<Rightarrow> seed_rows nets eventID sec rows pos' d')"

fun seed_sections ::
  "(int \<Rightarrow> pg_net) \<Rightarrow> int \<Rightarrow> sectionSpec list \<Rightarrow> int \<Rightarrow> db \<Rightarrow> seed_result" where
  "seed_sections nets eventID [] pos d = Inr (pos, d)"
| "seed_sections nets eventID (sec # secs) pos d =
     (case seed_rows nets eventID sec (sec_rows sec) pos d of
        Inl e \<Rightarrow> Inl e
      | Inr (pos', d') \<Rightarrow> seed_sections nets eventID secs pos' d')"

section \<open>SeedIfEmpty\<close>

text \<open>Leaving a transaction without commit keeps the sequences and drops the rows.\<close>

definition rollback :: "db \<Rightarrow> db \<Rightarrow> db" where
  "rollback before after = before\<lparr>db_event_seq := db_event_seq after, db_seat_seq := db_seat_seq after\<rparr>"

text \<open>The connection at each statement of a call; \<open>sn_event_read\<close> is for the early return.\<close>

record seed_nets =
  sn_count :: pg_net
  sn_event_read :: pg_net
  sn_begin :: pg_net
  sn_event :: pg_net
  sn_seat :: "int \<Rightarrow> pg_net"
  sn_commit :: pg_net

definition SeedIfEmpty :: "seed_nets \<Rightarrow> int \<Rightarrow> db \<Rightarrow> db \<times> (go_error, int) result" where
  "SeedIfEmpty nets now d =
     (case pg_read (sn_count nets) (\<lambda>d. length (db_events d)) d of
        Inl e \<Rightarrow> (d, Inl e)
      | Inr cnt \<Rightarrow>
          if 0 < cnt then (case PrimaryEvent (sn_event_read nets) d of
               (d', Inl e) \<Rightarrow> (d', Inl e) | (d', Inr ev) \<Rightarrow> (d', Inr (Event_ID ev)))
          else case sn_begin nets of
            Pg_lost _ \<Rightarrow> (d, Inl pg_down)
          | Pg_ok \<Rightarrow>
              (case query_row (sn_event nets) (insert_event ''aurora-live''
                      event_title ''GrabSeat Arena'' (now + 21 * 24 * 3600 * 1000000000)) d of
                 (d1, Inl e) \<Rightarrow> (rollback d d1, Inl (Wrap ''seed event'' e))
               | (d1, Inr eventID) \<Rightarrow>
                   (case seed_sections (sn_seat nets) eventID venue 0 d1 of
                      Inl (e, d2) \<Rightarrow> (rollback d d2, Inl e)
                    | Inr (pos, d2) \<Rightarrow>
                        (case sn_commit nets of
                           Pg_ok \<Rightarrow> (d2, Inr eventID)
                         | Pg_lost applied \<Rightarrow>
                             (if applied then d2 else rollback d d2, Inl pg_down)))))"

section \<open>The loop nest as one loop\<close>

type_synonym slot = "string \<times> string \<times> int \<times> int"

definition row_slots :: "sectionSpec \<Rightarrow> string \<Rightarrow> nat \<Rightarrow> int \<Rightarrow> slot list" where
  "row_slots sec row k n = map (\<lambda>i. (sec_name sec, row, n + int i, sec_priceCents sec)) [0..<k]"

definition sec_slots :: "sectionSpec \<Rightarrow> string list \<Rightarrow> slot list" where
  "sec_slots sec rows = concat (map (\<lambda>row. row_slots sec row (sec_seatsPer sec) 1) rows)"

definition slots :: "sectionSpec list \<Rightarrow> slot list" where
  "slots secs = concat (map (\<lambda>sec. sec_slots sec (sec_rows sec)) secs)"

fun insert_slots :: "(int \<Rightarrow> pg_net) \<Rightarrow> int \<Rightarrow> slot list \<Rightarrow> int \<Rightarrow> db \<Rightarrow> seed_result" where
  "insert_slots nets e [] pos d = Inr (pos, d)"
| "insert_slots nets e ((sec, row, n, price) # sl) pos d =
     (case query_row (nets (pos + 1)) (insert_seat e sec row n price (pos + 1)) d of
        (d', Inl err) \<Rightarrow> Inl (Wrap ''seed seat'' err, d')
      | (d', Inr _) \<Rightarrow> insert_slots nets e sl (pos + 1) d')"

lemma insert_slots_append:
  "insert_slots nets e (xs @ ys) pos d =
     (case insert_slots nets e xs pos d of Inl err \<Rightarrow> Inl err
      | Inr (pos', d') \<Rightarrow> insert_slots nets e ys pos' d')"
  by (induction nets e xs pos d rule: insert_slots.induct)
    (auto split: sum.splits prod.splits)

lemma row_slots_Suc:
  "row_slots sec row (Suc k) n = (sec_name sec, row, n, sec_priceCents sec) # row_slots sec row k (n + 1)"
  by (simp add: row_slots_def map_upt_Suc ac_simps del: upt_Suc)

lemma seed_seats_slots:
  "seed_seats nets e sec row k n pos d = insert_slots nets e (row_slots sec row k n) pos d"
  by (induction nets e sec row k n pos d rule: seed_seats.induct)
    (auto simp: row_slots_Suc row_slots_def [of _ _ 0] split: sum.splits prod.splits)

lemma seed_rows_slots: "seed_rows nets e sec rows pos d = insert_slots nets e (sec_slots sec rows) pos d"
  by (induction nets e sec rows pos d rule: seed_rows.induct)
    (auto simp: sec_slots_def seed_seats_slots insert_slots_append split: sum.splits prod.splits)

lemma seed_sections_slots:
  "seed_sections nets e secs pos d = insert_slots nets e (slots secs) pos d"
  by (induction nets e secs pos d rule: seed_sections.induct)
    (auto simp: slots_def seed_rows_slots insert_slots_append split: sum.splits prod.splits)

section \<open>What the loop leaves behind\<close>

text \<open>The rows a completed loop has added: consecutive ids and positions, in slot order.\<close>

fun mk_rows :: "int \<Rightarrow> int \<Rightarrow> int \<Rightarrow> slot list \<Rightarrow> seat_row list" where
  "mk_rows e pos sid [] = []"
| "mk_rows e pos sid ((sec, row, n, price) # sl) =
     \<lparr>sr_seat = \<lparr>seat_ID = sid, seat_Section = sec, seat_RowLabel = row, seat_SeatNumber = n,
        seat_PriceCents = price, seat_Position = pos + 1\<rparr>, sr_event_id = e\<rparr>
     # mk_rows e (pos + 1) (sid + 1) sl"

lemma insert_seat_SomeD:
  "query_row net (insert_seat e sec row n price pos) d = (d', Inr u) \<Longrightarrow>
   d' = d\<lparr>db_seats := db_seats d @ [\<lparr>sr_seat = \<lparr>seat_ID = db_seat_seq d, seat_Section = sec,
       seat_RowLabel = row, seat_SeatNumber = n, seat_PriceCents = price, seat_Position = pos\<rparr>,
       sr_event_id = e\<rparr>], db_seat_seq := db_seat_seq d + 1\<rparr>"
  by (cases net) (auto simp: insert_seat_def split: if_splits)

lemma insert_slots_rows:
  "insert_slots nets e sl pos d = Inr (pos', d') \<Longrightarrow>
   pos' = pos + int (length sl) \<and>
   d' = d\<lparr>db_seats := db_seats d @ mk_rows e pos (db_seat_seq d) sl,
          db_seat_seq := db_seat_seq d + int (length sl)\<rparr>"
proof (induction nets e sl pos d rule: insert_slots.induct)
  case (1 nets e pos d)
  then show ?case by simp
next
  case (2 nets e sec row n price sl pos d)
  from "2.prems" obtain d1 u where q:
    "query_row (nets (pos + 1)) (insert_seat e sec row n price (pos + 1)) d = (d1, Inr u)"
    by (auto split: prod.splits sum.splits)
  with "2.prems" have "insert_slots nets e sl (pos + 1) d1 = Inr (pos', d')" by simp
  from "2.IH" [OF q [symmetric] refl this] insert_seat_SomeD [OF q] show ?case by simp
qed

text \<open>With a working connection the loop completes when no slot is taken and the ranges suffice.\<close>

definition slot_key :: "int \<Rightarrow> slot \<Rightarrow> int \<times> string \<times> string \<times> int" where
  "slot_key e sl = (e, fst sl, fst (snd sl), fst (snd (snd sl)))"

lemma seat_key_mk_rows: "map seat_key (mk_rows e pos sid sl) = map (slot_key e) sl"
  by (induction e pos sid sl rule: mk_rows.induct) (auto simp: seat_key_def slot_key_def)

lemma insert_slots_complete:
  assumes "distinct (map (slot_key e) sl)"
    and "slot_key e ` set sl \<inter> seat_key ` set (db_seats d) = {}"
    and "e \<in> Event_ID ` set (db_events d)"
    and "\<forall>(sec, row, n, price) \<in> set sl. int4 n \<and> int4 price"
    and "0 \<le> pos" "pos + int (length sl) < 2 ^ 31"
    and "0 \<le> db_seat_seq d" "db_seat_seq d + int (length sl) \<le> 2 ^ 31"
  shows "\<exists>d'. insert_slots (\<lambda>_. Pg_ok) e sl pos d = Inr (pos + int (length sl), d')"
  using assms
proof (induction sl arbitrary: pos d)
  case Nil
  then show ?case by simp
next
  case (Cons x sl)
  obtain sec row n price where x: "x = (sec, row, n, price)" by (cases x)
  define d1 where "d1 = d\<lparr>db_seats := db_seats d @ [\<lparr>sr_seat = \<lparr>seat_ID = db_seat_seq d,
       seat_Section = sec, seat_RowLabel = row, seat_SeatNumber = n, seat_PriceCents = price,
       seat_Position = pos + 1\<rparr>, sr_event_id = e\<rparr>], db_seat_seq := db_seat_seq d + 1\<rparr>"
  have "(e, sec, row, n) \<notin> seat_key ` set (db_seats d)"
    using Cons.prems(2) x by (auto simp: slot_key_def)
  then have q: "query_row Pg_ok (insert_seat e sec row n price (pos + 1)) d = (d1, Inr ())"
    using Cons.prems x by (auto simp: insert_seat_def int4_def d1_def)
  have "\<exists>d'. insert_slots (\<lambda>_. Pg_ok) e sl (pos + 1) d1 = Inr (pos + 1 + int (length sl), d')"
  proof (rule Cons.IH)
    show "slot_key e ` set sl \<inter> seat_key ` set (db_seats d1) = {}"
      using Cons.prems(1,2) x by (auto simp: d1_def seat_key_def slot_key_def)
  qed (use Cons.prems in \<open>auto simp: d1_def\<close>)
  with q x show ?case by (auto simp: ac_simps)
qed

section \<open>The venue\<close>

lemma length_slots:
  "length (slots secs) = sum_list (map (\<lambda>sec. length (sec_rows sec) * sec_seatsPer sec) secs)"
proof -
  have "length (sec_slots sec rows) = length rows * sec_seatsPer sec" for sec rows
    by (induction rows) (auto simp: sec_slots_def row_slots_def)
  then show ?thesis by (induction secs) (auto simp: slots_def)
qed

lemma venue_size: "length (slots venue) = 320"
  by (simp add: length_slots venue_def)

lemma in_row_slots: "x \<in> set (row_slots sec row k n) \<Longrightarrow>
    fst x = sec_name sec \<and> fst (snd x) = row \<and> n \<le> fst (snd (snd x))
    \<and> fst (snd (snd x)) < n + int k \<and> snd (snd (snd x)) = sec_priceCents sec"
  by (auto simp: row_slots_def)

lemma in_sec_slots: "x \<in> set (sec_slots sec rows) \<Longrightarrow>
    fst x = sec_name sec \<and> fst (snd x) \<in> set rows \<and> 1 \<le> fst (snd (snd x))
    \<and> fst (snd (snd x)) \<le> int (sec_seatsPer sec) \<and> snd (snd (snd x)) = sec_priceCents sec"
  by (auto simp: sec_slots_def dest!: in_row_slots)

lemma distinct_sec_slots:
  "distinct rows \<Longrightarrow> distinct (map (slot_key e) (sec_slots sec rows))"
proof (induction rows)
  case Nil
  then show ?case by (simp add: sec_slots_def)
next
  case (Cons row rows)
  have "distinct (map (slot_key e) (row_slots sec row k n))" for k n
    by (auto simp: row_slots_def slot_key_def distinct_map inj_on_def)
  moreover have "sec_slots sec (row # rows) = row_slots sec row (sec_seatsPer sec) 1 @ sec_slots sec rows"
    by (simp add: sec_slots_def)
  moreover have "slot_key e ` set (row_slots sec row k n) \<inter> slot_key e ` set (sec_slots sec rows) = {}"
    for k n
    using Cons.prems by (auto simp: slot_key_def dest!: in_row_slots in_sec_slots)
  ultimately show ?case
    using Cons by simp
qed

lemma distinct_slots:
  "distinct (map sec_name secs) \<Longrightarrow> \<forall>sec \<in> set secs. distinct (sec_rows sec) \<Longrightarrow>
   distinct (map (slot_key e) (slots secs))"
proof (induction secs)
  case Nil
  then show ?case by (simp add: slots_def)
next
  case (Cons sec secs)
  have "slots (sec # secs) = sec_slots sec (sec_rows sec) @ slots secs"
    by (simp add: slots_def)
  moreover have name: "fst x \<in> sec_name ` set secs" if "x \<in> set (slots secs)" for x
    using that by (auto simp: slots_def dest!: in_sec_slots)
  have "slot_key e ` set (sec_slots sec (sec_rows sec)) \<inter> slot_key e ` set (slots secs) = {}"
    using Cons.prems(1) by (auto simp: slot_key_def dest!: in_sec_slots name)
  ultimately show ?case
    using Cons by (simp add: distinct_sec_slots)
qed

lemma venue_keys: "distinct (map (slot_key e) (slots venue))"
  by (rule distinct_slots) (auto simp: venue_def)

lemma venue_ranges: "\<forall>(sec, row, n, price) \<in> set (slots venue). int4 n \<and> int4 price"
proof -
  have "x \<in> set (slots venue) \<Longrightarrow> int4 (fst (snd (snd x))) \<and> int4 (snd (snd (snd x)))" for x
    by (auto simp: slots_def venue_def int4_def dest!: in_sec_slots)
  then show ?thesis by fastforce
qed

section \<open>What SeedIfEmpty leaves behind\<close>

text \<open>
  The event with the complete venue, given the values the sequences had: what a committed call
  makes of an empty database.
\<close>

definition seeded :: "int \<Rightarrow> int \<Rightarrow> int \<Rightarrow> db \<Rightarrow> db" where
  "seeded now eid sid d = d\<lparr>
     db_events := [\<lparr>Event_ID = eid, Event_Slug = ''aurora-live'', Event_Name = event_title,
        Event_Venue = ''GrabSeat Arena'', Event_StartsAt = now + 21 * 24 * 3600 * 1000000000\<rparr>],
     db_seats := mk_rows eid 0 sid (slots venue),
     db_event_seq := eid + 1, db_seat_seq := sid + 320\<rparr>"

lemma wf_no_events:
  "wf_db d \<Longrightarrow> db_events d = [] \<Longrightarrow> db_seats d = [] \<and> db_bookings d = []"
  by (cases "db_seats d"; cases "db_bookings d") (auto simp: wf_db_def)

lemma insert_event_SomeD:
  "query_row net (insert_event slug name ven start) d = (d', Inr eid) \<Longrightarrow>
   eid = db_event_seq d \<and> d' = d\<lparr>db_events := db_events d @ [\<lparr>Event_ID = db_event_seq d,
     Event_Slug = slug, Event_Name = name, Event_Venue = ven, Event_StartsAt = start\<rparr>],
     db_event_seq := db_event_seq d + 1\<rparr>"
  by (cases net) (auto simp: insert_event_def split: if_splits)

text \<open>All or nothing: under any faults the rows are either those from before or the whole venue.\<close>

lemma seed_transaction:
  assumes "db_events d = []" "wf_db d" "SeedIfEmpty nets now d = (d', res)"
  shows "(db_events d' = [] \<and> db_seats d' = [] \<and> (\<exists>e. res = Inl e)) \<or>
     (d' = seeded now (db_event_seq d) (db_seat_seq d) d \<and>
      (res = Inr (db_event_seq d) \<or> (\<exists>e. res = Inl e)))"
proof -
  note empty = wf_no_events [OF assms(2,1)]
  show ?thesis
  proof (cases "sn_count nets = Pg_ok \<and> sn_begin nets = Pg_ok")
    case False
    with assms empty show ?thesis
      by (cases "sn_count nets"; cases "sn_begin nets") (auto simp: SeedIfEmpty_def)
  next
    case True
    obtain d1 r1 where q: "query_row (sn_event nets) (insert_event ''aurora-live'' event_title
        ''GrabSeat Arena'' (now + 21 * 24 * 3600 * 1000000000)) d = (d1, r1)"
      by fastforce
    show ?thesis
    proof (cases r1)
      case (Inl e)
      with True q assms empty show ?thesis by (auto simp: SeedIfEmpty_def rollback_def)
    next
      case (Inr eid)
      note d1 = insert_event_SomeD [OF q [unfolded Inr]]
      show ?thesis
      proof (cases "seed_sections (sn_seat nets) eid venue 0 d1")
        case (Inl e)
        with True q Inr assms empty show ?thesis
          by (cases e) (auto simp: SeedIfEmpty_def rollback_def)
      next
        case seats: (Inr p)
        obtain pos d2 where p: "p = (pos, d2)" by (cases p)
        have "d2 = seeded now (db_event_seq d) (db_seat_seq d) d"
          using insert_slots_rows [OF seats [unfolded p seed_sections_slots]] d1 assms(1) empty
          by (simp add: seeded_def venue_size)
        with True q Inr seats p d1 assms empty show ?thesis
          by (cases "sn_commit nets") (auto simp: SeedIfEmpty_def rollback_def)
      qed
    qed
  qed
qed

definition all_ok :: seed_nets where
  "all_ok = \<lparr>sn_count = Pg_ok, sn_event_read = Pg_ok, sn_begin = Pg_ok, sn_event = Pg_ok,
     sn_seat = (\<lambda>_. Pg_ok), sn_commit = Pg_ok\<rparr>"

text \<open>The ranges of the serial columns leave room for one more event and its seats.\<close>

definition room :: "db \<Rightarrow> bool" where
  "room d \<longleftrightarrow> 0 \<le> db_event_seq d \<and> db_event_seq d < 2 ^ 31 \<and>
     0 \<le> db_seat_seq d \<and> db_seat_seq d + 320 \<le> 2 ^ 31"

lemma seed_succeeds:
  assumes "db_events d = []" "wf_db d" "room d"
  shows "SeedIfEmpty all_ok now d =
     (seeded now (db_event_seq d) (db_seat_seq d) d, Inr (db_event_seq d))"
proof -
  note empty = wf_no_events [OF assms(2,1)]
  let ?d1 = "d\<lparr>db_events := [\<lparr>Event_ID = db_event_seq d, Event_Slug = ''aurora-live'',
     Event_Name = event_title, Event_Venue = ''GrabSeat Arena'',
     Event_StartsAt = now + 21 * 24 * 3600 * 1000000000\<rparr>], db_event_seq := db_event_seq d + 1\<rparr>"
  have q: "query_row Pg_ok (insert_event ''aurora-live'' event_title ''GrabSeat Arena''
      (now + 21 * 24 * 3600 * 1000000000)) d = (?d1, Inr (db_event_seq d))"
    using assms by (simp add: insert_event_def int4_def room_def)
  have "\<exists>d2. insert_slots (\<lambda>_. Pg_ok) (db_event_seq d) (slots venue) 0 ?d1 =
      Inr (0 + int (length (slots venue)), d2)"
  proof (rule insert_slots_complete [OF venue_keys _ _ venue_ranges])
    show "slot_key (db_event_seq d) ` set (slots venue) \<inter> seat_key ` set (db_seats ?d1) = {}"
      using empty by simp
    show "db_event_seq d \<in> Event_ID ` set (db_events ?d1)" by simp
    show "0 + int (length (slots venue)) < 2 ^ 31" by (simp add: venue_size)
    show "0 \<le> db_seat_seq ?d1" using assms(3) by (simp add: room_def)
    show "db_seat_seq ?d1 + int (length (slots venue)) \<le> 2 ^ 31"
      using assms(3) by (simp add: room_def venue_size)
  qed simp
  then obtain d2 where
    d2: "insert_slots (\<lambda>_. Pg_ok) (db_event_seq d) (slots venue) 0 ?d1 = Inr (320, d2)"
    by (auto simp: venue_size)
  have "d2 = seeded now (db_event_seq d) (db_seat_seq d) d"
    using insert_slots_rows [OF d2] empty by (simp add: seeded_def venue_size)
  with q d2 assms(1) show ?thesis
    by (simp add: SeedIfEmpty_def all_ok_def seed_sections_slots)
qed

lemma seed_again: "db_events d \<noteq> [] \<Longrightarrow> sn_count nets = Pg_ok \<Longrightarrow> sn_event_read nets = Pg_ok \<Longrightarrow>
   SeedIfEmpty nets now d = (d, Inr (Event_ID (hd (sort_key Event_ID (db_events d)))))"
proof -
  assume a: "db_events d \<noteq> []" "sn_count nets = Pg_ok" "sn_event_read nets = Pg_ok"
  then obtain e es where "sort_key Event_ID (db_events d) = e # es"
    by (metis list.exhaust length_0_conv length_sort)
  with a show ?thesis by (simp add: SeedIfEmpty_def PrimaryEvent_def)
qed

section \<open>The seats that come back\<close>

lemma mk_rows_length [simp]: "length (mk_rows e pos sid sl) = length sl"
  by (induction e pos sid sl rule: mk_rows.induct) auto

lemma mk_rows_event: "r \<in> set (mk_rows e pos sid sl) \<Longrightarrow> sr_event_id r = e"
  by (induction e pos sid sl rule: mk_rows.induct) auto

lemma mk_rows_positions:
  "map (seat_Position \<circ> sr_seat) (mk_rows e pos sid sl) = map (\<lambda>i. pos + 1 + int i) [0..<length sl]"
proof (induction e pos sid sl rule: mk_rows.induct)
  case (2 e pos sid sec row n price sl)
  then show ?case by (simp add: map_upt_Suc ac_simps del: upt_Suc)
qed simp

lemma mk_rows_ids:
  "map (seat_ID \<circ> sr_seat) (mk_rows e pos sid sl) = map (\<lambda>i. sid + int i) [0..<length sl]"
proof (induction e pos sid sl rule: mk_rows.induct)
  case (2 e pos sid sec row n price sl)
  then show ?case by (simp add: map_upt_Suc ac_simps del: upt_Suc)
qed simp

lemma seeded_Seats:
  "Seats Pg_ok eid (seeded now eid sid d) = Inr (map sr_seat (mk_rows eid 0 sid (slots venue)))"
proof -
  let ?rows = "mk_rows eid 0 sid (slots venue)"
  have "map seat_Position (map sr_seat ?rows) = map (\<lambda>i. 1 + int i) [0..<length (slots venue)]"
    using mk_rows_positions [of eid 0 sid "slots venue"] by (simp add: comp_def)
  moreover have "sorted (map (\<lambda>i. 1 + int i) [0..<k])" for k
    by (simp add: sorted_iff_nth_mono)
  ultimately have "sorted (map seat_Position (map sr_seat ?rows))"
    by simp
  moreover have "filter (\<lambda>s. sr_event_id s = eid) ?rows = ?rows"
    by (auto intro: filter_True dest: mk_rows_event)
  ultimately show ?thesis
    by (simp add: Seats_def seeded_def sort_key_id_if_sorted)
qed

lemma wf_seeded:
  assumes "wf_db d" "db_events d = []"
  shows "wf_db (seeded now eid sid d)"
proof -
  let ?rows = "mk_rows eid 0 sid (slots venue)"
  have ids: "distinct (map (seat_ID \<circ> sr_seat) ?rows)"
    by (auto simp: mk_rows_ids distinct_map inj_on_def)
  have lt: "\<forall>r \<in> set ?rows. seat_ID (sr_seat r) < sid + 320"
  proof -
    have "seat_ID (sr_seat r) \<in> set (map (seat_ID \<circ> sr_seat) ?rows)" if "r \<in> set ?rows" for r
      using that by force
    then show ?thesis unfolding mk_rows_ids by (fastforce simp: venue_size)
  qed
  have keys: "distinct (map seat_key ?rows)"
    by (simp add: seat_key_mk_rows venue_keys)
  from ids lt keys wf_no_events [OF assms] show ?thesis
    by (auto simp: wf_db_def seeded_def seat_key_def [abs_def] dest: mk_rows_event)
qed

section \<open>Properties\<close>

text \<open>C20: seeding is all or nothing: on an empty database, whichever statement fails and however, the
  tables afterwards hold either no event and no seat at all, or the event with all its 320
  seats, and success is reported only in the second case.\<close>

theorem seeding_is_atomic:
  assumes "db_events d = []" and "wf_db d" and "SeedIfEmpty nets now d = (d', res)"
  shows "db_events d' = [] \<and> db_seats d' = [] \<and> isl res \<or>
    length (db_events d') = 1 \<and> length (db_seats d') = 320 \<and> wf_db d' \<and>
    (isl res \<or> res = Inr (Event_ID (hd (db_events d'))))"
proof (cases "db_events d' = []")
  case True
  with seed_transaction [OF assms] show ?thesis by (auto simp: seeded_def)
next
  case False
  with seed_transaction [OF assms]
  have d: "d' = seeded now (db_event_seq d) (db_seat_seq d) d"
    and r: "res = Inr (db_event_seq d) \<or> isl res" by auto
  have "wf_db d'" using wf_seeded [OF assms(2,1)] d by simp
  with d r show ?thesis by (auto simp: seeded_def venue_size)
qed

theorem seeding_is_atomic_witness:
  "db_seats (fst (SeedIfEmpty (all_ok\<lparr>sn_commit := Pg_lost False\<rparr>) 0 empty_db)) = [] \<or>
   length (db_seats (fst (SeedIfEmpty (all_ok\<lparr>sn_commit := Pg_lost False\<rparr>) 0 empty_db))) = 320"
proof -
  obtain d res where s: "SeedIfEmpty (all_ok\<lparr>sn_commit := Pg_lost False\<rparr>) 0 empty_db = (d, res)" by fastforce
  have "db_events empty_db = []" by (simp add: empty_db_def)
  from seeding_is_atomic [OF this wf_empty_db s] s show ?thesis by auto
qed

end
