(* ===== verification/Booking.thy ===== *)
theory Booking
  imports Locking Store
begin

text \<open>
  \<open>backend/booking/booking.go\<close>: the two operations of the service. \<open>Hold\<close> and \<open>Confirm\<close>
  are given with every call they make to Redis and Postgres, each with its own fate on the
  network; tracing and logging, which change no state, are left out.
\<close>

section \<open>Outcomes\<close>

datatype outcome =
    OutcomeHeld
  | OutcomeTaken
  | OutcomeSeatBooked
  | OutcomeConfirmed
  | OutcomeAlreadyMine
  | OutcomeConflict
  | OutcomeExpired

fun outcome_string :: "outcome \<Rightarrow> string" where
  "outcome_string OutcomeHeld = ''held''"
| "outcome_string OutcomeTaken = ''taken''"
| "outcome_string OutcomeSeatBooked = ''seat_booked''"
| "outcome_string OutcomeConfirmed = ''confirmed''"
| "outcome_string OutcomeAlreadyMine = ''already_mine''"
| "outcome_string OutcomeConflict = ''conflict''"
| "outcome_string OutcomeExpired = ''hold_expired''"

record service =
  sv_eventID :: int
  sv_instanceID :: string
  sv_holdTTL :: duration

definition NewService :: "int \<Rightarrow> string \<Rightarrow> duration \<Rightarrow> service" where
  "NewService eventID instanceID holdTTL =
     \<lparr>sv_eventID = eventID, sv_instanceID = instanceID, sv_holdTTL = holdTTL\<rparr>"

lemma NewService_simps [simp]:
  "sv_eventID (NewService e i t) = e" "sv_instanceID (NewService e i t) = i" "sv_holdTTL (NewService e i t) = t"
  by (simp_all add: NewService_def)

section \<open>Hold\<close>

record hold_nets =
  hn_try :: net
  hn_publish :: net

definition held_event :: "service \<Rightarrow> seat_id \<Rightarrow> session \<Rightarrow> int \<Rightarrow> seat_event" where
  "held_event sv seatID sess expiresAtMs =
     \<lparr>ev_Type = MsgHeld, ev_SeatID = seatID, ev_Status = StatusHeld, ev_HeldBy = sess,
      ev_BookedBy = [], ev_ExpiresAtMs = expiresAtMs, ev_ServedBy = sv_instanceID sv\<rparr>"

definition Hold ::
  "'r redis_api \<Rightarrow> service \<Rightarrow> hold_nets \<Rightarrow> int \<Rightarrow> seat_id \<Rightarrow> session \<Rightarrow> 'r
     \<Rightarrow> 'r \<times> (go_error, outcome \<times> int) result" where
  "Hold R sv nets now seatID sess r =
     (case TryHold R (hn_try nets) now seatID sess (sv_holdTTL sv) r of
        (r1, Inl e) \<Rightarrow> (r1, Inl (Wrap ''hold'' e))
      | (r1, Inr (res, expiresAtMs)) \<Rightarrow>
          if res = HoldAcquired
          then (let (r2, perr) = Publish R (hn_publish nets) (held_event sv seatID sess expiresAtMs) r1
                in (r2, Inr (OutcomeHeld, expiresAtMs)))
          else if res = HoldBooked then (r1, Inr (OutcomeSeatBooked, 0))
          else (r1, Inr (OutcomeTaken, 0)))"

section \<open>Confirm\<close>

record confirm_nets =
  cn_owner :: net
  cn_lookup :: pg_net
  cn_insert :: pg_net
  cn_readback :: pg_net
  cn_mark :: net
  cn_publish :: net

definition booked_event :: "service \<Rightarrow> seat_id \<Rightarrow> session \<Rightarrow> seat_event" where
  "booked_event sv seatID sess =
     \<lparr>ev_Type = MsgBooked, ev_SeatID = seatID, ev_Status = StatusBooked, ev_HeldBy = [],
      ev_BookedBy = sess, ev_ExpiresAtMs = 0, ev_ServedBy = sv_instanceID sv\<rparr>"

text \<open>The path of a caller that does not hold the seat.\<close>

definition resolve_outcome :: "bool \<Rightarrow> session \<Rightarrow> session \<times> bool \<Rightarrow> outcome" where
  "resolve_outcome held sess ow =
     (case ow of (owner, found) \<Rightarrow>
        if found \<and> owner = sess then OutcomeAlreadyMine
        else if found then OutcomeConflict
        else if held then OutcomeConflict
        else OutcomeExpired)"

definition Confirm ::
  "'r redis_api \<Rightarrow> service \<Rightarrow> confirm_nets \<Rightarrow> seat_id \<Rightarrow> session \<Rightarrow> 'r \<times> db
     \<Rightarrow> ('r \<times> db) \<times> (go_error, outcome) result" where
  "Confirm R sv nets seatID sess = (\<lambda>(r, d).
     (case HoldOwner R (cn_owner nets) seatID r of
        (r1, Inl e) \<Rightarrow> ((r1, d), Inl (Wrap ''check hold'' e))
      | (r1, Inr (holder, held)) \<Rightarrow>
          if \<not> held \<or> holder \<noteq> sess then
            (case BookingOwner (cn_lookup nets) seatID d of
               (d1, Inl e) \<Rightarrow> ((r1, d1), Inl (Wrap ''lookup booking'' e))
             | (d1, Inr ow) \<Rightarrow> ((r1, d1), Inr (resolve_outcome held sess ow)))
          else
            (case ConfirmBooking (cn_insert nets) (cn_readback nets) (sv_eventID sv) seatID sess d of
               (d1, Inl e) \<Rightarrow> ((r1, d1), Inl (Wrap ''confirm booking'' e))
             | (d1, Inr (inserted, owner)) \<Rightarrow>
                 if inserted then
                   (let (r2, merr) = MarkBooked R (cn_mark nets) seatID sess r1;
                        (r3, perr) = Publish R (cn_publish nets) (booked_event sv seatID sess) r2
                    in ((r3, d1), Inr OutcomeConfirmed))
                 else if owner = sess then ((r1, d1), Inr OutcomeAlreadyMine)
                 else ((r1, d1), Inr OutcomeConflict))))"

section \<open>What Confirm does to the bookings\<close>

lemma Confirm_db_step: "db_step s (sv_eventID sv) u d (snd (fst (Confirm R sv nets s u (r, d))))"
proof -
  have "db_step s (sv_eventID sv) u d d1"
    if "ConfirmBooking n1 n2 (sv_eventID sv) s u d = (d1, res)" for n1 n2 d1 res
    using ConfirmBooking_step [of s "sv_eventID sv" u d n1 n2] that by simp
  moreover have "db_step s (sv_eventID sv) u d d1"
    if "BookingOwner n s d = (d1, res)" for n d1 res
    using BookingOwner_state [of n s d] that by simp
  ultimately show ?thesis
    by (auto simp: Confirm_def split: prod.splits sum.splits)
qed

text \<open>Success is reported only to the session that owns the row.\<close>

lemma Confirm_success_owner:
  assumes "Confirm R sv nets s u (r, d) = ((r', d'), Inr oc)"
    and "oc = OutcomeConfirmed \<or> oc = OutcomeAlreadyMine"
  shows "booking_owner d' s = Some u"
proof -
  obtain r1 res where h: "HoldOwner R (cn_owner nets) s r = (r1, res)" by fastforce
  obtain d1 lk where l: "BookingOwner (cn_lookup nets) s d = (d1, lk)" by fastforce
  obtain d2 cb where c: "ConfirmBooking (cn_insert nets) (cn_readback nets) (sv_eventID sv) s u d
      = (d2, cb)" by fastforce
  from assms h l c show ?thesis
    by (auto simp: Confirm_def resolve_outcome_def split: sum.splits prod.splits if_splits
        dest!: BookingOwner_InrD dest: ConfirmBooking_InrD)
qed

text \<open>A first success is the one that writes the row.\<close>

lemma Confirm_confirmed_new:
  assumes "Confirm R sv nets s u (r, d) = ((r', d'), Inr OutcomeConfirmed)"
  shows "booking_owner d s = None"
proof -
  obtain r1 res where h: "HoldOwner R (cn_owner nets) s r = (r1, res)" by fastforce
  obtain d1 lk where l: "BookingOwner (cn_lookup nets) s d = (d1, lk)" by fastforce
  obtain d2 cb where c: "ConfirmBooking (cn_insert nets) (cn_readback nets) (sv_eventID sv) s u d
      = (d2, cb)" by fastforce
  from assms h l c show ?thesis
    by (auto simp: Confirm_def resolve_outcome_def split: sum.splits prod.splits if_splits
        dest: ConfirmBooking_InrD)
qed

text \<open>Once a session owns the row, an undisturbed call tells it so and changes nothing.\<close>

context redis
begin

lemma Confirm_again:
  assumes "booking_owner d s = Some u" and "int4 s" "int4 (sv_eventID sv)"
    and "cn_owner nets = Answered k" "cn_lookup nets = Pg_ok"
    and "cn_insert nets = Pg_ok" "cn_readback nets = Pg_ok"
  shows "Confirm R sv nets s u (r, d) = ((r, d), Inr OutcomeAlreadyMine)"
  using assms
  by (auto simp: Confirm_def HoldOwner_answered BookingOwner_ok ConfirmBooking_taken
      resolve_outcome_def split: option.splits)

text \<open>A caller that does not hold the seat writes nothing, to Redis or to Postgres.\<close>

lemma Confirm_not_holder:
  assumes "seat_holder R r s \<noteq> Some u"
  shows "fst (Confirm R sv nets s u (r, d)) = (r, d)"
proof -
  obtain r1 res where h: "HoldOwner R (cn_owner nets) s r = (r1, res)" by fastforce
  then have r1: "r1 = r" by (metis HoldOwner_state fst_conv)
  obtain d1 lk where l: "BookingOwner (cn_lookup nets) s d = (d1, lk)" by fastforce
  then have d1: "d1 = d" by (metis BookingOwner_state fst_conv)
  show ?thesis
  proof (cases res)
    case (Inl e)
    with h r1 show ?thesis by (simp add: Confirm_def)
  next
    case (Inr p)
    obtain v held where p: "p = (v, held)" by (cases p)
    with h Inr assms have "\<not> held \<or> v \<noteq> u" by (auto dest!: HoldOwner_InrD)
    with h l Inr p r1 d1 show ?thesis by (cases lk) (auto simp: Confirm_def)
  qed
qed

lemma Confirm_holder:
  assumes "seat_holder R r s = Some u" "booking_owner d s = None" "insertable d s (sv_eventID sv)"
    and "cn_owner nets = Answered k" "cn_insert nets = Pg_ok"
  shows "Confirm R sv nets s u (r, d) =
     ((fst (Publish R (cn_publish nets) (booked_event sv s u) (fst (MarkBooked R (cn_mark nets) s u r))),
       d\<lparr>db_bookings := db_bookings d @
          [\<lparr>bk_seat_id = s, bk_event_id = sv_eventID sv, bk_session_id = u\<rparr>]\<rparr>),
      Inr OutcomeConfirmed)"
  using assms
  by (simp add: Confirm_def HoldOwner_answered ConfirmBooking_free split_beta Let_def)

text \<open>Publishing touches no seat.\<close>

lemma Publish_views:
  "seat_holder R (fst (Publish R net ev r)) = seat_holder R r"
  "seat_marker R (fst (Publish R net ev r)) = seat_marker R r"
  "hold_left R (fst (Publish R net ev r)) = hold_left R r"
  "rd_pttl R (fst (Publish R net ev r)) = rd_pttl R r"
proof -
  let ?P = "\<lambda>r'. rd_get R r' = rd_get R r \<and> rd_pttl R r' = rd_pttl R r"
  have "?P (fst (Publish R net ev r))"
    unfolding Publish_def by (rule redis_call_inv) (simp_all add: publish_laws)
  then show "seat_holder R (fst (Publish R net ev r)) = seat_holder R r"
    "seat_marker R (fst (Publish R net ev r)) = seat_marker R r"
    "hold_left R (fst (Publish R net ev r)) = hold_left R r"
    "rd_pttl R (fst (Publish R net ev r)) = rd_pttl R r"
    by (simp_all add: seat_views fun_eq_iff)
qed

lemma Publish_answered_log:
  "rd_log R (fst (Publish R (Answered 0) ev r)) = rd_log R r @ [(eventChannel, marshal_event ev)]"
  by (simp add: Publish_def publish_laws)

end

end
