(* ===== verification/Seat_Spec.thy ===== *)
theory Seat_Spec
  imports Booking
begin

text \<open>
  What the booking service promises about one seat, as a three-state machine, and the proof
  that \<open>Hold\<close>, \<open>Confirm\<close> and the passing of time implement it while Redis and Postgres
  agree. The contest for a seat is a locale of its own: whatever the network does, one caller
  at most is told that the seat is theirs.
\<close>

section \<open>The abstract seat\<close>

datatype seat_view = Free | HeldBy session | SoldTo session

fun spec_hold :: "seat_view \<Rightarrow> session \<Rightarrow> seat_view \<times> outcome" where
  "spec_hold Free u = (HeldBy u, OutcomeHeld)"
| "spec_hold (HeldBy v) u = (HeldBy v, OutcomeTaken)"
| "spec_hold (SoldTo v) u = (SoldTo v, OutcomeSeatBooked)"

fun spec_confirm :: "seat_view \<Rightarrow> session \<Rightarrow> seat_view \<times> outcome" where
  "spec_confirm Free u = (Free, OutcomeExpired)"
| "spec_confirm (HeldBy v) u =
     (if v = u then (SoldTo u, OutcomeConfirmed) else (HeldBy v, OutcomeConflict))"
| "spec_confirm (SoldTo v) u =
     (SoldTo v, if v = u then OutcomeAlreadyMine else OutcomeConflict)"

fun spec_expire :: "seat_view \<Rightarrow> seat_view" where
  "spec_expire (HeldBy v) = Free"
| "spec_expire x = x"

text \<open>Booked wins over a hold, as in the snapshot.\<close>

definition view :: "'r redis_api \<Rightarrow> 'r \<times> db \<Rightarrow> seat_id \<Rightarrow> seat_view" where
  "view R st s = (case booking_owner (snd st) s of
     Some u \<Rightarrow> SoldTo u
   | None \<Rightarrow> (case seat_holder R (fst st) s of Some u \<Rightarrow> HeldBy u | None \<Rightarrow> Free))"

text \<open>
  Redis and Postgres agree: the booked marker of a seat is its booking, it never expires, and a
  booked seat has no hold.
\<close>

definition coherent :: "'r redis_api \<Rightarrow> 'r \<times> db \<Rightarrow> bool" where
  "coherent R st \<longleftrightarrow> (\<forall>s. seat_marker R (fst st) s = booking_owner (snd st) s \<and>
     (booking_owner (snd st) s \<noteq> None \<longrightarrow>
        seat_holder R (fst st) s = None \<and> rd_pttl R (fst st) (bookedKey s) = -1))"

lemma coherentD:
  "coherent R (r, d) \<Longrightarrow> seat_marker R r s = booking_owner d s"
  "coherent R (r, d) \<Longrightarrow> booking_owner d s \<noteq> None \<Longrightarrow> seat_holder R r s = None"
  "coherent R (r, d) \<Longrightarrow> booking_owner d s \<noteq> None \<Longrightarrow> rd_pttl R r (bookedKey s) = -1"
  by (auto simp: coherent_def)

lemma coherent_cong:
  assumes "seat_marker R r' = seat_marker R r" "seat_holder R r' = seat_holder R r"
    and "\<And>s. rd_pttl R r' (bookedKey s) = rd_pttl R r (bookedKey s)"
  shows "coherent R (r', d) \<longleftrightarrow> coherent R (r, d)"
  using assms by (simp add: coherent_def)

text \<open>Round trips whose every reply arrives.\<close>

definition hold_clean :: "hold_nets \<Rightarrow> bool" where
  "hold_clean n \<longleftrightarrow> hn_try n = Answered 0"

definition confirm_clean :: "confirm_nets \<Rightarrow> bool" where
  "confirm_clean n \<longleftrightarrow> cn_owner n = Answered 0 \<and> cn_lookup n = Pg_ok \<and> cn_insert n = Pg_ok \<and>
     cn_readback n = Pg_ok \<and> cn_mark n = Answered 0"

section \<open>Hold and Confirm implement the machine\<close>

context redis
begin

lemma hold_state_cases:
  "fst (Hold R sv nets now s u r) = r \<or>
   (\<exists>net ev. fst (Hold R sv nets now s u r) = fst (Publish R net ev (grabbed R s u (sv_holdTTL sv) r))) \<or>
   fst (Hold R sv nets now s u r) = grabbed R s u (sv_holdTTL sv) r \<or>
   (\<exists>net ev. fst (Hold R sv nets now s u r) = fst (Publish R net ev r))"
proof -
  obtain r1 res where t: "TryHold R (hn_try nets) now s u (sv_holdTTL sv) r = (r1, res)" by fastforce
  with TryHold_state [of "hn_try nets" now s u "sv_holdTTL sv" r]
  have "r1 = r \<or> r1 = grabbed R s u (sv_holdTTL sv) r" by simp
  with t show ?thesis
    by (cases res) (auto simp: Hold_def Let_def split_beta)
qed

lemma Hold_refines:
  assumes co: "coherent R (r, d)" and clean: "hold_clean nets"
    and ttl: "0 < int_seconds (sv_holdTTL sv)"
    and run: "Hold R sv nets now s u r = (r', res)"
  shows "view R (r', d) = (view R (r, d))(s := fst (spec_hold (view R (r, d) s) u))"
    and "\<exists>ms. res = Inr (snd (spec_hold (view R (r, d) s) u), ms)"
    and "coherent R (r', d)"
proof -
  note net = clean [unfolded hold_clean_def]
  consider (sold) v where "booking_owner d s = Some v"
    | (held) v where "booking_owner d s = None" "seat_holder R r s = Some v"
    | (free) "booking_owner d s = None" "seat_holder R r s = None"
    by (cases "booking_owner d s"; cases "seat_holder R r s") auto
  then have "view R (r', d) = (view R (r, d))(s := fst (spec_hold (view R (r, d) s) u)) \<and>
     (\<exists>ms. res = Inr (snd (spec_hold (view R (r, d) s) u), ms)) \<and> coherent R (r', d)"
  proof cases
    case sold
    with co have "seat_marker R r s \<noteq> None" by (simp add: coherentD)
    then have "TryHold R (hn_try nets) now s u (sv_holdTTL sv) r = (r, Inr (HoldBooked, 0))"
      by (simp add: net TryHold_booked)
    with run sold co show ?thesis
      by (auto simp: Hold_def lock_defs view_def fun_eq_iff)
  next
    case held
    with co have m: "seat_marker R r s = None" by (simp add: coherentD)
    have "TryHold R (hn_try nets) now s u (sv_holdTTL sv) r = (r, Inr (HoldTaken, 0))"
      using held ttl by (simp add: net TryHold_held m)
    with run held co show ?thesis
      by (auto simp: Hold_def lock_defs view_def fun_eq_iff)
  next
    case free
    with co have m: "seat_marker R r s = None" by (simp add: coherentD)
    let ?g = "grabbed R s u (sv_holdTTL sv) r"
    have t: "TryHold R (hn_try nets) now s u (sv_holdTTL sv) r =
        (?g, Inr (HoldAcquired, unix_milli (time_add now (sv_holdTTL sv))))"
      using free ttl by (simp add: net TryHold_free m)
    note g = grabbed_free [OF m free(2) ttl]
    from run t have r': "r' = fst (Publish R (hn_publish nets)
        (held_event sv s u (unix_milli (time_add now (sv_holdTTL sv)))) ?g)"
      and res: "res = Inr (OutcomeHeld, unix_milli (time_add now (sv_holdTTL sv)))"
      by (auto simp: Hold_def split_beta Let_def)
    have "coherent R (r', d)"
      using co free by (auto simp: r' coherent_def Publish_views g)
    moreover have "view R (r', d) = (view R (r, d))(s := HeldBy u)"
      using free by (auto simp: r' view_def Publish_views g fun_eq_iff split: option.splits)
    moreover have "view R (r, d) s = Free" using free by (simp add: view_def)
    ultimately show ?thesis by (simp add: res)
  qed
  then show "view R (r', d) = (view R (r, d))(s := fst (spec_hold (view R (r, d) s) u))"
    and "\<exists>ms. res = Inr (snd (spec_hold (view R (r, d) s) u), ms)"
    and "coherent R (r', d)" by blast+
qed

lemma Confirm_refines:
  assumes co: "coherent R (r, d)" and clean: "confirm_clean nets"
    and ok: "insertable d s (sv_eventID sv)"
    and run: "Confirm R sv nets s u (r, d) = ((r', d'), res)"
  shows "view R (r', d') = (view R (r, d))(s := fst (spec_confirm (view R (r, d) s) u))"
    and "res = Inr (snd (spec_confirm (view R (r, d) s) u))"
    and "coherent R (r', d')"
proof -
  note net = clean [unfolded confirm_clean_def]
  from ok have i4: "int4 s" "int4 (sv_eventID sv)" by (simp_all add: insertable_def)
  have "view R (r', d') = (view R (r, d))(s := fst (spec_confirm (view R (r, d) s) u)) \<and>
     res = Inr (snd (spec_confirm (view R (r, d) s) u)) \<and> coherent R (r', d')"
  proof (cases "seat_holder R r s = Some u")
    case True
    then have free: "booking_owner d s = None"
      using coherentD(2) [OF co, of s] by (cases "booking_owner d s") auto
    have marked: "fst (MarkBooked R (Answered 0) s u r) = marked R s u r"
      by (rule MarkBooked_state)
    from run net have r': "r' = fst (Publish R (cn_publish nets) (booked_event sv s u) (marked R s u r))"
      and d': "d' = d\<lparr>db_bookings := db_bookings d @
          [\<lparr>bk_seat_id = s, bk_event_id = sv_eventID sv, bk_session_id = u\<rparr>]\<rparr>"
      and res: "res = Inr OutcomeConfirmed"
      by (simp_all add: Confirm_holder [OF True free ok] marked)
    have "coherent R (r', d')"
      using co free
      by (auto simp: coherent_def r' d' Publish_views marked_views booking_owner_append
          split: option.splits)
    moreover have "view R (r', d') = (view R (r, d))(s := SoldTo u)"
      using free by (auto simp: view_def r' d' Publish_views marked_views booking_owner_append
          fun_eq_iff split: option.splits)
    moreover have "view R (r, d) s = HeldBy u" using free True by (simp add: view_def)
    ultimately show ?thesis by (simp add: res)
  next
    case False
    with run have st: "r' = r" "d' = d"
      using Confirm_not_holder [OF False, of sv nets d] by auto
    have "res = Inr (snd (spec_confirm (view R (r, d) s) u)) \<and>
        fst (spec_confirm (view R (r, d) s) u) = view R (r, d) s"
      using run False net i4
      by (auto simp: Confirm_def HoldOwner_answered BookingOwner_ok resolve_outcome_def view_def
          split: option.splits if_splits)
    with st co show ?thesis by simp
  qed
  then show "view R (r', d') = (view R (r, d))(s := fst (spec_confirm (view R (r, d) s) u))"
    and "res = Inr (snd (spec_confirm (view R (r, d) s) u))"
    and "coherent R (r', d')" by blast+
qed

text \<open>The passing of time frees exactly the holds whose time is up.\<close>

lemma elapse_refines:
  assumes co: "coherent R (r, d)"
  shows "view R (rd_elapse R r ms, d) s =
      (if 0 \<le> hold_left R r s \<and> hold_left R r s \<le> int ms
       then spec_expire (view R (r, d) s) else view R (r, d) s)"
    and "coherent R (rd_elapse R r ms, d)"
proof -
  show "view R (rd_elapse R r ms, d) s =
      (if 0 \<le> hold_left R r s \<and> hold_left R r s \<le> int ms
       then spec_expire (view R (r, d) s) else view R (r, d) s)"
    using pttl_none [of r "holdKey s"]
    by (auto simp: view_def seat_views elapse_get split: option.splits)
  have "seat_marker R (rd_elapse R r ms) x = booking_owner d x \<and> (booking_owner d x \<noteq> None \<longrightarrow>
      seat_holder R (rd_elapse R r ms) x = None \<and> rd_pttl R (rd_elapse R r ms) (bookedKey x) = -1)" for x
  proof (cases "booking_owner d x")
    case None
    with coherentD(1) [OF co, of x] show ?thesis
      by (simp add: seat_views elapse_none)
  next
    case (Some u)
    with coherentD [OF co, of x] show ?thesis
      by (simp add: seat_views elapse_none elapse_persistent elapse_pttl)
  qed
  then show "coherent R (rd_elapse R r ms, d)" by (simp add: coherent_def)
qed

end

end
