(* ===== verification/Contest.thy ===== *)
theory Contest
  imports Seat_Spec
begin

text \<open>
  Many callers and one seat. The locale \<open>contest\<close> states the little a race needs from the
  operation behind it; \<open>Hold\<close> over any Redis that keeps its documentation is an instance.
\<close>

section \<open>Races\<close>

fun run_attempts :: "('q \<Rightarrow> 'r \<Rightarrow> 'r \<times> bool) \<Rightarrow> 'q list \<Rightarrow> 'r \<Rightarrow> 'r \<times> ('q \<times> bool) list" where
  "run_attempts attempt [] r = (r, [])"
| "run_attempts attempt (q # qs) r =
     (let (r1, won) = attempt q r; (r2, rest) = run_attempts attempt qs r1 in (r2, (q, won) # rest))"

lemma run_attempts_Cons:
  "attempt q r = (r1, won) \<Longrightarrow> run_attempts attempt (q # qs) r =
     (fst (run_attempts attempt qs r1), (q, won) # snd (run_attempts attempt qs r1))"
  by (simp add: split_beta Let_def)

declare run_attempts.simps(2) [simp del]

locale contest =
  fixes occupant :: "'r \<Rightarrow> 'k \<Rightarrow> 'v option"
    and attempt :: "'q \<Rightarrow> 'r \<Rightarrow> 'r \<times> bool"
    and key_of :: "'q \<Rightarrow> 'k"
    and who :: "'q \<Rightarrow> 'v"
  assumes win: "attempt q r = (r', True) \<Longrightarrow>
        occupant r (key_of q) = None \<and> occupant r' (key_of q) = Some (who q)"
    and keeps: "occupant r k = Some v \<Longrightarrow> occupant (fst (attempt q r)) k = Some v"
begin

lemma run_keeps: "occupant r k = Some v \<Longrightarrow> occupant (fst (run_attempts attempt qs r)) k = Some v"
proof (induction qs arbitrary: r)
  case (Cons q qs)
  obtain r1 won where a: "attempt q r = (r1, won)" by (cases "attempt q r")
  have "occupant r1 k = Some v" using keeps [OF Cons.prems, of q] a by simp
  then show ?case using Cons.IH by (simp add: run_attempts_Cons [where attempt = attempt, OF a])
qed simp

lemma no_winner: "occupant r k = Some v \<Longrightarrow>
   filter (\<lambda>(q, won). won \<and> key_of q = k) (snd (run_attempts attempt qs r)) = []"
proof (induction qs arbitrary: r)
  case (Cons q qs)
  obtain r1 won where a: "attempt q r = (r1, won)" by (cases "attempt q r")
  have "occupant r1 k = Some v" using keeps [OF Cons.prems, of q] a by simp
  moreover have "\<not> (won \<and> key_of q = k)" using win [of q r r1] a Cons.prems by auto
  ultimately show ?case using Cons.IH by (auto simp: run_attempts_Cons [where attempt = attempt, OF a])
qed simp

lemma one_winner:
  "length (filter (\<lambda>(q, won). won \<and> key_of q = k) (snd (run_attempts attempt qs r))) \<le> 1"
proof (induction qs arbitrary: r)
  case (Cons q qs)
  obtain r1 won where a: "attempt q r = (r1, won)" by (cases "attempt q r")
  show ?case
  proof (cases "won \<and> key_of q = k")
    case True
    then have "occupant r1 k = Some (who q)" using win [of q r r1] a by auto
    then have "filter (\<lambda>(q, won). won \<and> key_of q = k) (snd (run_attempts attempt qs r1)) = []"
      by (rule no_winner)
    with True show ?thesis by (simp add: run_attempts_Cons [where attempt = attempt, OF a])
  next
    case False
    with Cons.IH [of r1] show ?thesis by (auto simp: run_attempts_Cons [where attempt = attempt, OF a])
  qed
qed simp

lemma winner_stays:
  "(q, True) \<in> set (snd (run_attempts attempt qs r)) \<Longrightarrow>
   occupant (fst (run_attempts attempt qs r)) (key_of q) = Some (who q)"
proof (induction qs arbitrary: r)
  case (Cons p qs)
  obtain r1 won where a: "attempt p r = (r1, won)" by (cases "attempt p r")
  from Cons.prems consider "p = q \<and> won" | "(q, True) \<in> set (snd (run_attempts attempt qs r1))"
    by (auto simp: run_attempts_Cons [where attempt = attempt, OF a])
  then show ?case
  proof cases
    case 1
    then have "occupant r1 (key_of q) = Some (who q)" using win [of p r r1] a by auto
    then show ?thesis by (simp add: run_attempts_Cons [where attempt = attempt, OF a] run_keeps)
  next
    case 2
    then show ?thesis using Cons.IH by (simp add: run_attempts_Cons [where attempt = attempt, OF a])
  qed
qed simp

end

text \<open>Where the network answers and the key is open, the first caller wins.\<close>

locale fair_contest = contest +
  fixes is_open :: "'r \<Rightarrow> 'k \<Rightarrow> bool"
    and answered :: "'q \<Rightarrow> bool"
  assumes open_wins: "answered q \<Longrightarrow> is_open r (key_of q) \<Longrightarrow> occupant r (key_of q) = None \<Longrightarrow>
        snd (attempt q r)"
    and open_other: "key_of q \<noteq> k \<Longrightarrow> is_open r k \<Longrightarrow> occupant r k = None \<Longrightarrow>
        is_open (fst (attempt q r)) k \<and> occupant (fst (attempt q r)) k = None"
begin

lemma exactly_one:
  assumes "is_open r k" "occupant r k = None" "\<forall>q \<in> set qs. answered q"
    and "filter (\<lambda>q. key_of q = k) qs = q # rest"
  shows "filter (\<lambda>(q, won). won \<and> key_of q = k) (snd (run_attempts attempt qs r)) = [(q, True)]"
  using assms
proof (induction qs arbitrary: r)
  case (Cons p qs)
  obtain r1 won where a: "attempt p r = (r1, won)" by (cases "attempt p r")
  show ?case
  proof (cases "key_of p = k")
    case True
    with Cons.prems a have won: "won" using open_wins [of p r] by simp
    with a have "occupant r1 k = Some (who p)" using win [of p r r1] True by auto
    then have "filter (\<lambda>(q, won). won \<and> key_of q = k) (snd (run_attempts attempt qs r1)) = []"
      by (rule no_winner)
    moreover have "p = q" using True Cons.prems(4) by simp
    ultimately show ?thesis
      using True won run_attempts_Cons [where attempt = attempt and qs = qs, OF a] by simp
  next
    case False
    with open_other [of p k r] Cons.prems a have "is_open r1 k" "occupant r1 k = None" by simp_all
    with Cons False show ?thesis by (simp add: run_attempts_Cons [where attempt = attempt, OF a])
  qed
qed simp

end

section \<open>Hold as a contest\<close>

record hold_req =
  hr_seat :: seat_id
  hr_session :: session
  hr_nets :: hold_nets
  hr_now :: int

definition hold_attempt :: "'r redis_api \<Rightarrow> service \<Rightarrow> hold_req \<Rightarrow> 'r \<Rightarrow> 'r \<times> bool" where
  "hold_attempt R sv q r =
     (case Hold R sv (hr_nets q) (hr_now q) (hr_seat q) (hr_session q) r of
        (r', Inl e) \<Rightarrow> (r', False)
      | (r', Inr (oc, ms)) \<Rightarrow> (r', oc = OutcomeHeld))"

definition hold_open :: "'r redis_api \<Rightarrow> service \<Rightarrow> 'r \<Rightarrow> seat_id \<Rightarrow> bool" where
  "hold_open R sv r s \<longleftrightarrow> seat_marker R r s = None \<and> 0 < int_seconds (sv_holdTTL sv)"

context redis
begin

lemma fst_hold_attempt: "fst (hold_attempt R sv q r) =
    fst (Hold R sv (hr_nets q) (hr_now q) (hr_seat q) (hr_session q) r)"
  by (simp add: hold_attempt_def split: prod.splits sum.splits)

lemma grabbed_keeps:
  "seat_holder R r x = Some v \<Longrightarrow> seat_holder R (grabbed R s u ttl r) x = Some v"
  "seat_marker R (grabbed R s u ttl r) = seat_marker R r"
  "x \<noteq> s \<Longrightarrow> seat_holder R (grabbed R s u ttl r) x = seat_holder R r x"
  "seat_holder R r x = Some v \<Longrightarrow> hold_left R (grabbed R s u ttl r) x = hold_left R r x"
proof -
  have "(seat_holder R r x = Some v \<longrightarrow> seat_holder R (grabbed R s u ttl r) x = Some v
       \<and> hold_left R (grabbed R s u ttl r) x = hold_left R r x) \<and>
     seat_marker R (grabbed R s u ttl r) = seat_marker R r \<and>
     (x \<noteq> s \<longrightarrow> seat_holder R (grabbed R s u ttl r) x = seat_holder R r x)"
  proof (cases "seat_marker R r s = None \<and> seat_holder R r s = None \<and> 0 < int_seconds ttl")
    case True
    then show ?thesis by (auto simp: grabbed_free)
  next
    case False
    then have "grabbed R s u ttl r = r" by (intro grabbed_not_free) auto
    then show ?thesis by simp
  qed
  then show "seat_holder R r x = Some v \<Longrightarrow> seat_holder R (grabbed R s u ttl r) x = Some v"
    "seat_marker R (grabbed R s u ttl r) = seat_marker R r"
    "x \<noteq> s \<Longrightarrow> seat_holder R (grabbed R s u ttl r) x = seat_holder R r x"
    "seat_holder R r x = Some v \<Longrightarrow> hold_left R (grabbed R s u ttl r) x = hold_left R r x"
    by blast+
qed

lemma Hold_keeps:
  "seat_holder R r x = Some v \<Longrightarrow> seat_holder R (fst (Hold R sv nets now s u r)) x = Some v"
  "seat_marker R (fst (Hold R sv nets now s u r)) = seat_marker R r"
  "x \<noteq> s \<Longrightarrow> seat_holder R (fst (Hold R sv nets now s u r)) x = seat_holder R r x"
  "seat_holder R r x = Some v \<Longrightarrow> hold_left R (fst (Hold R sv nets now s u r)) x = hold_left R r x"
  using hold_state_cases [of sv nets now s u r]
  by (auto simp: Publish_views grabbed_keeps)

lemma Hold_wonD:
  assumes "Hold R sv nets now s u r = (r', Inr (OutcomeHeld, ms))"
  shows "seat_holder R r s = None" "seat_marker R r s = None" "0 < int_seconds (sv_holdTTL sv)"
    "seat_holder R r' s = Some u" "hold_left R r' s = 1000 * int_seconds (sv_holdTTL sv)"
    "ms = unix_milli (time_add now (sv_holdTTL sv))"
proof -
  obtain r1 res where t0: "TryHold R (hn_try nets) now s u (sv_holdTTL sv) r = (r1, res)"
    by fastforce
  with assms have t: "TryHold R (hn_try nets) now s u (sv_holdTTL sv) r = (r1, Inr (HoldAcquired, ms))"
    and r': "r' = fst (Publish R (hn_publish nets) (held_event sv s u ms) r1)"
    by (auto simp: Hold_def Let_def split: prod.splits sum.splits if_splits)
  note f = TryHold_acquiredD [OF t]
  then show "seat_holder R r s = None" "seat_marker R r s = None" "0 < int_seconds (sv_holdTTL sv)"
    "ms = unix_milli (time_add now (sv_holdTTL sv))" by blast+
  show "seat_holder R r' s = Some u" "hold_left R r' s = 1000 * int_seconds (sv_holdTTL sv)"
    using f by (simp_all add: r' Publish_views grabbed_free)
qed

lemma hold_attempt_wonD:
  assumes "hold_attempt R sv q r = (r', True)"
  shows "\<exists>ms. Hold R sv (hr_nets q) (hr_now q) (hr_seat q) (hr_session q) r = (r', Inr (OutcomeHeld, ms))"
  using assms by (auto simp: hold_attempt_def split: prod.splits sum.splits)

lemma Hold_free:
  assumes "seat_marker R r s = None" "seat_holder R r s = None" "0 < int_seconds (sv_holdTTL sv)"
    "hn_try nets = Answered 0"
  shows "\<exists>r'. Hold R sv nets now s u r =
     (r', Inr (OutcomeHeld, unix_milli (time_add now (sv_holdTTL sv))))"
  using TryHold_free(1) [OF assms(1-3), of now u] assms(4)
  by (simp add: Hold_def split_beta Let_def)

end

sublocale redis \<subseteq> holds: contest "seat_holder R" "hold_attempt R sv"
    "hr_seat :: hold_req \<Rightarrow> seat_id" "hr_session :: hold_req \<Rightarrow> session" for sv
proof unfold_locales
  fix q :: hold_req and r r'
  assume "hold_attempt R sv q r = (r', True)"
  then obtain ms where "Hold R sv (hr_nets q) (hr_now q) (hr_seat q) (hr_session q) r =
      (r', Inr (OutcomeHeld, ms))" by (blast dest: hold_attempt_wonD)
  then show "seat_holder R r (hr_seat q) = None \<and> seat_holder R r' (hr_seat q) = Some (hr_session q)"
    by (blast dest: Hold_wonD)
next
  fix r k v and q :: hold_req
  assume "seat_holder R r k = Some v"
  then show "seat_holder R (fst (hold_attempt R sv q r)) k = Some v"
    by (simp add: fst_hold_attempt Hold_keeps)
qed

sublocale redis \<subseteq> fair_holds: fair_contest "seat_holder R" "hold_attempt R sv"
    "hr_seat :: hold_req \<Rightarrow> seat_id" "hr_session :: hold_req \<Rightarrow> session"
    "hold_open R sv" "\<lambda>q. hn_try (hr_nets q) = Answered 0" for sv
proof unfold_locales
  fix q :: hold_req and r
  assume "hn_try (hr_nets q) = Answered 0" "hold_open R sv r (hr_seat q)"
    "seat_holder R r (hr_seat q) = None"
  then obtain r' ms where "Hold R sv (hr_nets q) (hr_now q) (hr_seat q) (hr_session q) r =
      (r', Inr (OutcomeHeld, ms))" using Hold_free unfolding hold_open_def by blast
  then show "snd (hold_attempt R sv q r)" by (simp add: hold_attempt_def)
next
  fix q :: hold_req and k r
  assume "hr_seat q \<noteq> k" "hold_open R sv r k" "seat_holder R r k = None"
  then show "hold_open R sv (fst (hold_attempt R sv q r)) k \<and>
      seat_holder R (fst (hold_attempt R sv q r)) k = None"
    by (auto simp: fst_hold_attempt hold_open_def Hold_keeps)
qed

context redis
begin

lemma hold_fair_contest:
  "fair_contest (seat_holder R) (hold_attempt R sv) (hr_seat :: hold_req \<Rightarrow> seat_id) hr_session
     (hold_open R sv) (\<lambda>q. hn_try (hr_nets q) = Answered 0)"
  by (rule fair_holds.fair_contest_axioms)

end

interpretation mem_holds: fair_contest "seat_holder mem_redis" "hold_attempt mem_redis sv"
    "hr_seat :: hold_req \<Rightarrow> seat_id" "hr_session :: hold_req \<Rightarrow> session" "hold_open mem_redis sv" "\<lambda>q. hn_try (hr_nets q) = Answered 0" for sv
  by (rule mem.fair_holds.fair_contest_axioms)

section \<open>A hold in time\<close>

text \<open>Other callers try, and time passes.\<close>

datatype hold_event = Attempt hold_req | Wait nat

fun run_events :: "'r redis_api \<Rightarrow> service \<Rightarrow> hold_event list \<Rightarrow> 'r \<Rightarrow> 'r \<times> (hold_req \<times> bool) list" where
  "run_events R sv [] r = (r, [])"
| "run_events R sv (Attempt q # es) r =
     (let (r1, won) = hold_attempt R sv q r; (r2, rest) = run_events R sv es r1
      in (r2, (q, won) # rest))"
| "run_events R sv (Wait ms # es) r = run_events R sv es (rd_elapse R r ms)"

fun waited :: "hold_event list \<Rightarrow> nat" where
  "waited [] = 0"
| "waited (Attempt q # es) = waited es"
| "waited (Wait ms # es) = ms + waited es"

context redis
begin

lemma elapse_hold:
  assumes "seat_holder R r s = Some u" "int ms < hold_left R r s"
  shows "seat_holder R (rd_elapse R r ms) s = Some u"
    and "hold_left R (rd_elapse R r ms) s = hold_left R r s - int ms"
  using assms by (simp_all add: seat_views elapse_laws)

lemma run_events_held:
  assumes "seat_holder R r s = Some u" "int (waited es) < hold_left R r s"
  shows "seat_holder R (fst (run_events R sv es r)) s = Some u \<and>
     (\<forall>(q, won) \<in> set (snd (run_events R sv es r)). hr_seat q = s \<longrightarrow> \<not> won)"
  using assms
proof (induction es arbitrary: r)
  case Nil
  then show ?case by simp
next
  case (Cons e es)
  show ?case
  proof (cases e)
    case (Attempt q)
    obtain r1 won where a: "hold_attempt R sv q r = (r1, won)" by fastforce
    have r1: "seat_holder R r1 s = Some u" "hold_left R r1 s = hold_left R r s"
      using Hold_keeps(1,4) [OF Cons.prems(1), of sv "hr_nets q" "hr_now q" "hr_seat q" "hr_session q"]
        fst_hold_attempt [of sv q r] a by simp_all
    moreover have "\<not> (hr_seat q = s \<and> won)"
      using holds.win [of sv q r r1] a Cons.prems(1) by auto
    moreover have "int (waited es) < hold_left R r1 s"
      using Cons.prems(2) Attempt r1(2) by simp
    ultimately show ?thesis
      using Cons.IH [of r1] Attempt a by (auto simp: Let_def split: prod.splits)
  next
    case (Wait ms)
    have lt: "int ms < hold_left R r s" "int (waited es) < hold_left R r s - int ms"
      using Cons.prems(2) Wait by simp_all
    have "seat_holder R (rd_elapse R r ms) s = Some u"
      using elapse_hold(1) [OF Cons.prems(1) lt(1)] .
    moreover have "int (waited es) < hold_left R (rd_elapse R r ms) s"
      using elapse_hold(2) [OF Cons.prems(1) lt(1)] lt(2) by simp
    ultimately show ?thesis using Cons.IH Wait by simp
  qed
qed

text \<open>Once the time is up the seat can be held again.\<close>

lemma hold_expires:
  assumes "seat_holder R r s = Some u" "0 \<le> hold_left R r s" "hold_left R r s \<le> int ms"
  shows "seat_holder R (rd_elapse R r ms) s = None"
  using assms by (simp add: seat_views elapse_gone)

end

end
