(* ===== verification/Interleaving.thy ===== *)
theory Interleaving
  imports Contest
begin

text \<open>
  The service under concurrency: any number of requests on any number of backend instances,
  each a small machine that makes one round trip per step, interleaved in any order. Redis may
  change under them in any way at all (expiry, other programs, loss of its memory), so what is
  shown here rests on the bookings table alone.
\<close>

section \<open>One request, round trip by round trip\<close>

datatype pc =
    HTry
  | HPublish int
  | HDone "(go_error, outcome \<times> int) result"
  | PCheck
  | PLookup bool
  | PInsert
  | PReadback
  | PMark
  | PPublish
  | PDone "(go_error, outcome) result"

text \<open>The fate of the round trip of a step.\<close>

record fate =
  ft_net :: net
  ft_pg :: pg_net
  ft_now :: int

text \<open>
  One step of a request for a seat by a session: the calls of \<open>Hold\<close> and \<open>Confirm\<close> in
  their order, with the two statements of \<open>ConfirmBooking\<close> as two steps.
\<close>

fun request_step ::
  "'r redis_api \<Rightarrow> service \<Rightarrow> fate \<Rightarrow> seat_id \<Rightarrow> session \<Rightarrow> pc \<Rightarrow> 'r \<times> db \<Rightarrow> pc \<times> 'r \<times> db" where
  "request_step R sv ft s u HTry (r, d) =
     (case TryHold R (ft_net ft) (ft_now ft) s u (sv_holdTTL sv) r of
        (r1, Inl e) \<Rightarrow> (HDone (Inl (Wrap ''hold'' e)), r1, d)
      | (r1, Inr (res, ms)) \<Rightarrow>
          (if res = HoldAcquired then HPublish ms
           else if res = HoldBooked then HDone (Inr (OutcomeSeatBooked, 0))
           else HDone (Inr (OutcomeTaken, 0)), r1, d))"
| "request_step R sv ft s u (HPublish ms) (r, d) =
     (HDone (Inr (OutcomeHeld, ms)), fst (Publish R (ft_net ft) (held_event sv s u ms) r), d)"
| "request_step R sv ft s u (HDone res) (r, d) = (HDone res, r, d)"
| "request_step R sv ft s u PCheck (r, d) =
     (case HoldOwner R (ft_net ft) s r of
        (r1, Inl e) \<Rightarrow> (PDone (Inl (Wrap ''check hold'' e)), r1, d)
      | (r1, Inr (holder, held)) \<Rightarrow>
          (if \<not> held \<or> holder \<noteq> u then PLookup held else PInsert, r1, d))"
| "request_step R sv ft s u (PLookup held) (r, d) =
     (case BookingOwner (ft_pg ft) s d of
        (d1, Inl e) \<Rightarrow> (PDone (Inl (Wrap ''lookup booking'' e)), r, d1)
      | (d1, Inr ow) \<Rightarrow> (PDone (Inr (resolve_outcome held u ow)), r, d1))"
| "request_step R sv ft s u PInsert (r, d) =
     (case query_row (ft_pg ft) (insert_booking s (sv_eventID sv) u) d of
        (d1, Inr owner) \<Rightarrow> (PMark, r, d1)
      | (d1, Inl e) \<Rightarrow>
          (if error_is e ErrNoRows then PReadback
           else PDone (Inl (Wrap ''confirm booking'' (Wrap ''insert booking'' e))), r, d1))"
| "request_step R sv ft s u PReadback (r, d) =
     (case query_row (ft_pg ft) (select_owner s) d of
        (d1, Inl e) \<Rightarrow> (PDone (Inl (Wrap ''confirm booking'' (Wrap ''read existing booking'' e))), r, d1)
      | (d1, Inr owner) \<Rightarrow>
          (PDone (Inr (if owner = u then OutcomeAlreadyMine else OutcomeConflict)), r, d1))"
| "request_step R sv ft s u PMark (r, d) =
     (PPublish, fst (MarkBooked R (ft_net ft) s u r), d)"
| "request_step R sv ft s u PPublish (r, d) =
     (PDone (Inr OutcomeConfirmed), fst (Publish R (ft_net ft) (booked_event sv s u) r), d)"
| "request_step R sv ft s u (PDone res) (r, d) = (PDone res, r, d)"

fun finished :: "pc \<Rightarrow> bool" where
  "finished (HDone _) = True"
| "finished (PDone _) = True"
| "finished _ = False"

text \<open>How many steps a request still needs.\<close>

fun steps_left :: "pc \<Rightarrow> nat" where
  "steps_left HTry = 2"
| "steps_left (HPublish _) = 1"
| "steps_left PCheck = 4"
| "steps_left (PLookup _) = 1"
| "steps_left PInsert = 3"
| "steps_left PReadback = 1"
| "steps_left PMark = 2"
| "steps_left PPublish = 1"
| "steps_left _ = 0"

lemma steps_left_decreases:
  "\<not> finished p \<Longrightarrow> steps_left (fst (request_step R sv ft s u p (r, d))) < steps_left p"
  by (cases p) (auto split: prod.splits sum.splits)

lemma steps_left_0: "steps_left p = 0 \<longleftrightarrow> finished p"
  by (cases p) auto

text \<open>A request on its own, given the fates of its round trips.\<close>

fun run_request ::
  "'r redis_api \<Rightarrow> service \<Rightarrow> fate list \<Rightarrow> seat_id \<Rightarrow> session \<Rightarrow> pc \<times> 'r \<times> db \<Rightarrow> pc \<times> 'r \<times> db" where
  "run_request R sv [] s u (p, st) = (p, st)"
| "run_request R sv (ft # fts) s u (p, st) = run_request R sv fts s u (request_step R sv ft s u p st)"

lemma run_request_done [simp]: "finished p \<Longrightarrow> run_request R sv fts s u (p, st) = (p, st)"
proof (induction fts)
  case (Cons ft fts)
  then have "request_step R sv ft s u p st = (p, st)"
    by (cases p; cases st) auto
  with Cons show ?case by simp
qed simp

lemma run_request_finishes:
  "steps_left p \<le> length fts \<Longrightarrow> finished (fst (run_request R sv fts s u (p, r, d)))"
proof (induction fts arbitrary: p r d)
  case Nil
  then show ?case by (simp add: steps_left_0)
next
  case (Cons ft fts)
  obtain p' r' d' where q: "request_step R sv ft s u p (r, d) = (p', r', d')"
    by (cases "request_step R sv ft s u p (r, d)")
  have "steps_left p' \<le> length fts"
  proof (cases "finished p")
    case True
    then have "p' = p" using q by (cases p) auto
    with True show ?thesis using steps_left_0 [of p] by simp
  next
    case False
    with steps_left_decreases [OF False, of R sv ft s u r d] q Cons.prems show ?thesis by simp
  qed
  with Cons.IH q show ?case by simp
qed

section \<open>The atomic operations are the uninterrupted runs\<close>

definition hold_fates :: "hold_nets \<Rightarrow> int \<Rightarrow> fate list" where
  "hold_fates n now = [\<lparr>ft_net = hn_try n, ft_pg = Pg_ok, ft_now = now\<rparr>,
     \<lparr>ft_net = hn_publish n, ft_pg = Pg_ok, ft_now = now\<rparr>]"

lemma run_hold:
  "run_request R sv (hold_fates n now) s u (HTry, r, d) =
     (case Hold R sv n now s u r of (r', res) \<Rightarrow> (HDone res, r', d))"
  by (auto simp: hold_fates_def Hold_def Let_def split: prod.splits sum.splits)

text \<open>
  The round trips of \<open>Confirm\<close> in order: the holder check; the lookup, or the insert; then the
  read-back after a conflict, or the booking script; then the broadcast.
\<close>

fun confirm_fates :: "confirm_nets \<Rightarrow> pc \<Rightarrow> fate" where
  "confirm_fates n PCheck = \<lparr>ft_net = cn_owner n, ft_pg = Pg_ok, ft_now = 0\<rparr>"
| "confirm_fates n (PLookup _) = \<lparr>ft_net = Answered 0, ft_pg = cn_lookup n, ft_now = 0\<rparr>"
| "confirm_fates n PInsert = \<lparr>ft_net = Answered 0, ft_pg = cn_insert n, ft_now = 0\<rparr>"
| "confirm_fates n PReadback = \<lparr>ft_net = Answered 0, ft_pg = cn_readback n, ft_now = 0\<rparr>"
| "confirm_fates n PMark = \<lparr>ft_net = cn_mark n, ft_pg = Pg_ok, ft_now = 0\<rparr>"
| "confirm_fates n p = \<lparr>ft_net = cn_publish n, ft_pg = Pg_ok, ft_now = 0\<rparr>"

fun run_confirm ::
  "'r redis_api \<Rightarrow> service \<Rightarrow> confirm_nets \<Rightarrow> nat \<Rightarrow> seat_id \<Rightarrow> session \<Rightarrow> pc \<times> 'r \<times> db \<Rightarrow> pc \<times> 'r \<times> db" where
  "run_confirm R sv n 0 s u (p, st) = (p, st)"
| "run_confirm R sv n (Suc k) s u (p, st) =
     run_confirm R sv n k s u (request_step R sv (confirm_fates n p) s u p st)"

lemma run_confirm_eq:
  "run_confirm R sv n 4 s u (PCheck, r, d) =
     (case Confirm R sv n s u (r, d) of ((r', d'), res) \<Rightarrow> (PDone res, r', d'))"
proof -
  obtain r1 h where h: "HoldOwner R (cn_owner n) s r = (r1, h)" by fastforce
  obtain d1 l where l: "BookingOwner (cn_lookup n) s d = (d1, l)" by fastforce
  obtain d2 q where q: "query_row (cn_insert n) (insert_booking s (sv_eventID sv) u) d = (d2, q)"
    by fastforce
  obtain d3 b where b: "query_row (cn_readback n) (select_owner s) d2 = (d3, b)" by fastforce
  have q4: "(4::nat) = Suc (Suc (Suc (Suc 0)))" by simp
  show ?thesis
  proof (cases h)
    case (Inl e)
    with h show ?thesis by (simp add: q4 Confirm_def)
  next
    case (Inr vh)
    obtain v held where vh: "vh = (v, held)" by (cases vh)
    show ?thesis
    proof (cases "\<not> held \<or> v \<noteq> u")
      case True
      with h l Inr vh show ?thesis by (cases l) (auto simp: q4 Confirm_def)
    next
      case False
      with h q b Inr vh show ?thesis
        by (cases q; cases b) (auto simp: q4 Confirm_def ConfirmBooking_def Let_def split: prod.splits)
    qed
  qed
qed

section \<open>The system\<close>

record request =
  rq_seat :: seat_id
  rq_session :: session
  rq_pc :: pc

record 'r world =
  w_redis :: 'r
  w_db :: db
  w_reqs :: "request list"

inductive world_step :: "'r redis_api \<Rightarrow> service \<Rightarrow> 'r world \<Rightarrow> 'r world \<Rightarrow> bool" for R sv where
  arrive: "p = HTry \<or> p = PCheck \<Longrightarrow>
     world_step R sv w (w\<lparr>w_reqs := w_reqs w @ [\<lparr>rq_seat = s, rq_session = u, rq_pc = p\<rparr>]\<rparr>)"
| advance: "i < length (w_reqs w) \<Longrightarrow> w_reqs w ! i = q \<Longrightarrow>
     request_step R sv ft (rq_seat q) (rq_session q) (rq_pc q) (w_redis w, w_db w) = (p, r, d) \<Longrightarrow>
     world_step R sv w \<lparr>w_redis = r, w_db = d, w_reqs = (w_reqs w)[i := q\<lparr>rq_pc := p\<rparr>]\<rparr>"
| redis_moves: "world_step R sv w (w\<lparr>w_redis := r\<rparr>)"

inductive reachable :: "'r redis_api \<Rightarrow> service \<Rightarrow> 'r world \<Rightarrow> bool" for R sv where
  start: "wf_db d \<Longrightarrow> only_event (sv_eventID sv) d \<Longrightarrow>
     reachable R sv \<lparr>w_redis = r, w_db = d, w_reqs = []\<rparr>"
| step: "reachable R sv w \<Longrightarrow> world_step R sv w w' \<Longrightarrow> reachable R sv w'"

text \<open>The request has written the row; the request is, or will be, answered with success.\<close>

definition won :: "pc \<Rightarrow> bool" where
  "won p \<longleftrightarrow> p = PMark \<or> p = PPublish \<or> p = PDone (Inr OutcomeConfirmed)"

definition succeeded :: "pc \<Rightarrow> bool" where
  "succeeded p \<longleftrightarrow> won p \<or> p = PDone (Inr OutcomeAlreadyMine)"

lemma request_step_db:
  assumes "request_step R sv ft s u p (r, d) = (p', r', d')"
  shows "db_step s (sv_eventID sv) u d d'"
proof (cases p)
  case (PLookup held)
  with assms show ?thesis
    by (auto split: prod.splits sum.splits dest!: BookingOwnerD)
next
  case PInsert
  with assms insert_query_step [of s "sv_eventID sv" u d "ft_pg ft"] show ?thesis
    by (auto split: prod.splits sum.splits)
next
  case PReadback
  with assms show ?thesis
    by (auto split: prod.splits sum.splits dest!: select_queryD)
qed (use assms in \<open>auto split: prod.splits sum.splits\<close>)

lemma insert_query_InrD:
  assumes "query_row n (insert_booking s e u) d = (d', Inr owner)"
  shows "booking_owner d s = None \<and> booking_owner d' s = Some u"
proof (cases n)
  case Pg_ok
  with assms obtain row where "insert_booking s e u d = Inr (d', Some row)"
    by (auto split: sum.splits option.splits)
  from insert_booking_cases [OF this] show ?thesis by (auto simp: booking_owner_append)
next
  case (Pg_lost a)
  with assms show ?thesis by simp
qed

lemma select_query_InrD:
  "query_row n (select_owner s) d = (d', Inr owner) \<Longrightarrow> booking_owner d s = Some owner"
  by (cases n) (auto simp: select_owner_def split: if_splits option.splits)

lemma request_step_won:
  assumes "request_step R sv ft s u p (r, d) = (p', r', d')" "won p'" "\<not> won p"
  shows "booking_owner d s = None \<and> booking_owner d' s = Some u"
  using assms
  by (cases p) (auto simp: won_def resolve_outcome_def split: prod.splits sum.splits if_splits
      dest: insert_query_InrD)

lemma request_step_succeeded:
  assumes "request_step R sv ft s u p (r, d) = (p', r', d')" "succeeded p'" "\<not> succeeded p"
  shows "booking_owner d' s = Some u"
proof (cases "won p'")
  case True
  with assms request_step_won [OF assms(1)] show ?thesis by (auto simp: succeeded_def)
next
  case False
  with assms show ?thesis
    by (cases p) (auto simp: succeeded_def won_def resolve_outcome_def
        split: prod.splits sum.splits if_splits dest!: BookingOwner_InrD
        dest: select_query_InrD select_queryD)
qed

lemma request_step_keeps_won:
  "request_step R sv ft s u p (r, d) = (p', r', d') \<Longrightarrow> won p \<Longrightarrow> won p'"
  by (cases p) (auto simp: won_def)

section \<open>The invariant\<close>

definition world_inv :: "service \<Rightarrow> 'r world \<Rightarrow> bool" where
  "world_inv sv w \<longleftrightarrow> wf_db (w_db w) \<and> only_event (sv_eventID sv) (w_db w) \<and>
     (\<forall>i < length (w_reqs w). succeeded (rq_pc (w_reqs w ! i)) \<longrightarrow>
        booking_owner (w_db w) (rq_seat (w_reqs w ! i)) = Some (rq_session (w_reqs w ! i))) \<and>
     (\<forall>i < length (w_reqs w). \<forall>j < length (w_reqs w).
        won (rq_pc (w_reqs w ! i)) \<longrightarrow> won (rq_pc (w_reqs w ! j)) \<longrightarrow>
        rq_seat (w_reqs w ! i) = rq_seat (w_reqs w ! j) \<longrightarrow> i = j)"

lemma world_step_owner:
  "world_step R sv w w' \<Longrightarrow> booking_owner (w_db w) s = Some u \<Longrightarrow> booking_owner (w_db w') s = Some u"
  by (induction rule: world_step.induct) (auto dest: request_step_db db_step_owner)

lemma world_inv_arrive:
  assumes "world_inv sv w" "p = HTry \<or> p = PCheck"
  shows "world_inv sv (w\<lparr>w_reqs := w_reqs w @ [\<lparr>rq_seat = s, rq_session = u, rq_pc = p\<rparr>]\<rparr>)"
proof -
  have "\<not> succeeded p" "\<not> won p" using assms(2) by (auto simp: succeeded_def won_def)
  with assms(1) show ?thesis
    by (simp add: world_inv_def nth_append less_Suc_eq)
qed

text \<open>One request takes a step: those told the seat is theirs still own it, and one of them has won it.\<close>

lemma advance_owner:
  assumes inv: "world_inv sv w" and i: "i < length (w_reqs w)" and q: "w_reqs w ! i = q"
    and st: "request_step R sv ft (rq_seat q) (rq_session q) (rq_pc q) (w_redis w, w_db w) = (p, r, d)"
    and x: "j < length (w_reqs w)" "x = (w_reqs w)[i := q\<lparr>rq_pc := p\<rparr>] ! j" "succeeded (rq_pc x)"
  shows "booking_owner d (rq_seat x) = Some (rq_session x)"
proof (cases "j = i \<and> \<not> succeeded (rq_pc q)")
  case True
  with x i request_step_succeeded [OF st] show ?thesis by simp
next
  case False
  then have "succeeded (rq_pc (w_reqs w ! j))" "rq_seat (w_reqs w ! j) = rq_seat x" "rq_session (w_reqs w ! j) = rq_session x"
    using x i q by (cases "j = i"; auto)+
  then have "booking_owner (w_db w) (rq_seat x) = Some (rq_session x)"
    using inv x(1) by (auto simp: world_inv_def)
  with db_step_owner [OF request_step_db [OF st]] show ?thesis by simp
qed

lemma advance_winner:
  assumes inv: "world_inv sv w" and i: "i < length (w_reqs w)" and q: "w_reqs w ! i = q"
    and st: "request_step R sv ft (rq_seat q) (rq_session q) (rq_pc q) (w_redis w, w_db w) = (p, r, d)"
    and j: "j < length (w_reqs w)" "j \<noteq> i" "won (rq_pc (w_reqs w ! j))" "rq_seat (w_reqs w ! j) = rq_seat q"
  shows "\<not> won p"
proof (cases "won (rq_pc q)")
  case True
  with j inv i q show ?thesis by (auto simp: world_inv_def)
next
  case False
  have "booking_owner (w_db w) (rq_seat q) \<noteq> None" using j inv by (auto simp: world_inv_def succeeded_def)
  with request_step_won [OF st _ False] show ?thesis by auto
qed

lemma world_inv_advance:
  assumes inv: "world_inv sv w" and i: "i < length (w_reqs w)" and q: "w_reqs w ! i = q"
    and st: "request_step R sv ft (rq_seat q) (rq_session q) (rq_pc q) (w_redis w, w_db w) = (p, r, d)"
  shows "world_inv sv \<lparr>w_redis = r, w_db = d, w_reqs = (w_reqs w)[i := q\<lparr>rq_pc := p\<rparr>]\<rparr>"
proof -
  let ?reqs = "(w_reqs w)[i := q\<lparr>rq_pc := p\<rparr>]"
  note db = request_step_db [OF st]
  have wf: "wf_db d" using db_step_wf [OF db] inv by (simp add: world_inv_def)
  have ev: "only_event (sv_eventID sv) d"
    using only_event_step [OF db] inv by (simp add: world_inv_def)
  have "j = k" if "j < length ?reqs" "k < length ?reqs" "won (rq_pc (?reqs ! j))" "won (rq_pc (?reqs ! k))"
    "rq_seat (?reqs ! j) = rq_seat (?reqs ! k)" for j k
  proof (rule ccontr)
    assume "j \<noteq> k"
    then consider "j = i" "k \<noteq> i" | "k = i" "j \<noteq> i" | "j \<noteq> i" "k \<noteq> i" by blast
    then show False
      using that \<open>j \<noteq> k\<close> inv advance_winner [OF inv i q st, of j] advance_winner [OF inv i q st, of k] i
      by cases (simp_all add: world_inv_def)
  qed
  with wf ev advance_owner [OF inv i q st] show ?thesis by (simp add: world_inv_def)
qed

lemma world_step_inv: "world_step R sv w w' \<Longrightarrow> world_inv sv w \<Longrightarrow> world_inv sv w'"
proof (induction rule: world_step.induct)
  case (arrive p w s u)
  then show ?case by (blast intro: world_inv_arrive)
next
  case (advance i w q ft p r d)
  then show ?case by (blast intro: world_inv_advance)
next
  case (redis_moves w r)
  then show ?case by (simp add: world_inv_def)
qed

lemma reachable_inv: "reachable R sv w \<Longrightarrow> world_inv sv w"
  by (induction rule: reachable.induct) (simp add: world_inv_def, blast intro: world_step_inv)

lemma reachable_run: "(world_step R sv)\<^sup>*\<^sup>* w w' \<Longrightarrow> reachable R sv w \<Longrightarrow> reachable R sv w'"
  by (induction rule: rtranclp_induct) (auto intro: reachable.step)

lemma run_owner:
  "(world_step R sv)\<^sup>*\<^sup>* w w' \<Longrightarrow> booking_owner (w_db w) s = Some u \<Longrightarrow>
   booking_owner (w_db w') s = Some u"
  by (induction rule: rtranclp_induct) (auto dest: world_step_owner)

section \<open>Retries\<close>

text \<open>What a confirm can still answer once its session owns the row.\<close>

definition settled :: "pc \<Rightarrow> bool" where
  "settled p \<longleftrightarrow> p \<noteq> PMark \<and> p \<noteq> PPublish \<and> p \<noteq> HTry \<and> (\<forall>ms. p \<noteq> HPublish ms) \<and> (\<forall>res. p \<noteq> HDone res) \<and>
     (\<forall>oc. p = PDone (Inr oc) \<longrightarrow> oc = OutcomeAlreadyMine)"

lemma request_step_settled:
  assumes "request_step R sv ft s u p (r, d) = (p', r', d')" "booking_owner d s = Some u" "settled p"
  shows "settled p'"
proof -
  have "query_row n (insert_booking s e u) d \<noteq> (d1, Inr v)" for n e d1 v
    using insert_query_InrD [of n s e u d d1 v] assms(2) by auto
  moreover have "v = u" if "query_row n (select_owner s) d = (d1, Inr v)" for n d1 v
    using select_query_InrD [OF that] assms(2) by simp
  ultimately show ?thesis
    using assms
    by (cases p) (auto simp: settled_def resolve_outcome_def split: prod.splits sum.splits if_splits
        dest!: BookingOwner_InrD)
qed

lemma run_settled:
  assumes "(world_step R sv)\<^sup>*\<^sup>* w w'" "i < length (w_reqs w)" "rq_seat (w_reqs w ! i) = s"
    "rq_session (w_reqs w ! i) = u" "settled (rq_pc (w_reqs w ! i))"
    "booking_owner (w_db w) s = Some u"
  shows "i < length (w_reqs w') \<and> rq_seat (w_reqs w' ! i) = s \<and> rq_session (w_reqs w' ! i) = u \<and>
     settled (rq_pc (w_reqs w' ! i)) \<and> booking_owner (w_db w') s = Some u"
  using assms
proof (induction rule: rtranclp_induct)
  case base
  then show ?case by blast
next
  case (step w1 w2)
  note IH = step.IH [OF step.prems]
  from step.hyps(2) show ?case
  proof cases
    case (arrive p x v)
    with IH show ?thesis by (simp add: nth_append)
  next
    case (advance j q ft p r d)
    have "booking_owner d s = Some u"
      using db_step_owner [OF request_step_db [OF advance(4)]] IH by simp
    moreover have "settled p" if "j = i"
      using request_step_settled [OF advance(4)] IH advance(3) that by simp
    ultimately show ?thesis using IH advance by (cases "j = i") auto
  next
    case (redis_moves r)
    with IH show ?thesis by simp
  qed
qed

end
