(* ===== verification/Sample.thy ===== *)
theory Sample
  imports Interleaving
begin

text \<open>
  Concrete states for the witnesses of the properties: an event with two seats, the in-memory
  Redis, round trips that all succeed, and a run of the service in which seat 1 is sold.
\<close>

definition sample_seat :: "int \<Rightarrow> seat" where
  "sample_seat n = \<lparr>seat_ID = n, seat_Section = ''Floor'', seat_RowLabel = ''A'', seat_SeatNumber = n,
     seat_PriceCents = 12500, seat_Position = n\<rparr>"

definition sample_db :: db where
  "sample_db = \<lparr>db_events = [\<lparr>Event_ID = 1, Event_Slug = ''aurora-live'', Event_Name = ''Aurora'',
       Event_Venue = ''GrabSeat Arena'', Event_StartsAt = 0\<rparr>],
     db_seats = [\<lparr>sr_seat = sample_seat 1, sr_event_id = 1\<rparr>, \<lparr>sr_seat = sample_seat 2, sr_event_id = 1\<rparr>],
     db_bookings = [], db_event_seq = 2, db_seat_seq = 3\<rparr>"

definition sold_db :: db where
  "sold_db = sample_db\<lparr>db_bookings := [\<lparr>bk_seat_id = 1, bk_event_id = 1, bk_session_id = ''ada''\<rparr>]\<rparr>"

definition sample_service :: service where
  "sample_service = \<lparr>sv_eventID = 1, sv_instanceID = ''b1'', sv_holdTTL = 120 * second\<rparr>"

definition ok_hold :: hold_nets where
  "ok_hold = \<lparr>hn_try = Answered 0, hn_publish = Answered 0\<rparr>"

definition ok_confirm :: confirm_nets where
  "ok_confirm = \<lparr>cn_owner = Answered 0, cn_lookup = Pg_ok, cn_insert = Pg_ok, cn_readback = Pg_ok,
     cn_mark = Answered 0, cn_publish = Answered 0\<rparr>"

definition ok_fate :: fate where
  "ok_fate = \<lparr>ft_net = Answered 0, ft_pg = Pg_ok, ft_now = 0\<rparr>"

definition held_redis :: mem_state where
  "held_redis = \<lparr>mm_keys = [(holdKey 1, ''ada'', Some 120000)], mm_log = []\<rparr>"

lemmas sample_defs = sample_seat_def sample_db_def sold_db_def sample_service_def ok_hold_def
  ok_confirm_def ok_fate_def held_redis_def

lemma wf_sample_db [simp]: "wf_db sample_db" "wf_db sold_db"
  by (simp_all add: wf_db_def sample_defs)

lemma sample_clean [simp]: "hold_clean ok_hold" "confirm_clean ok_confirm"
  by (simp_all add: sample_defs hold_clean_def confirm_clean_def)

lemma sample_event [simp]: "only_event 1 sample_db" "only_event 1 sold_db"
  "sv_eventID sample_service = 1"
  by (simp_all add: sample_defs only_event_def)

lemma sample_insertable [simp]: "insertable sample_db 1 1" "insertable sold_db 1 1"
  by (simp_all add: sample_defs insertable_def int4_def)

lemma sample_ttl [simp]: "int_seconds (sv_holdTTL sample_service) = 120"
  by (simp add: sample_defs int_seconds_def trunc_div_def second_def)

lemma sample_owner [simp]:
  "booking_owner sample_db s = None" "booking_owner sold_db s = (if s = 1 then Some ''ada'' else None)"
  by (simp_all add: sample_defs booking_owner_def booking_row_of_def)

lemma empty_views [simp]:
  "seat_holder mem_redis mem_empty s = None" "seat_marker mem_redis mem_empty s = None"
  "rd_pttl mem_redis mem_empty k = -2"
  by (simp_all add: seat_views mem_defs)

lemma held_views [simp]:
  "seat_holder mem_redis held_redis s = (if s = 1 then Some ''ada'' else None)"
  "seat_marker mem_redis held_redis s = None"
  "hold_left mem_redis held_redis 1 = 120000"
  by (simp_all add: seat_views mem_defs held_redis_def)

lemma sample_coherent [simp]:
  "coherent mem_redis (mem_empty, sample_db)" "coherent mem_redis (held_redis, sample_db)"
  by (simp_all add: coherent_def)

lemma sample_hold:
  "\<exists>r ms. Hold mem_redis sample_service ok_hold 0 1 ''ada'' mem_empty = (r, Inr (OutcomeHeld, ms))"
  using mem.Hold_free [of mem_empty 1 sample_service ok_hold 0 "''ada''"] by (auto simp: ok_hold_def)

lemma sample_confirm:
  "\<exists>r d. Confirm mem_redis sample_service ok_confirm 1 ''ada'' (held_redis, sample_db) =
     ((r, d), Inr OutcomeConfirmed)"
proof -
  have "cn_owner ok_confirm = Answered 0" "cn_insert ok_confirm = Pg_ok"
    by (simp_all add: ok_confirm_def)
  from mem.Confirm_holder [OF _ _ _ this, of held_redis 1 "''ada''" sample_db sample_service]
  show ?thesis by simp
qed

section \<open>A run in which a seat is sold\<close>

text \<open>One request takes the next steps while the others stand still.\<close>

lemma run_request_steps:
  assumes "i < length (w_reqs w)" "w_reqs w ! i = q"
    and "run_request R sv fts (rq_seat q) (rq_session q) (rq_pc q, w_redis w, w_db w) = (p, r, d)"
  shows "(world_step R sv)\<^sup>*\<^sup>* w \<lparr>w_redis = r, w_db = d, w_reqs = (w_reqs w)[i := q\<lparr>rq_pc := p\<rparr>]\<rparr>"
  using assms
proof (induction fts arbitrary: w q)
  case Nil
  then show ?case by (cases w) (auto simp: list_update_same_conv)
next
  case (Cons ft fts)
  obtain p1 r1 d1 where s: "request_step R sv ft (rq_seat q) (rq_session q) (rq_pc q) (w_redis w, w_db w)
      = (p1, r1, d1)" by (cases "request_step R sv ft (rq_seat q) (rq_session q) (rq_pc q) (w_redis w, w_db w)")
  let ?w1 = "\<lparr>w_redis = r1, w_db = d1, w_reqs = (w_reqs w)[i := q\<lparr>rq_pc := p1\<rparr>]\<rparr>"
  have "world_step R sv w ?w1" by (rule world_step.advance [OF Cons.prems(1,2) s])
  moreover have "(world_step R sv)\<^sup>*\<^sup>* ?w1
      \<lparr>w_redis = r, w_db = d, w_reqs = (w_reqs ?w1)[i := (q\<lparr>rq_pc := p1\<rparr>)\<lparr>rq_pc := p\<rparr>]\<rparr>"
    by (rule Cons.IH) (use Cons.prems s in simp_all)
  ultimately show ?case by (simp add: converse_rtranclp_into_rtranclp)
qed

context redis
begin

lemma run_holder:
  assumes "seat_holder R r s = Some u" "booking_owner d s = None" "insertable d s (sv_eventID sv)"
  shows "run_request R sv (replicate 4 ok_fate) s u (PCheck, r, d) =
     (PDone (Inr OutcomeConfirmed),
      fst (Publish R (Answered 0) (booked_event sv s u) (marked R s u r)),
      d\<lparr>db_bookings := db_bookings d @
          [\<lparr>bk_seat_id = s, bk_event_id = sv_eventID sv, bk_session_id = u\<rparr>]\<rparr>)"
  using assms
  by (simp add: numeral_eq_Suc ok_fate_def HoldOwner_answered insert_booking_def insertable_def
      booking_owner_None MarkBooked_state)

lemma run_owner_again:
  assumes "seat_holder R r s = None" "booking_owner d s = Some u" "int4 s"
  shows "run_request R sv (replicate 4 ok_fate) s u (PCheck, r, d) =
     (PDone (Inr OutcomeAlreadyMine), r, d)"
  using assms
  by (simp add: numeral_eq_Suc ok_fate_def HoldOwner_answered BookingOwner_ok resolve_outcome_def)

end

definition start_world :: "mem_state world" where
  "start_world = \<lparr>w_redis = held_redis, w_db = sample_db, w_reqs =
     [\<lparr>rq_seat = 1, rq_session = ''ada'', rq_pc = PCheck\<rparr>,
      \<lparr>rq_seat = 1, rq_session = ''ada'', rq_pc = PCheck\<rparr>]\<rparr>"

definition after_first :: mem_state where
  "after_first = fst (Publish mem_redis (Answered 0) (booked_event sample_service 1 ''ada'')
     (marked mem_redis 1 ''ada'' held_redis))"

definition sold_world :: "mem_state world" where
  "sold_world = \<lparr>w_redis = after_first, w_db = sold_db, w_reqs =
     [\<lparr>rq_seat = 1, rq_session = ''ada'', rq_pc = PDone (Inr OutcomeConfirmed)\<rparr>,
      \<lparr>rq_seat = 1, rq_session = ''ada'', rq_pc = PDone (Inr OutcomeAlreadyMine)\<rparr>]\<rparr>"

lemma start_reachable: "reachable mem_redis sample_service start_world"
proof -
  let ?w = "\<lambda>qs. \<lparr>w_redis = held_redis, w_db = sample_db, w_reqs = qs\<rparr>"
  let ?q = "\<lparr>rq_seat = 1, rq_session = ''ada'', rq_pc = PCheck\<rparr>"
  have "reachable mem_redis sample_service (?w [])" by (rule reachable.start) simp_all
  then have "reachable mem_redis sample_service (?w [?q])"
    by (rule reachable.step) (use world_step.arrive [of PCheck mem_redis sample_service "?w []"] in simp)
  then have "reachable mem_redis sample_service (?w [?q, ?q])"
    by (rule reachable.step) (use world_step.arrive [of PCheck mem_redis sample_service "?w [?q]"] in simp)
  then show ?thesis by (simp add: start_world_def)
qed

lemma after_first_holder: "seat_holder mem_redis after_first 1 = None"
  by (simp add: after_first_def mem.Publish_views mem.marked_views)

lemma first_run:
  "run_request mem_redis sample_service (replicate 4 ok_fate) 1 ''ada'' (PCheck, held_redis, sample_db)
     = (PDone (Inr OutcomeConfirmed), after_first, sold_db)"
  by (simp add: mem.run_holder after_first_def) (simp add: sample_defs)

lemma second_run:
  "run_request mem_redis sample_service (replicate 4 ok_fate) 1 ''ada'' (PCheck, after_first, sold_db)
     = (PDone (Inr OutcomeAlreadyMine), after_first, sold_db)"
  by (simp add: mem.run_owner_again after_first_holder int4_def)

definition retry_world :: "mem_state world" where
  "retry_world = \<lparr>w_redis = after_first, w_db = sold_db, w_reqs =
     [\<lparr>rq_seat = 1, rq_session = ''ada'', rq_pc = PDone (Inr OutcomeConfirmed)\<rparr>,
      \<lparr>rq_seat = 1, rq_session = ''ada'', rq_pc = PCheck\<rparr>]\<rparr>"

lemma retry_run: "(world_step mem_redis sample_service)\<^sup>*\<^sup>* retry_world sold_world"
  using run_request_steps [of 1 retry_world "\<lparr>rq_seat = 1, rq_session = ''ada'', rq_pc = PCheck\<rparr>"
      mem_redis sample_service "replicate 4 ok_fate"] second_run
  by (simp add: sold_world_def retry_world_def)

lemma sold_run: "(world_step mem_redis sample_service)\<^sup>*\<^sup>* start_world sold_world"
proof (rule rtranclp_trans [OF _ retry_run])
  show "(world_step mem_redis sample_service)\<^sup>*\<^sup>* start_world retry_world"
    using run_request_steps [of 0 start_world "\<lparr>rq_seat = 1, rq_session = ''ada'', rq_pc = PCheck\<rparr>"
        mem_redis sample_service "replicate 4 ok_fate"] first_run
    by (simp add: start_world_def retry_world_def)
qed

lemma sold_reachable: "reachable mem_redis sample_service sold_world"
  by (rule reachable_run [OF sold_run start_reachable])

end
