(* ===== verification/Ratelimit.thy ===== *)
theory Ratelimit
  imports Go_Std
begin

text \<open>
  \<open>backend/ratelimit/ratelimit.go\<close>. The token buckets of \<open>golang.org/x/time/rate\<close> are a
  parameter: a constructor and the operation \<open>Allow\<close>. A \<open>*rate.Limiter\<close> is a pointer that
  the caller uses after the lock is released, so the limiters live in a heap of their own and
  a bucket holds an address.
\<close>

section \<open>The limiter package\<close>

text \<open>\<open>Allow\<close> at an instant (in nanoseconds) returns the limiter afterwards and the verdict.\<close>

record 'l rate_api =
  rate_new :: "rat \<Rightarrow> int \<Rightarrow> 'l"
  rate_allow :: "int \<Rightarrow> 'l \<Rightarrow> 'l \<times> bool"

section \<open>State\<close>

record bucket =
  bk_limiter :: nat
  bk_lastSeen :: int

record 'l limiter =
  lm_buckets :: "(string \<times> bucket) list"
  lm_rate :: rat
  lm_burst :: int
  lm_heap :: "'l list"

definition New :: "int \<Rightarrow> 'l limiter" where
  "New perMinute =
     (let perMinute = (if perMinute \<le> 0 then 60 else perMinute)
      in \<lparr>lm_buckets = [], lm_rate = of_int perMinute / 60, lm_burst = 10, lm_heap = []\<rparr>)"

section \<open>Operations\<close>

definition get :: "'l rate_api \<Rightarrow> int \<Rightarrow> string \<Rightarrow> 'l limiter \<Rightarrow> 'l limiter \<times> nat" where
  "get A now key l =
     (case map_of (lm_buckets l) key of
        None \<Rightarrow>
          (let a = length (lm_heap l)
           in (l\<lparr>lm_heap := lm_heap l @ [rate_new A (lm_rate l) (lm_burst l)],
                 lm_buckets := AList.update key \<lparr>bk_limiter = a, bk_lastSeen = now\<rparr> (lm_buckets l)\<rparr>, a))
      | Some b \<Rightarrow>
          (l\<lparr>lm_buckets := AList.update key (b\<lparr>bk_lastSeen := now\<rparr>) (lm_buckets l)\<rparr>, bk_limiter b))"

definition idle_limit :: int where
  "idle_limit = 10 * 60 * 1000000000"

text \<open>One tick of the cleanup loop.\<close>

definition cleanup :: "int \<Rightarrow> 'l limiter \<Rightarrow> 'l limiter" where
  "cleanup now l = l\<lparr>lm_buckets :=
     filter (\<lambda>(k, b). \<not> (now - bk_lastSeen b > idle_limit)) (lm_buckets l)\<rparr>"

text \<open>\<open>l.get(key).Allow()\<close>: the limiter behind the address is updated in place.\<close>

definition allow :: "'l rate_api \<Rightarrow> int \<Rightarrow> string \<Rightarrow> 'l limiter \<Rightarrow> 'l limiter \<times> bool" where
  "allow A now key l =
     (let (l1, a) = get A now key l; (x, ok) = rate_allow A now (lm_heap l1 ! a)
      in (l1\<lparr>lm_heap := (lm_heap l1)[a := x]\<rparr>, ok))"

subsection \<open>The key of a client\<close>

fun index_of :: "char \<Rightarrow> string \<Rightarrow> nat option" where
  "index_of c [] = None"
| "index_of c (x # xs) = (if x = c then Some 0 else map_option Suc (index_of c xs))"

fun last_index_of :: "char \<Rightarrow> string \<Rightarrow> nat option" where
  "last_index_of c [] = None"
| "last_index_of c (x # xs) =
     (case last_index_of c xs of
        Some i \<Rightarrow> Some (Suc i)
      | None \<Rightarrow> if x = c then Some 0 else None)"

text \<open>\<open>net.SplitHostPort\<close>, its host only; \<open>None\<close> is an error.\<close>

definition split_host :: "string \<Rightarrow> string option" where
  "split_host hp =
     (case last_index_of CHR '':'' hp of
        None \<Rightarrow> None
      | Some i \<Rightarrow>
          if hd hp = CHR ''['' then
            (case index_of CHR '']'' hp of
               None \<Rightarrow> None
             | Some e \<Rightarrow>
                 if e + 1 \<noteq> i then None
                 else if index_of CHR ''['' (drop 1 hp) \<noteq> None then None
                 else if index_of CHR '']'' (drop (e + 1) hp) \<noteq> None then None
                 else Some (drop 1 (take e hp)))
          else
            (let host = take i hp
             in if index_of CHR '':'' host \<noteq> None then None
                else if index_of CHR ''['' hp \<noteq> None then None
                else if index_of CHR '']'' hp \<noteq> None then None
                else Some host))"

text \<open>The headers \<open>X-Session-Id\<close> and \<open>X-Forwarded-For\<close> (empty when absent) and \<open>RemoteAddr\<close>.\<close>

record origin =
  og_session :: string
  og_forwarded :: string
  og_remote :: string

definition clientKey :: "origin \<Rightarrow> string" where
  "clientKey r =
     (if og_session r \<noteq> [] then ''sess:'' @ og_session r
      else if og_forwarded r \<noteq> [] then ''ip:'' @ og_forwarded r
      else case split_host (og_remote r) of
        None \<Rightarrow> ''ip:'' @ og_remote r
      | Some host \<Rightarrow> ''ip:'' @ host)"

text \<open>The wrapper around a handler: \<open>deny\<close> or \<open>next\<close>, never both.\<close>

definition Middleware ::
  "'l rate_api \<Rightarrow> ('s \<Rightarrow> 's \<times> 'resp) \<Rightarrow> ('s \<Rightarrow> 's \<times> 'resp) \<Rightarrow> int \<Rightarrow> origin
     \<Rightarrow> 'l limiter \<times> 's \<Rightarrow> ('l limiter \<times> 's) \<times> 'resp" where
  "Middleware A deny next now og = (\<lambda>(l, s).
     (case allow A now (clientKey og) l of
        (l', ok) \<Rightarrow>
          if \<not> ok then (case deny s of (s', resp) \<Rightarrow> ((l', s'), resp))
          else (case next s of (s', resp) \<Rightarrow> ((l', s'), resp))))"

section \<open>No two keys share a limiter\<close>

definition wf_limiter :: "'l limiter \<Rightarrow> bool" where
  "wf_limiter l \<longleftrightarrow> distinct_keys (lm_buckets l) \<and>
     (\<forall>k b. map_of (lm_buckets l) k = Some b \<longrightarrow> bk_limiter b < length (lm_heap l)) \<and>
     (\<forall>k k' b b'. map_of (lm_buckets l) k = Some b \<longrightarrow> map_of (lm_buckets l) k' = Some b' \<longrightarrow>
        bk_limiter b = bk_limiter b' \<longrightarrow> k = k')"

text \<open>What the limiter holds for one key: the token bucket itself and when it was last used.\<close>

definition entry_of :: "'l limiter \<Rightarrow> string \<Rightarrow> ('l \<times> int) option" where
  "entry_of l k = map_option (\<lambda>b. (lm_heap l ! bk_limiter b, bk_lastSeen b)) (map_of (lm_buckets l) k)"

lemma wf_New [simp]: "wf_limiter (New n)"
  by (simp add: wf_limiter_def New_def)

lemma map_of_filter_val:
  "distinct_keys m \<Longrightarrow> map_of (filter (\<lambda>(k, b). P b) m) k =
     (case map_of m k of None \<Rightarrow> None | Some b \<Rightarrow> if P b then Some b else None)"
proof (induction m)
  case (Cons x m)
  then have "fst x \<notin> set (keys m)" by simp
  then have "map_of m (fst x) = None" by (simp add: map_of_eq_None_iff)
  with Cons show ?case by (auto split: option.splits prod.splits)
qed simp

lemma cleanup_lookup:
  "wf_limiter l \<Longrightarrow> map_of (lm_buckets (cleanup now l)) k =
     (case map_of (lm_buckets l) k of None \<Rightarrow> None
      | Some b \<Rightarrow> if now - bk_lastSeen b > idle_limit then None else Some b)"
  by (auto simp: cleanup_def wf_limiter_def map_of_filter_val split: option.splits)

lemma wf_cleanup: "wf_limiter l \<Longrightarrow> wf_limiter (cleanup now l)"
proof -
  assume w: "wf_limiter l"
  have "distinct_keys (lm_buckets (cleanup now l))"
    using w by (auto simp: wf_limiter_def cleanup_def intro: distinct_map_filter)
  moreover have "lm_heap (cleanup now l) = lm_heap l" by (simp add: cleanup_def)
  ultimately show ?thesis
    using w unfolding wf_limiter_def cleanup_lookup [OF w]
    by (auto split: option.splits if_splits)
qed

lemma entry_cleanup:
  "wf_limiter l \<Longrightarrow> entry_of (cleanup now l) k =
     (case entry_of l k of None \<Rightarrow> None
      | Some (x, t) \<Rightarrow> if now - t > idle_limit then None else Some (x, t))"
proof -
  assume w: "wf_limiter l"
  have "lm_heap (cleanup now l) = lm_heap l" by (simp add: cleanup_def)
  then show ?thesis by (simp add: entry_of_def cleanup_lookup [OF w] split: option.splits)
qed

text \<open>The bucket of a key is the one found, or a new one at the end of the heap.\<close>

lemma get_cases:
  assumes "get A now k l = (l', a)"
  obtains (old) b where "map_of (lm_buckets l) k = Some b" "a = bk_limiter b"
      "l' = l\<lparr>lm_buckets := AList.update k (b\<lparr>bk_lastSeen := now\<rparr>) (lm_buckets l)\<rparr>"
    | (new) "map_of (lm_buckets l) k = None" "a = length (lm_heap l)"
      "l' = l\<lparr>lm_heap := lm_heap l @ [rate_new A (lm_rate l) (lm_burst l)],
          lm_buckets := AList.update k \<lparr>bk_limiter = a, bk_lastSeen = now\<rparr> (lm_buckets l)\<rparr>"
  using assms by (auto simp: get_def Let_def split: option.splits)

lemma wf_limiterI:
  assumes "\<And>k b. map_of (lm_buckets l) k = Some b \<Longrightarrow> bk_limiter b < length (lm_heap l)"
    and "\<And>k1 b1 k2 b2. map_of (lm_buckets l) k1 = Some b1 \<Longrightarrow> map_of (lm_buckets l) k2 = Some b2 \<Longrightarrow>
      bk_limiter b1 = bk_limiter b2 \<Longrightarrow> k1 = k2"
    and "distinct_keys (lm_buckets l)"
  shows "wf_limiter l"
  unfolding wf_limiter_def using assms by blast

lemma limiter_bound:
  "wf_limiter l \<Longrightarrow> map_of (lm_buckets l) k = Some b \<Longrightarrow> bk_limiter b < length (lm_heap l)"
  by (simp add: wf_limiter_def)

lemma limiter_apart:
  "wf_limiter l \<Longrightarrow> map_of (lm_buckets l) k = Some b \<Longrightarrow> map_of (lm_buckets l) k' = Some b'
    \<Longrightarrow> k \<noteq> k' \<Longrightarrow> bk_limiter b \<noteq> bk_limiter b'"
  by (auto simp: wf_limiter_def)

lemma apart_update:
  assumes apart: "\<And>k1 b1 k2 b2. m k1 = Some b1 \<Longrightarrow> m k2 = Some b2 \<Longrightarrow> k1 \<noteq> k2 \<Longrightarrow> f b1 \<noteq> f b2"
    and new: "\<And>k' c. m k' = Some c \<Longrightarrow> k' \<noteq> k \<Longrightarrow> f c \<noteq> f b"
    and k1: "(m(k \<mapsto> b)) k1 = Some b1" and k2: "(m(k \<mapsto> b)) k2 = Some b2" and eq: "f b1 = f b2"
  shows "k1 = k2"
proof (rule ccontr)
  assume ne: "k1 \<noteq> k2"
  consider "k1 = k" | "k2 = k" | "k1 \<noteq> k" "k2 \<noteq> k" by blast
  then show False
  proof cases
    case 1
    with k1 k2 ne have "b1 = b" "m k2 = Some b2" by simp_all
    with new [of k2 b2] 1 ne eq show False by simp
  next
    case 2
    with k1 k2 ne have "b2 = b" "m k1 = Some b1" by simp_all
    with new [of k1 b1] 2 ne eq show False by simp
  next
    case 3
    with k1 k2 apart [of k1 b1 k2 b2] ne eq show False by simp
  qed
qed

lemma wf_get:
  assumes w: "wf_limiter l" and g: "get A now k l = (l', a)"
  shows "wf_limiter l' \<and> a < length (lm_heap l') \<and>
    (\<exists>b. map_of (lm_buckets l') k = Some b \<and> bk_limiter b = a \<and> bk_lastSeen b = now)"
  using g
proof (cases rule: get_cases)
  case (old b)
  have m: "map_of (lm_buckets l') k' = (if k' = k then Some (b\<lparr>bk_lastSeen := now\<rparr>) else map_of (lm_buckets l) k')" for k'
    using old(3) by simp
  have "bk_limiter c < length (lm_heap l')" if "map_of (lm_buckets l') k' = Some c" for k' c
    using that limiter_bound [OF w old(1)] limiter_bound [OF w, of k'] old(3)
    by (auto simp: m split: if_splits)
  moreover have "k1 = k2" if "map_of (lm_buckets l') k1 = Some b1" "map_of (lm_buckets l') k2 = Some b2"
      "bk_limiter b1 = bk_limiter b2" for k1 k2 b1 b2
  proof (rule apart_update [where m = "map_of (lm_buckets l)" and f = bk_limiter and k = k
        and b = "b\<lparr>bk_lastSeen := now\<rparr>", OF limiter_apart [OF w]])
    show "((map_of (lm_buckets l))(k \<mapsto> (b\<lparr>bk_lastSeen := now\<rparr>))) k1 = Some b1"
      "((map_of (lm_buckets l))(k \<mapsto> (b\<lparr>bk_lastSeen := now\<rparr>))) k2 = Some b2"
      using that by (simp_all add: m)
  qed (use that limiter_apart [OF w _ old(1)] in simp_all)
  moreover have "distinct_keys (lm_buckets l')"
    using w old(3) by (simp add: wf_limiter_def distinct_update)
  ultimately have "wf_limiter l'" by (rule wf_limiterI)
  then show ?thesis using old limiter_bound [OF w old(1)] by simp
next
  case new
  have m: "map_of (lm_buckets l') k' = (if k' = k then Some \<lparr>bk_limiter = a, bk_lastSeen = now\<rparr> else map_of (lm_buckets l) k')" for k'
    using new(3) by simp
  have n: "bk_limiter c \<noteq> a" if "map_of (lm_buckets l) k' = Some c" for k' c
    using limiter_bound [OF w that] new(2) by simp
  have "bk_limiter c < length (lm_heap l')" if "map_of (lm_buckets l') k' = Some c" for k' c
    using that limiter_bound [OF w, of k' c] new(2,3)
    by (auto simp: m split: if_splits)
  moreover have "k1 = k2" if "map_of (lm_buckets l') k1 = Some b1" "map_of (lm_buckets l') k2 = Some b2"
      "bk_limiter b1 = bk_limiter b2" for k1 k2 b1 b2
  proof (rule apart_update [where m = "map_of (lm_buckets l)" and f = bk_limiter and k = k
        and b = "\<lparr>bk_limiter = a, bk_lastSeen = now\<rparr>", OF limiter_apart [OF w]])
    show "((map_of (lm_buckets l))(k \<mapsto> \<lparr>bk_limiter = a, bk_lastSeen = now\<rparr>)) k1 = Some b1"
      "((map_of (lm_buckets l))(k \<mapsto> \<lparr>bk_limiter = a, bk_lastSeen = now\<rparr>)) k2 = Some b2"
      using that by (simp_all add: m)
  qed (use that n in simp_all)
  moreover have "distinct_keys (lm_buckets l')"
    using w new(3) by (simp add: wf_limiter_def distinct_update)
  ultimately have "wf_limiter l'" by (rule wf_limiterI)
  then show ?thesis using new by simp
qed

lemma entry_get:
  assumes w: "wf_limiter l" and g: "get A now k l = (l', a)"
  shows "lm_heap l' ! a = (case entry_of l k of Some (x, t) \<Rightarrow> x | None \<Rightarrow> rate_new A (lm_rate l) (lm_burst l))"
    and "k' \<noteq> k \<Longrightarrow> entry_of l' k' = entry_of l k'"
    and "lm_rate l' = lm_rate l" "lm_burst l' = lm_burst l"
proof -
  show "k' \<noteq> k \<Longrightarrow> entry_of l' k' = entry_of l k'"
    using g
  proof (cases rule: get_cases)
    case new
    assume "k' \<noteq> k"
    with new limiter_bound [OF w, of k'] show ?thesis
      by (cases "map_of (lm_buckets l) k'") (simp_all add: entry_of_def nth_append)
  qed (simp add: entry_of_def)
next
  show "lm_heap l' ! a = (case entry_of l k of Some (x, t) \<Rightarrow> x | None \<Rightarrow> rate_new A (lm_rate l) (lm_burst l))"
    using g by (cases rule: get_cases) (simp_all add: entry_of_def)
  show "lm_rate l' = lm_rate l" "lm_burst l' = lm_burst l"
    using g by (cases rule: get_cases; simp)+
qed

text \<open>A request reads and writes the entry of its own key and no other.\<close>

lemma allow_entry:
  assumes w: "wf_limiter l" and a: "allow A now k l = (l', ok)"
  defines "x \<equiv> case entry_of l k of Some (x, t) \<Rightarrow> x | None \<Rightarrow> rate_new A (lm_rate l) (lm_burst l)"
  shows "wf_limiter l'" "lm_rate l' = lm_rate l" "lm_burst l' = lm_burst l"
    "entry_of l' k = Some (fst (rate_allow A now x), now)" "ok = snd (rate_allow A now x)"
    "k' \<noteq> k \<Longrightarrow> entry_of l' k' = entry_of l k'"
proof -
  obtain l1 b where g: "get A now k l = (l1, b)" by fastforce
  note w1 = wf_get [OF w g] and e1 = entry_get [OF w g]
  obtain y where y: "rate_allow A now x = (y, ok)" "l' = l1\<lparr>lm_heap := (lm_heap l1)[b := y]\<rparr>"
    using a g e1(1) by (auto simp: allow_def x_def split: prod.splits)
  from w1 y(2) show "wf_limiter l'" by (auto simp: wf_limiter_def)
  from e1 y(2) show "lm_rate l' = lm_rate l" "lm_burst l' = lm_burst l" by simp_all
  from y(1) show "ok = snd (rate_allow A now x)" by simp
  from w1 y show "entry_of l' k = Some (fst (rate_allow A now x), now)"
    by (auto simp: entry_of_def)
  assume "k' \<noteq> k"
  have "bk_limiter bb \<noteq> b" if "map_of (lm_buckets l1) k' = Some bb" for bb
    using w1 limiter_apart [OF _ that, of k] \<open>k' \<noteq> k\<close> by auto
  then have "entry_of l' k' = entry_of l1 k'"
    using y(2) by (cases "map_of (lm_buckets l1) k'") (simp_all add: entry_of_def)
  with e1(2) \<open>k' \<noteq> k\<close> show "entry_of l' k' = entry_of l k'" by simp
qed

section \<open>Runs of requests and cleanups\<close>

datatype limit_event = Request string | Cleanup

text \<open>Events with their instants; a request leaves a verdict under its key.\<close>

fun run_limiter :: "'l rate_api \<Rightarrow> (int \<times> limit_event) list \<Rightarrow> 'l limiter \<Rightarrow> 'l limiter \<times> (string \<times> bool) list" where
  "run_limiter A [] l = (l, [])"
| "run_limiter A ((now, Cleanup) # evs) l = run_limiter A evs (cleanup now l)"
| "run_limiter A ((now, Request k) # evs) l =
     (case allow A now k l of
        (l1, ok) \<Rightarrow> (case run_limiter A evs l1 of (l2, vs) \<Rightarrow> (l2, (k, ok) # vs)))"

definition verdicts_of :: "string \<Rightarrow> (string \<times> bool) list \<Rightarrow> bool list" where
  "verdicts_of k vs = map snd (filter (\<lambda>(k', ok). k' = k) vs)"

lemma verdicts_of_simps [simp]:
  "verdicts_of k [] = []"
  "verdicts_of k ((k', ok) # vs) = (if k' = k then ok # verdicts_of k vs else verdicts_of k vs)"
  by (simp_all add: verdicts_of_def)

definition concerns :: "string \<Rightarrow> limit_event \<Rightarrow> bool" where
  "concerns k e \<longleftrightarrow> (case e of Cleanup \<Rightarrow> True | Request k' \<Rightarrow> k' = k)"

text \<open>The same run seen from one entry.\<close>

fun run_entry :: "'l rate_api \<Rightarrow> rat \<Rightarrow> int \<Rightarrow> (int \<times> limit_event) list \<Rightarrow> ('l \<times> int) option \<Rightarrow> bool list" where
  "run_entry A r b [] e = []"
| "run_entry A r b ((now, Cleanup) # evs) e =
     run_entry A r b evs
       (case e of None \<Rightarrow> None | Some (x, t) \<Rightarrow> if now - t > idle_limit then None else Some (x, t))"
| "run_entry A r b ((now, Request k) # evs) e =
     (case rate_allow A now (case e of Some (x, t) \<Rightarrow> x | None \<Rightarrow> rate_new A r b) of
        (x, ok) \<Rightarrow> ok # run_entry A r b evs (Some (x, now)))"

lemma run_limiter_entry:
  "wf_limiter l \<Longrightarrow> verdicts_of k (snd (run_limiter A evs l)) =
     run_entry A (lm_rate l) (lm_burst l) (filter (\<lambda>(t, e). concerns k e) evs) (entry_of l k)"
proof (induction A evs l rule: run_limiter.induct)
  case (2 A now evs l)
  have "lm_rate (cleanup now l) = lm_rate l" "lm_burst (cleanup now l) = lm_burst l"
    by (simp_all add: cleanup_def)
  with 2 show ?case by (simp add: wf_cleanup entry_cleanup concerns_def)
next
  case (3 A now k' evs l)
  obtain l1 ok where a: "allow A now k' l = (l1, ok)" by fastforce
  note e = allow_entry [OF 3(2) a]
  have IH: "verdicts_of k (snd (run_limiter A evs l1)) =
     run_entry A (lm_rate l) (lm_burst l) (filter (\<lambda>(t, e). concerns k e) evs) (entry_of l1 k)"
    using 3(1) [OF a [symmetric] e(1)] e(2,3) by simp
  show ?case
  proof (cases "k' = k")
    case True
    obtain y ok' where y: "rate_allow A now (case entry_of l k of Some (x, t) \<Rightarrow> x
        | None \<Rightarrow> rate_new A (lm_rate l) (lm_burst l)) = (y, ok')" by fastforce
    with True a e(4,5) IH show ?thesis
      by (cases "run_limiter A evs l1") (simp add: concerns_def)
  next
    case False
    with a e(6) [of k] IH show ?thesis
      by (cases "run_limiter A evs l1") (simp add: concerns_def)
  qed
qed simp

section \<open>The contract of the limiter package\<close>

text \<open>The documentation of \<open>rate.Limiter\<close>: a bucket of \<open>Burst()\<close> tokens, initially full,
  refilled at \<open>Limit()\<close> tokens per second; \<open>TokensAt\<close> reads the tokens, and \<open>Allow\<close> takes one
  when there is one. Tokens are exact fractions here.\<close>

definition nanos :: rat where
  "nanos = 1000000000"

locale token_bucket =
  fixes A :: "'l rate_api"
    and limit_of :: "'l \<Rightarrow> rat"
    and burst_of :: "'l \<Rightarrow> int"
    and tokens_at :: "'l \<Rightarrow> int \<Rightarrow> rat"
  assumes limit_new: "limit_of (rate_new A r b) = r"
    and burst_new: "burst_of (rate_new A r b) = b"
    and new_full: "tokens_at (rate_new A r b) t = of_int b"
    and limit_allow: "limit_of (fst (rate_allow A t x)) = limit_of x"
    and burst_allow: "burst_of (fst (rate_allow A t x)) = burst_of x"
    and allow_iff: "snd (rate_allow A t x) \<longleftrightarrow> 1 \<le> tokens_at x t"
    and taken: "t \<le> t' \<Longrightarrow> tokens_at (fst (rate_allow A t x)) t' =
      min (of_int (burst_of x))
        ((if 1 \<le> tokens_at x t then tokens_at x t - 1 else tokens_at x t)
          + limit_of x * of_int (t' - t) / nanos)"

text \<open>A bucket of its own for every key, never dropped: the tokens after the last request and
  its instant, or \<open>None\<close> before the first.\<close>

type_synonym level = "(rat \<times> int) option"

definition level_at :: "rat \<Rightarrow> int \<Rightarrow> level \<Rightarrow> int \<Rightarrow> rat" where
  "level_at r b s t =
     (case s of None \<Rightarrow> of_int b
      | Some (c, u) \<Rightarrow> min (of_int b) (c + r * of_int (t - u) / nanos))"

definition level_take :: "rat \<Rightarrow> int \<Rightarrow> int \<Rightarrow> level \<Rightarrow> level \<times> bool" where
  "level_take r b t s =
     (let c = level_at r b s t in (Some (if 1 \<le> c then c - 1 else c, t), 1 \<le> c))"

fun run_level :: "rat \<Rightarrow> int \<Rightarrow> level \<Rightarrow> int list \<Rightarrow> bool list" where
  "run_level r b s [] = []"
| "run_level r b s (t # ts) = (case level_take r b t s of (s', ok) \<Rightarrow> ok # run_level r b s' ts)"

text \<open>The package as documented, on that state.\<close>

record tb_limiter =
  tb_limit :: rat
  tb_burst :: int
  tb_level :: level

definition tb_tokens_at :: "tb_limiter \<Rightarrow> int \<Rightarrow> rat" where
  "tb_tokens_at x t = level_at (tb_limit x) (tb_burst x) (tb_level x) t"

definition tb_allow :: "int \<Rightarrow> tb_limiter \<Rightarrow> tb_limiter \<times> bool" where
  "tb_allow t x = (case level_take (tb_limit x) (tb_burst x) t (tb_level x) of
     (s, ok) \<Rightarrow> (x\<lparr>tb_level := s\<rparr>, ok))"

definition tb_api :: "tb_limiter rate_api" where
  "tb_api = \<lparr>rate_new = \<lambda>r b. \<lparr>tb_limit = r, tb_burst = b, tb_level = None\<rparr>, rate_allow = tb_allow\<rparr>"

interpretation tb: token_bucket tb_api tb_limit tb_burst tb_tokens_at
  by unfold_locales
    (simp_all add: tb_api_def tb_allow_def tb_tokens_at_def level_take_def level_at_def Let_def)

section \<open>Dropping idle buckets cannot be observed\<close>

lemma level_full:
  assumes "of_int b \<le> r * of_int idle_limit / nanos" "0 \<le> c" "0 \<le> r" "idle_limit \<le> t - u"
  shows "level_at r b (Some (c, u)) t = of_int b"
proof -
  have "r * of_int idle_limit / nanos \<le> r * of_int (t - u) / nanos"
    using assms by (intro divide_right_mono mult_left_mono) (simp_all add: nanos_def)
  with assms(1,2) show ?thesis by (simp add: level_at_def)
qed

lemma level_nonneg:
  "0 \<le> b \<Longrightarrow> 0 \<le> r \<Longrightarrow> (case s of None \<Rightarrow> True | Some (c, u) \<Rightarrow> 0 \<le> c \<and> u \<le> t) \<Longrightarrow> 0 \<le> level_at r b s t"
  by (auto simp: level_at_def nanos_def split: option.split)

definition request_times :: "string \<Rightarrow> (int \<times> limit_event) list \<Rightarrow> int list" where
  "request_times k evs = map fst (filter (\<lambda>(t, e). e = Request k) evs)"

lemma request_times_simps [simp]:
  "request_times k [] = []"
  "request_times k ((t, Cleanup) # evs) = request_times k evs"
  "request_times k ((t, Request k') # evs) =
     (if k' = k then t # request_times k evs else request_times k evs)"
  by (simp_all add: request_times_def)

lemma request_times_append:
  "request_times k (evs @ evs') = request_times k evs @ request_times k evs'"
  by (simp add: request_times_def)

context token_bucket
begin

text \<open>An entry and the level it stands for: the same tokens at every later instant.\<close>

definition tracks :: "rat \<Rightarrow> int \<Rightarrow> int \<Rightarrow> ('l \<times> int) option \<Rightarrow> level \<Rightarrow> bool" where
  "tracks r b now e s \<longleftrightarrow>
     (\<forall>t\<ge>now. (case e of None \<Rightarrow> of_int b | Some (x, u) \<Rightarrow> tokens_at x t) = level_at r b s t) \<and>
     (case e of None \<Rightarrow> True
      | Some (x, u) \<Rightarrow> limit_of x = r \<and> burst_of x = b \<and> u \<le> now \<and> (\<exists>c. s = Some (c, u) \<and> 0 \<le> c))"

lemma tracks_request:
  assumes tr: "tracks r b now e s" and t: "now \<le> t" and pos: "0 \<le> b" "0 \<le> r"
    and a: "rate_allow A t (case e of Some (x, u) \<Rightarrow> x | None \<Rightarrow> rate_new A r b) = (y, ok)"
    and l: "level_take r b t s = (s', ok')"
  shows "ok = ok' \<and> tracks r b t (Some (y, t)) s'"
proof -
  define x where "x = (case e of Some (x, u) \<Rightarrow> x | None \<Rightarrow> rate_new A r b)"
  have x: "limit_of x = r" "burst_of x = b" "tokens_at x t = level_at r b s t"
    using tr t by (auto simp: x_def tracks_def limit_new burst_new new_full split: option.splits)
  have "0 \<le> level_at r b s t"
  proof (cases e)
    case None
    with tr t have "level_at r b s t = of_int b" by (simp add: tracks_def)
    with pos show ?thesis by simp
  next
    case (Some p)
    with tr t show ?thesis
      by (cases p) (intro level_nonneg pos, auto simp: tracks_def)
  qed
  moreover have "y = fst (rate_allow A t x)" "ok = snd (rate_allow A t x)"
    using a by (simp_all add: x_def)
  ultimately show ?thesis
    using l x by (auto simp: tracks_def level_take_def level_at_def Let_def allow_iff taken
        limit_allow burst_allow)
qed

lemma tracks_later: "tracks r b now e s \<Longrightarrow> now \<le> t \<Longrightarrow> tracks r b t e s"
  by (auto simp: tracks_def split: option.splits)

lemma tracks_cleanup:
  assumes tr: "tracks r b now e s" and t: "now \<le> t" and r: "0 \<le> r"
    and full: "of_int b \<le> r * of_int idle_limit / nanos"
  shows "tracks r b t (case e of None \<Rightarrow> None
    | Some (x, u) \<Rightarrow> if t - u > idle_limit then None else Some (x, u)) s"
proof (cases "\<exists>x u. e = Some (x, u) \<and> t - u > idle_limit")
  case True
  then obtain x u where e: "e = Some (x, u)" "t - u > idle_limit" by blast
  with tr obtain c where "s = Some (c, u)" "0 \<le> c" by (auto simp: tracks_def)
  with e level_full [OF full _ r] show ?thesis by (auto simp: tracks_def)
next
  case False
  with tracks_later [OF tr t] show ?thesis by (auto split: option.splits)
qed

lemma run_entry_level:
  assumes full: "of_int b \<le> r * of_int idle_limit / nanos" and pos: "0 \<le> b" "0 \<le> r"
  shows "sorted (now # map fst evs) \<Longrightarrow> tracks r b now e s \<Longrightarrow>
    run_entry A r b (filter (\<lambda>(t, e). concerns k e) evs) e = run_level r b s (request_times k evs)"
proof (induction evs arbitrary: now e s)
  case (Cons ev evs)
  obtain t x where ev: "ev = (t, x)" by fastforce
  with Cons.prems(1) have le: "now \<le> t" and srt: "sorted (t # map fst evs)" by auto
  show ?case
  proof (cases "concerns k x")
    case False
    with ev show ?thesis
      using Cons.IH [OF srt tracks_later [OF Cons.prems(2) le]]
      by (cases x) (auto simp: concerns_def)
  next
    case True
    show ?thesis
    proof (cases x)
      case Cleanup
      then show ?thesis
        using ev True Cons.IH [OF srt tracks_cleanup [OF Cons.prems(2) le pos(2) full]] by simp
    next
      case (Request k')
      with True have k': "k' = k" by (simp add: concerns_def)
      obtain y ok where a: "rate_allow A t (case e of Some (x, u) \<Rightarrow> x | None \<Rightarrow> rate_new A r b) = (y, ok)"
        by fastforce
      obtain s' ok' where l: "level_take r b t s = (s', ok')" by fastforce
      note step = tracks_request [OF Cons.prems(2) le pos a l]
      show ?thesis
        using ev Request k' True a l step Cons.IH [OF srt conjunct2 [OF step]] by simp
    qed
  qed
qed simp

text \<open>The limiter of the code decides as the per-key buckets do.\<close>

lemma run_limiter_level:
  assumes "sorted (map fst evs)"
  shows "verdicts_of k (snd (run_limiter A evs (New n))) =
    run_level (of_int (if n \<le> 0 then 60 else n) / 60) 10 None (request_times k evs)"
proof -
  define r :: rat where "r = of_int (if n \<le> 0 then 60 else n) / 60"
  have "1 / 60 \<le> r" by (simp add: r_def)
  then have r: "(10::rat) \<le> r * of_int idle_limit / nanos" "0 \<le> r"
    by (simp_all add: idle_limit_def nanos_def)
  obtain now where "sorted (now # map fst evs)"
    using assms by (cases evs) auto
  moreover have "tracks r 10 now None None" by (simp add: tracks_def level_at_def)
  ultimately show ?thesis
    using run_entry_level [of 10 r now evs None None k] r
      run_limiter_entry [OF wf_New, of k A evs n]
    by (simp add: New_def Let_def entry_of_def r_def)
qed

end

subsection \<open>How much a client gets\<close>

definition admitted :: "bool list \<Rightarrow> nat" where
  "admitted vs = length (filter id vs)"

lemma admitted_simps [simp]:
  "admitted [] = 0" "admitted (True # vs) = Suc (admitted vs)" "admitted (False # vs) = admitted vs"
  by (simp_all add: admitted_def)

lemma run_level_bound:
  "sorted (t # ts) \<Longrightarrow> 0 \<le> b \<Longrightarrow> 0 \<le> r \<Longrightarrow>
   (case s of None \<Rightarrow> True | Some (c, u) \<Rightarrow> 0 \<le> c \<and> u \<le> t) \<Longrightarrow>
   of_nat (admitted (run_level r b s (t # ts))) \<le> level_at r b s t + r * of_int (last (t # ts) - t) / nanos"
proof (induction ts arbitrary: t s)
  case Nil
  then show ?case
    using level_nonneg [where b = b and r = r and s = s and t = t] by (cases "1 \<le> level_at r b s t") (auto simp: level_take_def Let_def)
next
  case (Cons t' ts)
  define c where "c = level_at r b s t"
  define c' where "c' = (if 1 \<le> c then c - 1 else c)"
  have c: "0 \<le> c'" using level_nonneg [where b = b and r = r and s = s and t = t] Cons.prems by (simp add: c_def c'_def)
  have take: "level_take r b t s = (Some (c', t), 1 \<le> c)"
    by (simp add: level_take_def c_def c'_def Let_def)
  have IH: "of_nat (admitted (run_level r b (Some (c', t)) (t' # ts))) \<le>
      level_at r b (Some (c', t)) t' + r * of_int (last (t' # ts) - t') / nanos"
    using Cons c by (intro Cons.IH) auto
  have "level_at r b (Some (c', t)) t' \<le> c' + r * of_int (t' - t) / nanos"
    by (simp add: level_at_def)
  moreover have "r * of_int (t' - t) / nanos + r * of_int (last (t' # ts) - t') / nanos =
      r * of_int (last (t' # ts) - t) / nanos"
    by (simp add: nanos_def algebra_simps diff_divide_distrib add_divide_distrib)
  ultimately have "of_nat (admitted (run_level r b (Some (c', t)) (t' # ts))) \<le>
      c' + r * of_int (last (t' # ts) - t) / nanos"
    using IH by linarith
  then show ?case
    by (simp add: take c_def [symmetric] c'_def split: if_splits)
qed

lemma run_level_append:
  "\<exists>s'. run_level r b s (ts @ ts') = run_level r b s ts @ run_level r b s' ts' \<and>
    (ts = [] \<longrightarrow> s' = s) \<and>
    (sorted ts \<longrightarrow> ts \<noteq> [] \<longrightarrow> 0 \<le> b \<longrightarrow> 0 \<le> r \<longrightarrow>
       (case s of None \<Rightarrow> True | Some (c, u) \<Rightarrow> 0 \<le> c \<and> u \<le> hd ts) \<longrightarrow>
       (\<exists>c. s' = Some (c, last ts) \<and> 0 \<le> c))"
proof (induction ts arbitrary: s)
  case (Cons t ts)
  obtain s1 ok where l: "level_take r b t s = (s1, ok)" by fastforce
  obtain s' where s': "run_level r b s1 (ts @ ts') = run_level r b s1 ts @ run_level r b s' ts'"
    "ts = [] \<longrightarrow> s' = s1"
    "sorted ts \<longrightarrow> ts \<noteq> [] \<longrightarrow> 0 \<le> b \<longrightarrow> 0 \<le> r \<longrightarrow>
       (case s1 of None \<Rightarrow> True | Some (c, u) \<Rightarrow> 0 \<le> c \<and> u \<le> hd ts) \<longrightarrow>
       (\<exists>c. s' = Some (c, last ts) \<and> 0 \<le> c)"
    using Cons.IH [of s1] by blast
  have lvl: "\<exists>c. s1 = Some (c, t) \<and> 0 \<le> c" if "0 \<le> b" "0 \<le> r"
      "case s of None \<Rightarrow> True | Some (c, u) \<Rightarrow> 0 \<le> c \<and> u \<le> t"
    using l level_nonneg [OF that] by (auto simp: level_take_def Let_def)
  show ?case
  proof (rule exI [of _ s'], intro conjI impI)
    show "run_level r b s ((t # ts) @ ts') = run_level r b s (t # ts) @ run_level r b s' ts'"
      using l s'(1) by simp
    assume srt: "sorted (t # ts)" and pos: "0 \<le> b" "0 \<le> r"
      and s: "case s of None \<Rightarrow> True | Some (c, u) \<Rightarrow> 0 \<le> c \<and> u \<le> hd (t # ts)"
    have "\<exists>c. s1 = Some (c, t) \<and> 0 \<le> c" by (rule lvl [OF pos]) (use s in \<open>simp only: list.sel\<close>)
    then obtain c where c: "s1 = Some (c, t)" "0 \<le> c" by blast
    show "\<exists>c. s' = Some (c, last (t # ts)) \<and> 0 \<le> c"
    proof (cases ts)
      case Nil
      with s'(2) c show ?thesis by simp
    next
      case (Cons t' ts'')
      with srt have "sorted ts" "t \<le> hd ts" by simp_all
      with s'(3) c pos Cons show ?thesis by simp
    qed
  qed simp
qed simp

lemma run_level_window:
  assumes srt: "sorted (ts @ t # ts')" and pos: "0 \<le> b" "0 \<le> r"
  shows "of_nat (admitted (drop (length ts) (run_level r b None (ts @ t # ts')))) \<le>
    of_int b + r * of_int (last (t # ts') - t) / nanos"
proof -
  obtain s' where s': "run_level r b None (ts @ t # ts') = run_level r b None ts @ run_level r b s' (t # ts')"
    "ts = [] \<longrightarrow> s' = None" "ts \<noteq> [] \<longrightarrow> (\<exists>c. s' = Some (c, last ts) \<and> 0 \<le> c)"
    using run_level_append [of r b None ts "t # ts'"] srt pos by (auto simp: sorted_append)
  have len: "length (run_level r b s ts) = length ts" for s
    by (induction ts arbitrary: s) (auto split: prod.split)
  have "last ts \<le> t" if "ts \<noteq> []" using srt that by (auto simp: sorted_append)
  with s'(2,3) have st: "case s' of None \<Rightarrow> True | Some (c, u) \<Rightarrow> 0 \<le> c \<and> u \<le> t"
    by (cases "ts = []") auto
  have "level_at r b s' t \<le> of_int b" by (simp add: level_at_def split: option.split prod.split)
  with run_level_bound [OF _ pos st, of ts'] srt s'(1) len show ?thesis
    by (fastforce simp: sorted_append)
qed

lemma sorted_request_times: "sorted (map fst evs) \<Longrightarrow> sorted (request_times k evs)"
proof (induction evs)
  case (Cons ev evs)
  then show ?case by (cases ev; cases "snd ev") (auto simp: request_times_def)
qed simp

section \<open>Properties\<close>

text \<open>Who a request is limited as.\<close>

datatype client_id = Session string | Address string

definition client_of :: "origin \<Rightarrow> client_id" where
  "client_of r =
     (if og_session r \<noteq> [] then Session (og_session r)
      else if og_forwarded r \<noteq> [] then Address (og_forwarded r)
      else Address (case split_host (og_remote r) of None \<Rightarrow> og_remote r | Some host \<Rightarrow> host))"

text \<open>The verdicts of one client key do not depend on the traffic of any other key: they are
  the verdicts of the run that holds only its own requests and the cleanup ticks, whatever
  the limiter package does.\<close>

lemma limiter_isolation:
  "verdicts_of k (snd (run_limiter A evs (New perMinute))) =
     verdicts_of k (snd (run_limiter A (filter (\<lambda>(t, e). concerns k e) evs) (New perMinute)))"
  by (simp add: run_limiter_entry [OF wf_New])

text \<open>C17: cleanup cannot be observed. With a limiter package that does what it documents, the
  verdicts for a key are those of a token bucket of its own that is never dropped, of ten
  tokens and \<open>perMinute / 60\<close> tokens per second.\<close>

theorem limiter_token_bucket:
  assumes "token_bucket A limit burst tokens" and "sorted (map fst evs)"
  shows "verdicts_of k (snd (run_limiter A evs (New perMinute))) =
    run_level (of_int (if perMinute \<le> 0 then 60 else perMinute) / 60) 10 None (request_times k evs)"
  by (rule token_bucket.run_limiter_level [OF assms])

text \<open>Twelve requests at once, then one after the bucket was dropped.\<close>

theorem limiter_token_bucket_witness:
  "verdicts_of ''k'' (snd (run_limiter tb_api
      (replicate 12 (0, Request ''k'') @ [(700 * 1000000000, Cleanup), (700 * 1000000000, Request ''k'')])
      (New 60))) = replicate 10 True @ [False, False, True]"
  by (subst limiter_token_bucket [OF tb.token_bucket_axioms])
    (simp_all add: eval_nat_numeral level_take_def level_at_def nanos_def)

text \<open>C18: over any stretch of a run, a client is let through at most ten times plus
  \<open>perMinute / 60\<close> times per second between the first and the last request of the stretch.\<close>

theorem limiter_window:
  assumes "token_bucket A limit burst tokens" and "sorted (map fst (evs @ evs'))"
    and "request_times k evs' = t # ts"
  shows "of_nat (admitted (drop (length (request_times k evs))
      (verdicts_of k (snd (run_limiter A (evs @ evs') (New perMinute)))))) \<le>
    10 + of_int (if perMinute \<le> 0 then 60 else perMinute) / 60 * of_int (last (t # ts) - t) / nanos"
proof -
  have "sorted (request_times k evs @ t # ts)"
    using sorted_request_times [OF assms(2), of k] assms(3) by (simp add: request_times_append)
  from run_level_window [OF this, of 10 "of_int (if perMinute \<le> 0 then 60 else perMinute) / 60"]
  show ?thesis
    by (simp add: token_bucket.run_limiter_level [OF assms(1,2)] request_times_append assms(3))
qed

theorem limiter_window_witness:
  "of_nat (admitted (verdicts_of ''k'' (snd (run_limiter tb_api
      (replicate 40 (0, Request ''k'') @ [(1000000000, Request ''k'')]) (New 60))))) \<le> (11::rat)"
proof -
  have "request_times ''k'' (replicate 40 (0, Request ''k'') @ [(1000000000, Request ''k'')]) =
      0 # (replicate 39 0 @ [1000000000])"
    by (simp add: eval_nat_numeral)
  from limiter_window [OF tb.token_bucket_axioms _ this, of "[]" 60] show ?thesis
    by (simp add: nanos_def sorted_append)
qed

text \<open>The key is an unambiguous name of the client: the session id where one is sent and the
  address otherwise, so a session never shares a bucket with an address or another session.\<close>

theorem clientKey_names_client:
  "clientKey a = clientKey b \<longleftrightarrow> client_of a = client_of b"
  by (auto simp: clientKey_def client_of_def split: option.splits)

end
