(* ===== verification/Ws.thy ===== *)
theory Ws
  imports Go_Std
begin

text \<open>
  \<open>backend/ws\<close>: the hub of one backend instance, its clients and their two pumps. A client is
  its address; its \<open>send\<close> channel lives in a heap under that address. Sending on a closed
  channel and closing one twice are panics, kept as values. The websocket connection itself is a
  parameter: a frame is written or the write fails, and a read returns or fails. The goroutines
  that run these operations are in \<open>Ws_Run\<close>.
\<close>

section \<open>Buffered channels\<close>

datatype go_panic = Send_on_closed | Close_of_closed

record 'm chan =
  ch_buf :: "'m list"
  ch_closed :: bool

definition sendBufferSize :: nat where
  "sendBufferSize = 64"

definition make_chan :: "'m chan" where
  "make_chan = \<lparr>ch_buf = [], ch_closed = False\<rparr>"

text \<open>A \<open>select\<close> of one send and a \<open>default\<close>: the flag tells whether the send was chosen.\<close>

definition try_send :: "'m \<Rightarrow> 'm chan \<Rightarrow> (go_panic, 'm chan \<times> bool) result" where
  "try_send m ch =
     (if ch_closed ch then Inl Send_on_closed
      else if length (ch_buf ch) < sendBufferSize then Inr (ch\<lparr>ch_buf := ch_buf ch @ [m]\<rparr>, True)
      else Inr (ch, False))"

definition close_chan :: "'m chan \<Rightarrow> (go_panic, 'm chan) result" where
  "close_chan ch = (if ch_closed ch then Inl Close_of_closed else Inr (ch\<lparr>ch_closed := True\<rparr>))"

text \<open>A receive; \<open>Closed\<close> is the zero value with \<open>ok = false\<close>, \<open>Blocks\<close> an empty open channel.\<close>

datatype 'm received = Received 'm | Closed | Blocks

definition receive :: "'m chan \<Rightarrow> 'm chan \<times> 'm received" where
  "receive ch = (case ch_buf ch of
     m # ms \<Rightarrow> (ch\<lparr>ch_buf := ms\<rparr>, Received m)
   | [] \<Rightarrow> (ch, if ch_closed ch then Closed else Blocks))"

section \<open>The hub\<close>

text \<open>\<open>hb_clients\<close> is the set of clients; \<open>hb_chans\<close> the heap of their channels.\<close>

record 'm hub =
  hb_clients :: "nat list"
  hb_chans :: "'m chan list"

definition NewHub :: "'m hub" where
  "NewHub = \<lparr>hb_clients = [], hb_chans = []\<rparr>"

definition add :: "nat \<Rightarrow> 'm hub \<Rightarrow> 'm hub" where
  "add c h = h\<lparr>hb_clients := List.insert c (hb_clients h)\<rparr>"

definition remove :: "nat \<Rightarrow> 'm hub \<Rightarrow> (go_panic, 'm hub) result" where
  "remove c h =
     (if c \<in> set (hb_clients h) then
        (case close_chan (hb_chans h ! c) of
           Inl p \<Rightarrow> Inl p
         | Inr ch \<Rightarrow> Inr (h\<lparr>hb_clients := removeAll c (hb_clients h), hb_chans := (hb_chans h)[c := ch]\<rparr>))
      else Inr h)"

text \<open>The two halves of \<open>Broadcast\<close>: the sends under the read lock, then the removals.\<close>

fun send_all :: "'m \<Rightarrow> nat list \<Rightarrow> 'm chan list \<Rightarrow> (go_panic, 'm chan list \<times> nat list) result" where
  "send_all m [] chs = Inr (chs, [])"
| "send_all m (c # cs) chs =
     (case try_send m (chs ! c) of
        Inl p \<Rightarrow> Inl p
      | Inr (ch, sent) \<Rightarrow>
          (case send_all m cs (chs[c := ch]) of
             Inl p \<Rightarrow> Inl p
           | Inr (chs', stuck) \<Rightarrow> Inr (chs', if sent then stuck else c # stuck)))"

fun remove_each :: "nat list \<Rightarrow> 'm hub \<Rightarrow> (go_panic, 'm hub) result" where
  "remove_each [] h = Inr h"
| "remove_each (c # cs) h = (case remove c h of Inl p \<Rightarrow> Inl p | Inr h' \<Rightarrow> remove_each cs h')"

definition Broadcast :: "'m \<Rightarrow> 'm hub \<Rightarrow> (go_panic, 'm hub) result" where
  "Broadcast m h =
     (case send_all m (hb_clients h) (hb_chans h) of
        Inl p \<Rightarrow> Inl p
      | Inr (chs, stuck) \<Rightarrow> remove_each stuck (h\<lparr>hb_chans := chs\<rparr>))"

definition ClientCount :: "'m hub \<Rightarrow> nat" where
  "ClientCount h = length (hb_clients h)"

section \<open>Clients\<close>

definition CheckOrigin :: "string \<Rightarrow> string \<Rightarrow> bool" where
  "CheckOrigin allowedOrigin origin \<longleftrightarrow> origin = [] \<or> origin = allowedOrigin"

datatype 'm frame = Text 'm | Ping | Close_frame

text \<open>
  The goroutines of a connection: whether \<open>Serve\<close> has its snapshot still to enqueue, whether
  the pumps run, whether the connection is open, and the frames written so far.
\<close>

record 'm peer =
  pr_serving :: bool
  pr_panicked :: bool
  pr_reading :: bool
  pr_writing :: bool
  pr_open :: bool
  pr_wire :: "'m frame list"

definition new_peer :: "'m peer" where
  "new_peer = \<lparr>pr_serving = True, pr_panicked = False, pr_reading = True, pr_writing = True,
     pr_open = True, pr_wire = []\<rparr>"

text \<open>The rest of \<open>Serve\<close>: the snapshot, or the error of its provider.\<close>

definition Serve_snapshot :: "(go_error, 'm) result \<Rightarrow> 'm chan \<times> 'm peer \<Rightarrow> 'm chan \<times> 'm peer" where
  "Serve_snapshot snap = (\<lambda>(ch, p).
     (case snap of
        Inl e \<Rightarrow> (ch, p\<lparr>pr_serving := False\<rparr>)
      | Inr m \<Rightarrow>
          (case try_send m ch of
             Inl pn \<Rightarrow> (ch, p\<lparr>pr_serving := False, pr_panicked := True\<rparr>)
           | Inr (ch', sent) \<Rightarrow> (ch', p\<lparr>pr_serving := False\<rparr>))))"

text \<open>One turn of the loop of \<open>writePump\<close>: what woke it up, and whether its write succeeds.\<close>

datatype wake = Wake_send | Wake_tick

definition pump_ends :: "'m peer \<Rightarrow> 'm peer" where
  "pump_ends p = p\<lparr>pr_writing := False, pr_open := False\<rparr>"

definition writePump :: "wake \<Rightarrow> bool \<Rightarrow> 'm chan \<times> 'm peer \<Rightarrow> 'm chan \<times> 'm peer" where
  "writePump wk ok = (\<lambda>(ch, p).
     (case wk of
        Wake_tick \<Rightarrow> if ok then (ch, p\<lparr>pr_wire := pr_wire p @ [Ping]\<rparr>) else (ch, pump_ends p)
      | Wake_send \<Rightarrow>
          (case receive ch of
             (ch', Received m) \<Rightarrow>
               if ok then (ch', p\<lparr>pr_wire := pr_wire p @ [Text m]\<rparr>) else (ch', pump_ends p)
           | (ch', Closed) \<Rightarrow>
               (ch', pump_ends (if ok then p\<lparr>pr_wire := pr_wire p @ [Close_frame]\<rparr> else p))
           | (ch', Blocks) \<Rightarrow> (ch', p))))"

section \<open>What the hub operations do\<close>

text \<open>The clients of the hub are the allocated channels that are open.\<close>

definition wf_hub :: "'m hub \<Rightarrow> bool" where
  "wf_hub h \<longleftrightarrow> distinct (hb_clients h) \<and>
     (\<forall>c. c \<in> set (hb_clients h) \<longleftrightarrow> c < length (hb_chans h) \<and> \<not> ch_closed (hb_chans h ! c)) \<and>
     (\<forall>c < length (hb_chans h). length (ch_buf (hb_chans h ! c)) \<le> sendBufferSize)"

lemma wf_NewHub [simp]: "wf_hub NewHub"
  by (simp add: wf_hub_def NewHub_def)

text \<open>What a broadcast does to one open channel.\<close>

definition offer :: "'m \<Rightarrow> 'm chan \<Rightarrow> 'm chan" where
  "offer m ch = (if length (ch_buf ch) < sendBufferSize then ch\<lparr>ch_buf := ch_buf ch @ [m]\<rparr> else ch)"

definition full :: "'m chan \<Rightarrow> bool" where
  "full ch \<longleftrightarrow> sendBufferSize \<le> length (ch_buf ch)"

lemma try_send_open: "\<not> ch_closed ch \<Longrightarrow> try_send m ch = Inr (offer m ch, \<not> full ch)"
  by (simp add: try_send_def offer_def full_def)

lemma offer_simps [simp]: "ch_closed (offer m ch) = ch_closed ch"
  by (simp add: offer_def)

lemma offer_bound [simp]:
  "length (ch_buf (offer m ch)) \<le> sendBufferSize \<longleftrightarrow> length (ch_buf ch) \<le> sendBufferSize"
  by (simp add: offer_def)

lemma send_all_open:
  "distinct cs \<Longrightarrow> \<forall>c \<in> set cs. c < length chs \<and> \<not> ch_closed (chs ! c) \<Longrightarrow>
   send_all m cs chs = Inr (map (\<lambda>c. if c \<in> set cs then offer m (chs ! c) else chs ! c) [0..<length chs],
     filter (\<lambda>c. full (chs ! c)) cs)"
proof (induction cs arbitrary: chs)
  case Nil
  then show ?case by (simp add: map_nth)
next
  case (Cons c cs)
  let ?chs = "chs[c := offer m (chs ! c)]"
  have "\<forall>x \<in> set cs. x < length ?chs \<and> \<not> ch_closed (?chs ! x)"
    using Cons.prems by (auto simp: nth_list_update)
  then have IH: "send_all m cs ?chs =
      Inr (map (\<lambda>x. if x \<in> set cs then offer m (?chs ! x) else ?chs ! x) [0..<length ?chs],
        filter (\<lambda>x. full (?chs ! x)) cs)"
    using Cons.prems(1) by (intro Cons.IH) simp_all
  have "map (\<lambda>x. if x \<in> set cs then offer m (?chs ! x) else ?chs ! x) [0..<length chs] =
      map (\<lambda>x. if x \<in> set (c # cs) then offer m (chs ! x) else chs ! x) [0..<length chs]"
    using Cons.prems by (auto simp: nth_list_update)
  moreover have "filter (\<lambda>x. full (?chs ! x)) cs = filter (\<lambda>x. full (chs ! x)) cs"
  proof (intro filter_cong refl)
    fix x assume "x \<in> set cs"
    with Cons.prems(1) have "c \<noteq> x" by auto
    then show "full (?chs ! x) = full (chs ! x)" by simp
  qed
  ultimately show ?case
    using IH Cons.prems by (simp add: try_send_open)
qed

lemma remove_wf:
  assumes "wf_hub h"
  obtains h' where "remove c h = Inr h'" "wf_hub h'"
    "hb_clients h' = removeAll c (hb_clients h)"
    "hb_chans h' = (if c \<in> set (hb_clients h) then (hb_chans h)[c := (hb_chans h ! c)\<lparr>ch_closed := True\<rparr>]
       else hb_chans h)"
proof (cases "c \<in> set (hb_clients h)")
  case True
  with assms have c: "c < length (hb_chans h)" "\<not> ch_closed (hb_chans h ! c)"
    by (auto simp: wf_hub_def)
  let ?h = "h\<lparr>hb_clients := removeAll c (hb_clients h),
      hb_chans := (hb_chans h)[c := (hb_chans h ! c)\<lparr>ch_closed := True\<rparr>]\<rparr>"
  have "remove c h = Inr ?h" using True c by (simp add: remove_def close_chan_def)
  moreover have "wf_hub ?h"
    using assms c by (auto simp: wf_hub_def nth_list_update distinct_removeAll)
  ultimately show ?thesis using True that by simp
next
  case False
  with assms that [of h] show ?thesis by (simp add: remove_def)
qed

text \<open>The first half of a broadcast never panics, and keeps the hub well formed.\<close>

lemma send_all_wf:
  assumes "wf_hub h"
  obtains chs where
    "send_all m (hb_clients h) (hb_chans h) = Inr (chs, filter (\<lambda>c. full (hb_chans h ! c)) (hb_clients h))"
    "length chs = length (hb_chans h)"
    "\<And>c. c < length chs \<Longrightarrow> chs ! c = (if c \<in> set (hb_clients h) then offer m (hb_chans h ! c) else hb_chans h ! c)"
    "wf_hub (h\<lparr>hb_chans := chs\<rparr>)"
proof -
  let ?chs = "map (\<lambda>c. if c \<in> set (hb_clients h) then offer m (hb_chans h ! c) else hb_chans h ! c)
      [0..<length (hb_chans h)]"
  have "send_all m (hb_clients h) (hb_chans h) =
      Inr (?chs, filter (\<lambda>c. full (hb_chans h ! c)) (hb_clients h))"
    using assms by (intro send_all_open) (auto simp: wf_hub_def)
  moreover have "wf_hub (h\<lparr>hb_chans := ?chs\<rparr>)"
    using assms by (auto simp: wf_hub_def)
  ultimately show ?thesis using that by simp
qed

lemma remove_each_wf:
  assumes "wf_hub h" "set cs \<subseteq> set (hb_clients h)" "distinct cs"
  shows "\<exists>h'. remove_each cs h = Inr h' \<and> wf_hub h' \<and>
     hb_clients h' = filter (\<lambda>c. c \<notin> set cs) (hb_clients h) \<and>
     length (hb_chans h') = length (hb_chans h) \<and>
     (\<forall>c < length (hb_chans h). hb_chans h' ! c =
        (if c \<in> set cs then (hb_chans h ! c)\<lparr>ch_closed := True\<rparr> else hb_chans h ! c))"
  using assms
proof (induction cs arbitrary: h)
  case (Cons c cs)
  obtain h1 where h1: "remove c h = Inr h1" "wf_hub h1" "hb_clients h1 = removeAll c (hb_clients h)"
    "hb_chans h1 = (if c \<in> set (hb_clients h) then (hb_chans h)[c := (hb_chans h ! c)\<lparr>ch_closed := True\<rparr>]
       else hb_chans h)"
    by (rule remove_wf [OF Cons.prems(1)])
  have "set cs \<subseteq> set (hb_clients h1)" "distinct cs" using Cons.prems h1(3) by auto
  from Cons.IH [OF h1(2) this] obtain h' where h': "remove_each cs h1 = Inr h'" "wf_hub h'"
    "hb_clients h' = filter (\<lambda>c. c \<notin> set cs) (hb_clients h1)"
    "length (hb_chans h') = length (hb_chans h1)"
    "\<forall>c < length (hb_chans h1). hb_chans h' ! c =
        (if c \<in> set cs then (hb_chans h1 ! c)\<lparr>ch_closed := True\<rparr> else hb_chans h1 ! c)" by blast
  have c: "c \<in> set (hb_clients h)" "c \<notin> set cs" "c < length (hb_chans h)"
    using Cons.prems by (auto simp: wf_hub_def)
  have "hb_clients h' = filter (\<lambda>x. x \<notin> set (c # cs)) (hb_clients h)"
    using h'(3) h1(3) by (auto simp: removeAll_filter_not_eq intro!: filter_cong)
  then show ?case
    using h1(1) h' h1(4) c by (auto simp: nth_list_update)
qed simp

text \<open>A whole broadcast: every client with room gets the message, every full one is dropped.\<close>

lemma Broadcast_wf:
  assumes "wf_hub h"
  shows "\<exists>h'. Broadcast m h = Inr h' \<and> wf_hub h' \<and>
     hb_clients h' = filter (\<lambda>c. \<not> full (hb_chans h ! c)) (hb_clients h) \<and>
     length (hb_chans h') = length (hb_chans h) \<and>
     (\<forall>c < length (hb_chans h). hb_chans h' ! c =
        (if c \<notin> set (hb_clients h) then hb_chans h ! c
         else if full (hb_chans h ! c) then (hb_chans h ! c)\<lparr>ch_closed := True\<rparr>
         else (hb_chans h ! c)\<lparr>ch_buf := ch_buf (hb_chans h ! c) @ [m]\<rparr>))"
proof -
  let ?stuck = "filter (\<lambda>c. full (hb_chans h ! c)) (hb_clients h)"
  obtain chs where chs: "send_all m (hb_clients h) (hb_chans h) = Inr (chs, ?stuck)"
    "length chs = length (hb_chans h)"
    "\<And>c. c < length chs \<Longrightarrow> chs ! c = (if c \<in> set (hb_clients h) then offer m (hb_chans h ! c) else hb_chans h ! c)"
    "wf_hub (h\<lparr>hb_chans := chs\<rparr>)" by (rule send_all_wf [OF assms, of m], rule that)
  have "set ?stuck \<subseteq> set (hb_clients (h\<lparr>hb_chans := chs\<rparr>))" "distinct ?stuck"
    using assms by (auto simp: wf_hub_def)
  from remove_each_wf [OF chs(4) this] obtain h' where h': "remove_each ?stuck (h\<lparr>hb_chans := chs\<rparr>) = Inr h'"
    "wf_hub h'" "hb_clients h' = filter (\<lambda>c. c \<notin> set ?stuck) (hb_clients h)"
    "length (hb_chans h') = length chs"
    "\<forall>c < length chs. hb_chans h' ! c =
        (if c \<in> set ?stuck then (chs ! c)\<lparr>ch_closed := True\<rparr> else chs ! c)" by auto
  have "filter (\<lambda>c. c \<notin> set ?stuck) (hb_clients h) = filter (\<lambda>c. \<not> full (hb_chans h ! c)) (hb_clients h)"
    by (rule filter_cong) auto
  then show ?thesis
    using chs(1-3) h' by (auto simp: Broadcast_def offer_def full_def)
qed

end
