(* ===== verification/Keepalive.thy ===== *)
theory Keepalive
  imports Ws
begin

text \<open>
  One websocket connection on the clock (\<open>ws/client.go\<close>): the write and read deadlines, the ticker
  that sends the pings, and the pongs that keep the connection open. \<open>Ws\<close> has the same pumps without
  the time their writes take.
\<close>

section \<open>The deadlines\<close>

definition writeWait :: duration where
  "writeWait = 10 * second"

definition pongWait :: duration where
  "pongWait = 60 * second"

definition pingPeriod :: duration where
  "pingPeriod = (pongWait * 9) div 10"

lemma deadlines [simp]: "sint writeWait = 10000000000" "sint pongWait = 60000000000" "sint pingPeriod = 54000000000"
  by (simp_all add: writeWait_def pongWait_def pingPeriod_def second_def)

section \<open>A connection\<close>

text \<open>
  The channel and the peer of \<open>Ws\<close>; the frame being written, with its deadline; when the ticker fires
  next and whether its channel holds a tick; the deadline of the read in progress. \<open>Serve\<close> starts the two
  pumps as goroutines, each of which gets to run when the scheduler lets it: there is no ticker before
  \<open>writePump\<close> has made it, and no deadline before \<open>readPump\<close> has set it.
\<close>

record 'm link =
  lk_now :: int
  lk_chan :: "'m chan"
  lk_peer :: "'m peer"
  lk_write :: "('m frame \<times> int) option"
  lk_ticker :: "int option"
  lk_tick :: bool
  lk_read_deadline :: "int option"

text \<open>Both goroutines have been created, and neither has run yet.\<close>

definition new_link :: "int \<Rightarrow> 'm link" where
  "new_link now = \<lparr>lk_now = now, lk_chan = make_chan, lk_peer = new_peer, lk_write = None,
     lk_ticker = None, lk_tick = False, lk_read_deadline = None\<rparr>"

text \<open>
  What can happen: either pump starts to run; time passes; the ticker fires (a tick nobody has taken yet is not doubled); the hub
  queues a message or closes the channel; a turn of \<open>select\<close> in \<open>writePump\<close> begins a write; the write
  returns; a pong is read; the read fails at its deadline, or for another reason.
\<close>

datatype 'm link_event = Start_write | Start_read | Pass int | Tick | Enqueue 'm | Close_send | Wake wake | Written bool | Pong
  | Read_timeout | Read_fails

definition begin_write :: "'m frame \<Rightarrow> 'm link \<Rightarrow> 'm link" where
  "begin_write f lk = lk\<lparr>lk_write := Some (f, time_add (lk_now lk) writeWait)\<rparr>"

definition before :: "int \<Rightarrow> int option \<Rightarrow> bool" where
  "before t deadline \<longleftrightarrow> (case deadline of Some u \<Rightarrow> t \<le> u | None \<Rightarrow> True)"

lemma before_simps [simp]: "before t None" "before t (Some u) \<longleftrightarrow> t \<le> u"
  by (simp_all add: before_def)

text \<open>The effect of an event; \<open>None\<close> where it cannot happen. Time does not pass a deadline that is due.\<close>

fun link_act :: "'m link_event \<Rightarrow> 'm link \<Rightarrow> 'm link option" where
  "link_act Start_write lk =
     (if lk_ticker lk = None then Some (lk\<lparr>lk_ticker := Some (time_add (lk_now lk) pingPeriod)\<rparr>) else None)"
| "link_act Start_read lk =
     (if lk_read_deadline lk = None then Some (lk\<lparr>lk_read_deadline := Some (time_add (lk_now lk) pongWait)\<rparr>) else None)"
| "link_act (Pass d) lk = (let t = lk_now lk + d in
     if 0 \<le> d \<and> (pr_reading (lk_peer lk) \<longrightarrow> before t (lk_read_deadline lk)) \<and>
       (pr_writing (lk_peer lk) \<longrightarrow> before t (lk_ticker lk)) \<and>
       (case lk_write lk of Some (f, deadline) \<Rightarrow> t \<le> deadline | None \<Rightarrow> True)
     then Some (lk\<lparr>lk_now := t\<rparr>) else None)"
| "link_act Tick lk =
     (if pr_writing (lk_peer lk) \<and> lk_ticker lk = Some (lk_now lk)
      then Some (lk\<lparr>lk_ticker := Some (time_add (lk_now lk) pingPeriod), lk_tick := True\<rparr>) else None)"
| "link_act (Enqueue m) lk =
     (case try_send m (lk_chan lk) of Inr (ch, sent) \<Rightarrow> Some (lk\<lparr>lk_chan := ch\<rparr>) | Inl _ \<Rightarrow> None)"
| "link_act Close_send lk = (case close_chan (lk_chan lk) of Inr ch \<Rightarrow> Some (lk\<lparr>lk_chan := ch\<rparr>) | Inl _ \<Rightarrow> None)"
| "link_act (Wake wk) lk =
     (if pr_writing (lk_peer lk) \<and> lk_ticker lk \<noteq> None \<and> lk_write lk = None then
        (case wk of
           Wake_tick \<Rightarrow> if lk_tick lk then Some (begin_write Ping (lk\<lparr>lk_tick := False\<rparr>)) else None
         | Wake_send \<Rightarrow>
             (case receive (lk_chan lk) of
                (ch, Received m) \<Rightarrow> Some (begin_write (Text m) (lk\<lparr>lk_chan := ch\<rparr>))
              | (ch, Closed) \<Rightarrow> Some (begin_write Close_frame (lk\<lparr>lk_chan := ch\<rparr>))
              | (ch, Blocks) \<Rightarrow> None))
      else None)"
| "link_act (Written ok) lk =
     (case lk_write lk of
        None \<Rightarrow> None
      | Some (f, deadline) \<Rightarrow>
          (let p = lk_peer lk; p' = (if ok then p\<lparr>pr_wire := pr_wire p @ [f]\<rparr> else p) in
           Some (lk\<lparr>lk_write := None, lk_peer := (if ok \<and> f \<noteq> Close_frame then p' else pump_ends p')\<rparr>)))"
| "link_act Pong lk =
     (if pr_reading (lk_peer lk) \<and> lk_read_deadline lk \<noteq> None \<and> pr_open (lk_peer lk)
      then Some (lk\<lparr>lk_read_deadline := Some (time_add (lk_now lk) pongWait)\<rparr>) else None)"
| "link_act Read_timeout lk =
     (if pr_reading (lk_peer lk) \<and> lk_read_deadline lk = Some (lk_now lk)
      then Some (lk\<lparr>lk_peer := (lk_peer lk)\<lparr>pr_reading := False\<rparr>\<rparr>) else None)"
| "link_act Read_fails lk =
     (if pr_reading (lk_peer lk) \<and> lk_read_deadline lk \<noteq> None then Some (lk\<lparr>lk_peer := (lk_peer lk)\<lparr>pr_reading := False\<rparr>\<rparr>) else None)"

fun link_run :: "'m link_event list \<Rightarrow> 'm link \<Rightarrow> 'm link option" where
  "link_run [] lk = Some lk"
| "link_run (e # es) lk = Option.bind (link_act e lk) (link_run es)"

text \<open>Of a run that starts at \<open>t\<close>: the last pong before its end, or else the start of \<open>readPump\<close>.\<close>

fun last_pong :: "'m link_event list \<Rightarrow> int \<Rightarrow> int option \<Rightarrow> int option" where
  "last_pong [] t p = p"
| "last_pong (Pass d # es) t p = last_pong es (t + d) p"
| "last_pong (Pong # es) t p = last_pong es t (Some t)"
| "last_pong (Start_read # es) t p = last_pong es t (Some t)"
| "last_pong (_ # es) t p = last_pong es t p"

text \<open>\<open>writePump\<close> starts no later than \<open>L\<close> after \<open>readPump\<close>, which started at \<open>r\<close>.\<close>

fun starts_within :: "int \<Rightarrow> 'm link_event list \<Rightarrow> int \<Rightarrow> int option \<Rightarrow> bool" where
  "starts_within L [] t r = True"
| "starts_within L (Pass d # es) t r = (before (t + d) (map_option ((+) L) r) \<and> starts_within L es (t + d) r)"
| "starts_within L (Start_write # es) t r = True"
| "starts_within L (Start_read # es) t r = starts_within L es t (Some t)"
| "starts_within L (_ # es) t r = starts_within L es t r"

text \<open>
  The first tick since the last pong is never left unanswered for longer than \<open>D\<close>: the ping was written,
  and answered, in that time. \<open>w\<close> is when that tick came.
\<close>

fun answered_within :: "int \<Rightarrow> 'm link_event list \<Rightarrow> int \<Rightarrow> int option \<Rightarrow> bool" where
  "answered_within D [] t w = True"
| "answered_within D (Pass d # es) t w =
     (before (t + d) (map_option ((+) D) w) \<and> answered_within D es (t + d) w)"
| "answered_within D (Tick # es) t w = answered_within D es t (case w of Some u \<Rightarrow> Some u | None \<Rightarrow> Some t)"
| "answered_within D (Pong # es) t w = answered_within D es t None"
| "answered_within D (_ # es) t w = answered_within D es t w"

section \<open>The pumps are those of the hub's model\<close>

text \<open>A write that begins and returns is one turn of \<open>writePump\<close>.\<close>

lemma write_is_writePump:
  assumes "link_act (Wake wk) lk = Some lk1" and "link_act (Written ok) lk1 = Some lk2"
  shows "(lk_chan lk2, lk_peer lk2) = writePump wk ok (lk_chan lk, lk_peer lk)"
  using assms
  by (cases wk) (auto simp: begin_write_def writePump_def Let_def split: if_splits prod.splits received.splits)

section \<open>How long a connection lasts\<close>

lemmas link_splits = if_splits sum.splits prod.splits wake.splits received.splits option.splits

lemma link_act_simps:
  "link_act e lk = Some lk' \<Longrightarrow> pr_writing (lk_peer lk') \<Longrightarrow> pr_writing (lk_peer lk)"
  "link_act e lk = Some lk' \<Longrightarrow> pr_reading (lk_peer lk') \<Longrightarrow> pr_reading (lk_peer lk)"
  "link_act e lk = Some lk' \<Longrightarrow> lk_now lk' = (case e of Pass d \<Rightarrow> lk_now lk + d | _ \<Rightarrow> lk_now lk)"
  "link_act e lk = Some lk' \<Longrightarrow> lk_read_deadline lk' =
     (if e = Pong \<or> e = Start_read then Some (lk_now lk + 60000000000) else lk_read_deadline lk)"
  "link_act e lk = Some lk' \<Longrightarrow> lk_ticker lk' =
     (if e = Tick \<or> e = Start_write then Some (lk_now lk + 54000000000) else lk_ticker lk)"
  by (cases e; auto simp: Let_def begin_write_def pump_ends_def time_add_def split: link_splits)+

lemma link_run_writing: "link_run es lk = Some lk' \<Longrightarrow> pr_writing (lk_peer lk') \<Longrightarrow> pr_writing (lk_peer lk)"
  by (induction es arbitrary: lk) (auto simp: bind_eq_Some_conv dest: link_act_simps(1))

text \<open>The read of a connection never outlasts its deadline, which only a pong moves.\<close>

lemma read_deadline_run:
  assumes "link_run es lk = Some lk'" and "lk_read_deadline lk = map_option ((+) 60000000000) p"
    and "pr_reading (lk_peer lk) \<longrightarrow> before (lk_now lk) (lk_read_deadline lk)"
  shows "lk_read_deadline lk' = map_option ((+) 60000000000) (last_pong es (lk_now lk) p) \<and>
    (pr_reading (lk_peer lk') \<longrightarrow> before (lk_now lk') (lk_read_deadline lk'))"
  using assms
proof (induction es arbitrary: lk p)
  case (Cons e es)
  then obtain lk1 where lk1: "link_act e lk = Some lk1" "link_run es lk1 = Some lk'" by (auto simp: bind_eq_Some_conv)
  note s = link_act_simps [OF lk1(1)]
  have r: "pr_reading (lk_peer lk1) \<longrightarrow> before (lk_now lk1) (lk_read_deadline lk1)"
    using lk1(1) s(2-4) Cons.prems(3) by (cases e) (auto simp: Let_def split: if_splits)
  show ?case
    using Cons.IH [OF lk1(2) _ r, of "if e = Pong \<or> e = Start_read then Some (lk_now lk) else p"] s(3,4) Cons.prems(2)
    by (cases e) auto
qed simp

text \<open>
  As long as the pings are written and answered in time, the deadline stays ahead: of the next tick, or of the
  ping that is not yet answered. Before \<open>writePump\<close> runs there are no ticks, but that does not last.
\<close>

definition ahead :: "int \<Rightarrow> int \<Rightarrow> int option \<Rightarrow> int option \<Rightarrow> 'm link \<Rightarrow> bool" where
  "ahead D L r w lk \<longleftrightarrow> (case lk_ticker lk of
     None \<Rightarrow> w = None \<and> (case lk_read_deadline lk of None \<Rightarrow> True
       | Some dl \<Rightarrow> (case r of None \<Rightarrow> False | Some u \<Rightarrow> u + 60000000000 \<le> dl \<and> u \<le> lk_now lk \<and> lk_now lk \<le> u + L))
   | Some T \<Rightarrow> lk_now lk \<le> T \<and> T \<le> lk_now lk + 54000000000 \<and>
       (case w of None \<Rightarrow> True | Some u \<Rightarrow> u \<le> lk_now lk \<and> lk_now lk \<le> u + D) \<and>
       (case lk_read_deadline lk of None \<Rightarrow> True
        | Some dl \<Rightarrow> (case w of None \<Rightarrow> T | Some u \<Rightarrow> u) + 6000000000 \<le> dl + L))"

lemma ahead_step:
  assumes act: "link_act e lk = Some lk'" and wr: "pr_writing (lk_peer lk)" and a: "ahead D L r w lk"
    and ans: "answered_within D (e # es) (lk_now lk) w" and lag: "lk_ticker lk = None \<longrightarrow> starts_within L (e # es) (lk_now lk) r"
    and lim: "0 \<le> D" "0 \<le> L"
  shows "ahead D L (if e = Start_read then Some (lk_now lk) else r)
    (case e of Tick \<Rightarrow> (case w of Some u \<Rightarrow> Some u | None \<Rightarrow> Some (lk_now lk)) | Pong \<Rightarrow> None | _ \<Rightarrow> w) lk'"
  using assms link_act_simps(3-5) [OF act]
  by (cases e) (auto simp: ahead_def Let_def time_add_def split: if_splits option.splits)

lemma no_timeout:
  assumes "link_run es lk = Some lk'" and "pr_writing (lk_peer lk')" and "ahead D L r w lk"
    and "answered_within D es (lk_now lk) w" and "lk_ticker lk = None \<longrightarrow> starts_within L es (lk_now lk) r"
    and "0 \<le> D" "0 \<le> L" "D + L < 6000000000"
  shows "Read_timeout \<notin> set es"
  using assms
proof (induction es arbitrary: lk r w)
  case (Cons e es)
  then obtain lk1 where lk1: "link_act e lk = Some lk1" "link_run es lk1 = Some lk'" by (auto simp: bind_eq_Some_conv)
  note s = link_act_simps [OF lk1(1)]
  have wr: "pr_writing (lk_peer lk)" using s(1) link_run_writing [OF lk1(2) Cons.prems(2)] by simp
  have "e \<noteq> Read_timeout"
    using lk1(1) Cons.prems(3,6-8) wr by (auto simp: ahead_def split: if_splits option.splits)
  moreover have "Read_timeout \<notin> set es"
    by (rule Cons.IH [OF lk1(2) Cons.prems(2) ahead_step [OF lk1(1) wr Cons.prems(3-7)] _ _ Cons.prems(6-8)])
      (use Cons.prems(4,5) s(3,5) in \<open>cases e; simp\<close>)+
  ultimately show ?case by simp
qed simp

section \<open>Properties\<close>

text \<open>C29: a connection is read for as long as its peer is there: it is given up within a minute of the
  last pong, or of the start of \<open>readPump\<close>, so a peer that is gone leaves the hub; and it never times
  out while \<open>writePump\<close> runs, if every ping is written and answered within \<open>D\<close> of its tick, and
  \<open>writePump\<close> was started no more than \<open>L\<close> after \<open>readPump\<close>, with \<open>D + L\<close> below six seconds.\<close>

theorem pongs_keep_connection:
  assumes "link_run es (new_link t) = Some lk"
  shows "(pr_reading (lk_peer lk) \<longrightarrow> before (lk_now lk) (map_option ((+) (60 * 10 ^ 9)) (last_pong es t None))) \<and>
    (pr_writing (lk_peer lk) \<and> 0 \<le> D \<and> 0 \<le> L \<and> D + L < 6 * 10 ^ 9 \<and> answered_within D es t None \<and>
      starts_within L es t None \<longrightarrow> Read_timeout \<notin> set es)"
proof -
  have n: "lk_read_deadline (new_link t) = map_option ((+) 60000000000) None" "lk_now (new_link t) = t"
    "ahead D L None None (new_link t)" by (simp_all add: new_link_def ahead_def)
  show ?thesis
    using read_deadline_run [OF assms n(1)] no_timeout [OF assms _ n(3)] by (auto simp: n(1,2))
qed

text \<open>A message, the first tick, its ping written and answered, and a minute after that.\<close>

definition sample_link_run :: "string link_event list" where
  "sample_link_run = [Enqueue ''held'', Start_read, Pass 500000000, Start_write, Wake Wake_send, Pass 1000000000, Written True,
     Pass 53000000000, Tick, Wake Wake_tick, Pass 2000000000, Written True, Pass 1000000000, Pong, Pass 51000000000, Tick,
     Pass 4000000000]"

theorem pongs_keep_connection_witness:
  "\<exists>lk. link_run sample_link_run (new_link 0) = Some lk \<and> pr_reading (lk_peer lk) \<and> lk_now lk = 112500000000 \<and>
    last_pong sample_link_run 0 None = Some 57500000000 \<and> lk_now lk \<le> 57500000000 + 60 * 10 ^ 9 \<and>
    Read_timeout \<notin> set sample_link_run"
proof -
  have run: "\<exists>lk. link_run sample_link_run (new_link 0) = Some lk \<and> pr_reading (lk_peer lk) \<and> pr_writing (lk_peer lk) \<and>
      lk_now lk = 112500000000 \<and> answered_within 5000000000 sample_link_run 0 None \<and>
      starts_within 500000000 sample_link_run 0 None \<and> last_pong sample_link_run 0 None = Some 57500000000"
    by (simp add: sample_link_run_def new_link_def new_peer_def make_chan_def try_send_def sendBufferSize_def receive_def
        begin_write_def time_add_def Let_def)
  then obtain lk where lk: "link_run sample_link_run (new_link 0) = Some lk" "pr_reading (lk_peer lk)" "pr_writing (lk_peer lk)"
    "lk_now lk = 112500000000" "answered_within 5000000000 sample_link_run 0 None"
    "starts_within 500000000 sample_link_run 0 None" "last_pong sample_link_run 0 None = Some 57500000000" by blast
  with pongs_keep_connection [OF lk(1), of 5000000000 500000000] show ?thesis by (intro exI [of _ lk]) simp
qed

text \<open>C30: the six seconds are what the two deadlines leave, but one write may take ten: a message whose write begins
  within the last four seconds before a tick, and is still within its deadline, keeps the ping from being
  sent, and the connection is given up, although no frame had been sent that its peer could have
  answered.\<close>

theorem slow_write_drops_peer:
  assumes "50 * 10 ^ 9 < a" and "a \<le> 54 * 10 ^ 9"
  shows "\<exists>lk deadline. link_run [Start_write, Start_read, Enqueue m, Pass a, Wake Wake_send, Pass (54 * 10 ^ 9 - a), Tick,
       Pass (6 * 10 ^ 9), Read_timeout] (new_link 0) = Some lk \<and>
     \<not> pr_reading (lk_peer lk) \<and> pr_wire (lk_peer lk) = [] \<and> lk_write lk = Some (Text m, deadline) \<and> lk_now lk < deadline"
  using assms
  by (simp add: new_link_def new_peer_def make_chan_def try_send_def sendBufferSize_def receive_def begin_write_def
      time_add_def Let_def)

theorem slow_write_drops_peer_witness:
  "\<exists>lk. link_run [Start_write, Start_read, Enqueue ''held'', Pass (53 * 10 ^ 9), Wake Wake_send, Pass (10 ^ 9), Tick,
     Pass (6 * 10 ^ 9), Read_timeout] (new_link 0) = Some lk \<and> \<not> pr_reading (lk_peer lk)"
  using slow_write_drops_peer [of "53 * 10 ^ 9" "''held''"] by (auto simp del: link_run.simps)

end
