(* ===== verification/Ws_Run.thy ===== *)
theory Ws_Run
  imports Ws
begin

text \<open>
  \<open>backend/ws\<close> at run time: the goroutines of all connections and of the two loops that broadcast, as
  the steps of a transition system. The hub's lock is a read-write lock: \<open>add\<close> and \<open>remove\<close> hold it
  alone and are one step each, while \<open>Broadcast\<close> holds it shared, so that two broadcasts can take
  their turns at the clients in any order; each send is a step.
\<close>

section \<open>The goroutines\<close>

text \<open>What is enqueued: a snapshot by \<open>Serve\<close>, or a delta by \<open>Broadcast\<close>.\<close>

datatype item = Snap json | Delta json

text \<open>The two goroutines of \<open>main\<close> that broadcast, each one message at a time.\<close>

datatype caster = Events_loop | Expiry_loop

text \<open>
  How far a goroutine is in \<open>Broadcast\<close>: the message, the clients still to be visited and those found
  stuck; or, with the lock released, the stuck clients still to be removed.
\<close>

datatype cast = Idle | Sending json "nat list" "nat list" | Dropping "nat list"

fun sending :: "cast \<Rightarrow> bool" where
  "sending (Sending m todo stuck) = True"
| "sending _ = False"

fun dropping :: "cast \<Rightarrow> bool" where
  "dropping (Dropping stuck) = True"
| "dropping _ = False"

fun cast_todo :: "cast \<Rightarrow> nat list" where
  "cast_todo (Sending m todo stuck) = todo"
| "cast_todo _ = []"

fun cast_stuck :: "cast \<Rightarrow> nat list" where
  "cast_stuck (Sending m todo stuck) = stuck"
| "cast_stuck (Dropping stuck) = stuck"
| "cast_stuck Idle = []"

text \<open>
  \<open>ww_log\<close> (what each of the two has broadcast so far) and the numbers beside a peer (how much that
  was when it was added) only record the history.
\<close>

record ws_world =
  ww_hub :: "item hub"
  ww_peers :: "(item peer \<times> (caster \<Rightarrow> nat)) list"
  ww_casts :: "caster \<Rightarrow> cast"
  ww_crashed :: bool
  ww_log :: "caster \<Rightarrow> json list"

definition ws_start :: ws_world where
  "ws_start = \<lparr>ww_hub = NewHub, ww_peers = [], ww_casts = (\<lambda>g. Idle), ww_crashed = False, ww_log = (\<lambda>g. [])\<rparr>"

text \<open>No broadcast holds the lock.\<close>

definition unlocked :: "ws_world \<Rightarrow> bool" where
  "unlocked w \<longleftrightarrow> \<not> sending (ww_casts w Events_loop) \<and> \<not> sending (ww_casts w Expiry_loop)"

definition put_client :: "nat \<Rightarrow> item chan \<times> item peer \<Rightarrow> ws_world \<Rightarrow> ws_world" where
  "put_client c = (\<lambda>(ch, p) w. w\<lparr>
     ww_hub := (ww_hub w)\<lparr>hb_chans := (hb_chans (ww_hub w))[c := ch]\<rparr>,
     ww_peers := (ww_peers w)[c := (p, snd (ww_peers w ! c))]\<rparr>)"

definition get_client :: "nat \<Rightarrow> ws_world \<Rightarrow> item chan \<times> item peer" where
  "get_client c w = (hb_chans (ww_hub w) ! c, fst (ww_peers w ! c))"

text \<open>A panic in a broadcast, a removal or a pump ends the process.\<close>

definition crash_or :: "('a \<Rightarrow> ws_world) \<Rightarrow> (go_panic, 'a) result \<Rightarrow> ws_world \<Rightarrow> ws_world" where
  "crash_or f res w = (case res of Inl p \<Rightarrow> w\<lparr>ww_crashed := True\<rparr> | Inr a \<Rightarrow> f a)"

definition connect :: "ws_world \<Rightarrow> ws_world" where
  "connect w =
     (let c = length (hb_chans (ww_hub w)) in w\<lparr>
        ww_hub := add c ((ww_hub w)\<lparr>hb_chans := hb_chans (ww_hub w) @ [make_chan]\<rparr>),
        ww_peers := ww_peers w @ [(new_peer, \<lambda>g. length (ww_log w g))]\<rparr>)"

definition set_cast :: "caster \<Rightarrow> cast \<Rightarrow> ws_world \<Rightarrow> ws_world" where
  "set_cast g k w = w\<lparr>ww_casts := (ww_casts w)(g := k)\<rparr>"

text \<open>\<open>Broadcast\<close>: it takes the lock and visits the clients in the order of the map iteration.\<close>

definition broadcast_begin :: "caster \<Rightarrow> json \<Rightarrow> nat list \<Rightarrow> ws_world \<Rightarrow> ws_world" where
  "broadcast_begin g m order w =
     set_cast g (Sending m order []) (w\<lparr>ww_log := (ww_log w)(g := ww_log w g @ [m])\<rparr>)"

definition finish_stuck :: "nat list \<Rightarrow> cast" where
  "finish_stuck stuck = (if stuck = [] then Idle else Dropping stuck)"

text \<open>Its next turn: one send, the release of the lock, or one removal.\<close>

definition broadcast_turn :: "caster \<Rightarrow> ws_world \<Rightarrow> ws_world" where
  "broadcast_turn g w =
     (case ww_casts w g of
        Idle \<Rightarrow> w
      | Sending m [] stuck \<Rightarrow> set_cast g (finish_stuck stuck) w
      | Sending m (c # todo) stuck \<Rightarrow>
          crash_or (\<lambda>(ch, sent). set_cast g (Sending m todo (if sent then stuck else stuck @ [c]))
              (w\<lparr>ww_hub := (ww_hub w)\<lparr>hb_chans := (hb_chans (ww_hub w))[c := ch]\<rparr>\<rparr>))
            (try_send (Delta m) (hb_chans (ww_hub w) ! c)) w
      | Dropping [] \<Rightarrow> set_cast g Idle w
      | Dropping (c # stuck) \<Rightarrow>
          crash_or (\<lambda>h. set_cast g (finish_stuck stuck) (w\<lparr>ww_hub := h\<rparr>)) (remove c (ww_hub w)) w)"

definition disconnect :: "nat \<Rightarrow> ws_world \<Rightarrow> ws_world" where
  "disconnect c w = crash_or (\<lambda>h. w\<lparr>ww_hub := h,
       ww_peers := (ww_peers w)[c := (fst (ww_peers w ! c)\<lparr>pr_reading := False\<rparr>, snd (ww_peers w ! c))]\<rparr>)
     (remove c (ww_hub w)) w"

inductive ws_step :: "string \<Rightarrow> ws_world \<Rightarrow> ws_world \<Rightarrow> bool" for allowedOrigin where
  upgrade: "CheckOrigin allowedOrigin origin \<Longrightarrow> unlocked w \<Longrightarrow> ws_step allowedOrigin w (connect w)"
| serve: "c < length (ww_peers w) \<Longrightarrow> pr_serving (fst (ww_peers w ! c)) \<Longrightarrow>
    ws_step allowedOrigin w
      (put_client c (Serve_snapshot (map_sum id Snap snap) (get_client c w)) w)"
| pump: "c < length (ww_peers w) \<Longrightarrow> pr_writing (fst (ww_peers w ! c)) \<Longrightarrow>
    (ok \<longrightarrow> pr_open (fst (ww_peers w ! c))) \<Longrightarrow>
    ws_step allowedOrigin w (put_client c (writePump wk ok (get_client c w)) w)"
| read_fails: "c < length (ww_peers w) \<Longrightarrow> pr_reading (fst (ww_peers w ! c)) \<Longrightarrow> unlocked w \<Longrightarrow>
    ws_step allowedOrigin w (disconnect c w)"
| begin_cast: "ww_casts w g = Idle \<Longrightarrow> mset order = mset (hb_clients (ww_hub w)) \<Longrightarrow>
    ws_step allowedOrigin w (broadcast_begin g m order w)"
| turn: "ww_casts w g \<noteq> Idle \<Longrightarrow> dropping (ww_casts w g) \<longrightarrow> unlocked w \<Longrightarrow>
    ws_step allowedOrigin w (broadcast_turn g w)"

inductive ws_reachable :: "string \<Rightarrow> ws_world \<Rightarrow> bool" for allowedOrigin where
  start: "ws_reachable allowedOrigin ws_start"
| step: "ws_reachable allowedOrigin w \<Longrightarrow> ws_step allowedOrigin w w' \<Longrightarrow> ws_reachable allowedOrigin w'"

section \<open>What every reachable state satisfies\<close>

fun texts :: "'m frame list \<Rightarrow> 'm list" where
  "texts [] = []"
| "texts (Text m # fs) = m # texts fs"
| "texts (_ # fs) = texts fs"

fun deltas :: "item list \<Rightarrow> json list" where
  "deltas [] = []"
| "deltas (Delta m # is) = m # deltas is"
| "deltas (Snap m # is) = deltas is"

fun snaps :: "item list \<Rightarrow> nat" where
  "snaps [] = 0"
| "snaps (Snap m # is) = Suc (snaps is)"
| "snaps (Delta m # is) = snaps is"

lemma texts_append [simp]: "texts (xs @ ys) = texts xs @ texts ys"
  by (induction xs rule: texts.induct) auto

lemma deltas_append [simp]: "deltas (xs @ ys) = deltas xs @ deltas ys"
  by (induction xs rule: deltas.induct) auto

lemma snaps_append [simp]: "snaps (xs @ ys) = snaps xs + snaps ys"
  by (induction xs rule: snaps.induct) auto

text \<open>What has been put on the way to a client: written frames, then the channel.\<close>

definition sent_to :: "item chan \<Rightarrow> item peer \<Rightarrow> item list" where
  "sent_to ch p = texts (pr_wire p) @ ch_buf ch"

text \<open>What a goroutine has broadcast and the client was due, but for a message it is still to be visited with.\<close>

definition pending :: "caster \<Rightarrow> nat \<Rightarrow> ws_world \<Rightarrow> bool" where
  "pending g c w \<longleftrightarrow> c \<in> set (cast_todo (ww_casts w g))"

definition passed :: "caster \<Rightarrow> nat \<Rightarrow> ws_world \<Rightarrow> json list" where
  "passed g c w = (let due = drop (snd (ww_peers w ! c) g) (ww_log w g) in
     if pending g c w then butlast due else due)"

definition found_stuck :: "nat \<Rightarrow> ws_world \<Rightarrow> bool" where
  "found_stuck c w \<longleftrightarrow> c \<in> set (cast_stuck (ww_casts w Events_loop)) \<or> c \<in> set (cast_stuck (ww_casts w Expiry_loop))"

definition peer_ok :: "bool \<Rightarrow> bool \<Rightarrow> json list \<Rightarrow> json list \<Rightarrow> item chan \<times> item peer \<Rightarrow> bool" where
  "peer_ok in_hub stuck es xs = (\<lambda>(ch, p).
     (in_hub \<longrightarrow> pr_reading p) \<and> (pr_open p \<longrightarrow> pr_writing p) \<and>
     (pr_panicked p \<longrightarrow> ch_closed ch) \<and>
     snaps (sent_to ch p) \<le> (if pr_serving p then 0 else 1) \<and>
     (in_hub \<and> \<not> stuck \<and> pr_writing p \<longrightarrow> deltas (sent_to ch p) \<in> shuffles es xs))"

definition cast_ok :: "caster \<Rightarrow> ws_world \<Rightarrow> bool" where
  "cast_ok g w \<longleftrightarrow> (case ww_casts w g of
       Sending m todo stuck \<Rightarrow> set todo \<subseteq> set (hb_clients (ww_hub w)) \<and> distinct todo \<and>
         ww_log w g \<noteq> [] \<and> last (ww_log w g) = m \<and> (\<forall>c \<in> set todo. snd (ww_peers w ! c) g < length (ww_log w g))
     | _ \<Rightarrow> True)"

definition client_ok :: "nat \<Rightarrow> ws_world \<Rightarrow> bool" where
  "client_ok c w \<longleftrightarrow> (\<forall>g. snd (ww_peers w ! c) g \<le> length (ww_log w g)) \<and>
     peer_ok (c \<in> set (hb_clients (ww_hub w))) (found_stuck c w) (passed Events_loop c w) (passed Expiry_loop c w)
       (get_client c w)"

definition ws_inv :: "ws_world \<Rightarrow> bool" where
  "ws_inv w \<longleftrightarrow> \<not> ww_crashed w \<and> wf_hub (ww_hub w) \<and>
     length (ww_peers w) = length (hb_chans (ww_hub w)) \<and> (\<forall>g. cast_ok g w) \<and>
     (\<forall>c < length (ww_peers w). client_ok c w)"

lemma peer_ok_sent:
  "peer_ok b st es xs (ch, p) \<Longrightarrow> sent_to ch' p' = sent_to ch p \<Longrightarrow> ch_closed ch' = ch_closed ch \<Longrightarrow>
   pr_reading p' = pr_reading p \<Longrightarrow> pr_open p' = pr_open p \<Longrightarrow> pr_writing p' = pr_writing p \<Longrightarrow>
   pr_panicked p' = pr_panicked p \<Longrightarrow> pr_serving p' = pr_serving p \<Longrightarrow> peer_ok b st es xs (ch', p')"
  by (simp add: peer_ok_def)

text \<open>A client whose writer has gone keeps only the weaker half of the invariant.\<close>

lemma peer_ok_ends:
  "peer_ok b st es xs (ch, p) \<Longrightarrow> snaps (sent_to ch' p') \<le> snaps (sent_to ch p) \<Longrightarrow>
   ch_closed ch' = ch_closed ch \<Longrightarrow> pr_reading p' = pr_reading p \<Longrightarrow>
   \<not> pr_open p' \<Longrightarrow> \<not> pr_writing p' \<Longrightarrow> pr_panicked p' = pr_panicked p \<Longrightarrow>
   pr_serving p' = pr_serving p \<Longrightarrow> peer_ok b st es xs (ch', p')"
  by (simp add: peer_ok_def split: if_splits)

lemma Serve_snapshot_ok:
  assumes ok: "peer_ok b st es xs (ch, p)" "pr_serving p"
    and s: "Serve_snapshot (map_sum id Snap snap) (ch, p) = (ch', p')"
  shows "peer_ok b st es xs (ch', p') \<and> ch_closed ch' = ch_closed ch \<and>
    (length (ch_buf ch) \<le> sendBufferSize \<longrightarrow> length (ch_buf ch') \<le> sendBufferSize)"
proof (cases "\<exists>m. snap = Inr m \<and> \<not> ch_closed ch \<and> length (ch_buf ch) < sendBufferSize")
  case True
  then obtain m where m: "snap = Inr m" "\<not> ch_closed ch" "length (ch_buf ch) < sendBufferSize" by blast
  with s have "ch' = ch\<lparr>ch_buf := ch_buf ch @ [Snap m]\<rparr>" "p' = p\<lparr>pr_serving := False\<rparr>"
    by (simp_all add: Serve_snapshot_def try_send_def)
  with ok m show ?thesis by (simp add: peer_ok_def sent_to_def)
next
  case False
  with s have "ch' = ch \<and> (p' = p\<lparr>pr_serving := False\<rparr> \<or>
      ch_closed ch \<and> p' = p\<lparr>pr_serving := False, pr_panicked := True\<rparr>)"
    by (cases snap) (auto simp: Serve_snapshot_def try_send_def split: if_splits)
  with ok show ?thesis by (auto simp: peer_ok_def sent_to_def)
qed

lemma writePump_cases:
  assumes "writePump wk ok (ch, p) = (ch', p')"
  shows "(sent_to ch' p' = sent_to ch p \<and> pr_open p' = pr_open p \<and> pr_writing p' = pr_writing p \<or>
      snaps (sent_to ch' p') \<le> snaps (sent_to ch p) \<and> \<not> pr_open p' \<and> \<not> pr_writing p') \<and>
    ch_closed ch' = ch_closed ch \<and> pr_reading p' = pr_reading p \<and>
    pr_panicked p' = pr_panicked p \<and> pr_serving p' = pr_serving p \<and>
    length (ch_buf ch') \<le> length (ch_buf ch)"
proof (cases wk)
  case Wake_tick
  with assms show ?thesis
    by (cases ok) (auto simp: writePump_def pump_ends_def sent_to_def)
next
  case Wake_send
  show ?thesis
  proof (cases "ch_buf ch")
    case Nil
    with assms Wake_send show ?thesis
      by (cases "ch_closed ch"; cases ok) (auto simp: writePump_def pump_ends_def sent_to_def receive_def)
  next
    case (Cons m ms)
    with assms Wake_send show ?thesis
      by (cases ok; cases m) (auto simp: writePump_def pump_ends_def sent_to_def receive_def)
  qed
qed

lemma writePump_ok:
  assumes ok: "peer_ok b st es xs (ch, p)" and w: "writePump wk sent (ch, p) = (ch', p')"
  shows "peer_ok b st es xs (ch', p')"
proof -
  note c = writePump_cases [OF w]
  from c consider "sent_to ch' p' = sent_to ch p" "pr_open p' = pr_open p" "pr_writing p' = pr_writing p"
    | "snaps (sent_to ch' p') \<le> snaps (sent_to ch p)" "\<not> pr_open p'" "\<not> pr_writing p'" by blast
  then show ?thesis
  proof cases
    case 1
    with c show ?thesis by (intro peer_ok_sent [OF ok]) simp_all
  next
    case 2
    with c show ?thesis by (intro peer_ok_ends [OF ok]) simp_all
  qed
qed

lemma wf_hub_update:
  assumes "wf_hub h" and "\<And>ch. ch = hb_chans h ! c \<Longrightarrow> ch_closed ch' = ch_closed ch \<and>
      (length (ch_buf ch) \<le> sendBufferSize \<longrightarrow> length (ch_buf ch') \<le> sendBufferSize)"
  shows "wf_hub (h\<lparr>hb_chans := (hb_chans h)[c := ch']\<rparr>)"
proof -
  have "ch_closed ((hb_chans h)[c := ch'] ! x) = ch_closed (hb_chans h ! x) \<and>
      (length (ch_buf (hb_chans h ! x)) \<le> sendBufferSize \<longrightarrow>
       length (ch_buf ((hb_chans h)[c := ch'] ! x)) \<le> sendBufferSize)"
    if "x < length (hb_chans h)" for x
    using that assms(2) by (cases "x = c") auto
  with assms(1) show ?thesis unfolding wf_hub_def by (simp, blast)
qed

lemma wf_hub_add:
  assumes "wf_hub h"
  shows "wf_hub (add (length (hb_chans h)) (h\<lparr>hb_chans := hb_chans h @ [make_chan]\<rparr>))"
proof -
  have new: "length (hb_chans h) \<notin> set (hb_clients h)" using assms unfolding wf_hub_def by blast
  then show ?thesis
    using assms unfolding wf_hub_def add_def
    by (simp add: make_chan_def nth_append less_Suc_eq all_conj_distrib, auto)
qed

text \<open>What the invariant of a client depends on.\<close>

lemma client_ok_cong:
  assumes "client_ok c w" and "ww_peers w' ! c = ww_peers w ! c" and "get_client c w' = get_client c w"
    and "ww_log w' = ww_log w" and "\<And>g. pending g c w' = pending g c w"
    and "found_stuck c w' = found_stuck c w" and "(c \<in> set (hb_clients (ww_hub w'))) = (c \<in> set (hb_clients (ww_hub w)))"
  shows "client_ok c w'"
  using assms by (simp add: client_ok_def passed_def Let_def)

text \<open>A client that is in no hub or has been found stuck is owed nothing.\<close>

lemma peer_ok_free:
  "peer_ok b st es xs (ch, p) \<Longrightarrow> b' \<longrightarrow> b \<Longrightarrow> \<not> b' \<or> st' \<Longrightarrow> peer_ok b' st' es' xs' (ch, p)"
  by (auto simp: peer_ok_def)

lemma get_put_client [simp]:
  assumes "c < length (ww_peers w)" "length (ww_peers w) = length (hb_chans (ww_hub w))"
  shows "get_client x (put_client c y w) = (if x = c then y else get_client x w)"
    "snd (ww_peers (put_client c y w) ! x) = snd (ww_peers w ! x)"
  using assms by (auto simp: put_client_def get_client_def nth_list_update split: prod.split)

lemma put_client_rest [simp]:
  "ww_log (put_client c y w) = ww_log w" "ww_casts (put_client c y w) = ww_casts w"
  "ww_crashed (put_client c y w) = ww_crashed w" "length (ww_peers (put_client c y w)) = length (ww_peers w)"
  "hb_clients (ww_hub (put_client c y w)) = hb_clients (ww_hub w)"
  "length (hb_chans (ww_hub (put_client c y w))) = length (hb_chans (ww_hub w))"
  by (simp_all add: put_client_def split: prod.split)

lemma pending_put_client [simp]: "pending g x (put_client c y w) = pending g x w" "found_stuck x (put_client c y w) = found_stuck x w"
  by (simp_all add: pending_def found_stuck_def)

lemma put_client_inv:
  assumes inv: "ws_inv w" and c: "c < length (ww_peers w)" and old: "get_client c w = (ch, p)"
    and new: "\<And>b st es xs. peer_ok b st es xs (ch, p) \<Longrightarrow> peer_ok b st es xs (ch', p')"
    and closed: "ch_closed ch' = ch_closed ch"
    and len: "length (ch_buf ch) \<le> sendBufferSize \<Longrightarrow> length (ch_buf ch') \<le> sendBufferSize"
  shows "ws_inv (put_client c (ch', p') w)"
proof -
  have lens: "length (ww_peers w) = length (hb_chans (ww_hub w))" using inv by (simp add: ws_inv_def)
  note g = get_put_client [OF c lens]
  have "wf_hub ((ww_hub w)\<lparr>hb_chans := (hb_chans (ww_hub w))[c := ch']\<rparr>)"
    using inv closed len old by (intro wf_hub_update) (auto simp: ws_inv_def get_client_def)
  then have "wf_hub (ww_hub (put_client c (ch', p') w))" by (simp add: put_client_def)
  moreover have "client_ok x (put_client c (ch', p') w)" if "x < length (ww_peers w)" for x
    using inv that new old by (auto simp: ws_inv_def client_ok_def passed_def g Let_def)
  moreover have "cast_ok a (put_client c (ch', p') w)" for a
  proof -
    have "cast_ok a w" using inv by (simp add: ws_inv_def)
    then show ?thesis by (simp add: cast_ok_def g split: cast.split_asm cast.split)
  qed
  ultimately show ?thesis using inv by (simp add: ws_inv_def)
qed

lemma unlocked_casts: "unlocked w \<Longrightarrow> \<not> sending (ww_casts w g)"
  by (cases g) (simp_all add: unlocked_def)

lemma unlocked_pending: "unlocked w \<Longrightarrow> \<not> pending g c w"
  using unlocked_casts [of w g] by (cases "ww_casts w g") (simp_all add: pending_def)

lemma unlocked_cast_ok: "unlocked w \<Longrightarrow> cast_ok g w"
  using unlocked_casts [of w g] by (cases "ww_casts w g") (simp_all add: cast_ok_def)

lemma connect_inv:
  assumes inv: "ws_inv w" and free: "unlocked w"
  shows "ws_inv (connect w)"
proof -
  let ?n = "length (hb_chans (ww_hub w))"
  have wf: "wf_hub (ww_hub (connect w))"
    using inv wf_hub_add [of "ww_hub w"] by (simp add: ws_inv_def connect_def Let_def)
  have casts: "ww_casts (connect w) = ww_casts w" "ww_log (connect w) = ww_log w" "ww_crashed (connect w) = ww_crashed w"
    "length (ww_peers (connect w)) = Suc (length (ww_peers w))" "length (hb_chans (ww_hub (connect w))) = Suc ?n"
    "set (hb_clients (ww_hub (connect w))) = insert ?n (set (hb_clients (ww_hub w)))"
    by (simp_all add: connect_def Let_def add_def)
  then have free': "unlocked (connect w)" using free by (simp add: unlocked_def)
  have "client_ok c (connect w)" if "c < Suc (length (ww_peers w))" for c
  proof (cases "c = ?n")
    case True
    then have "get_client c (connect w) = (make_chan, new_peer)" "snd (ww_peers (connect w) ! c) = (\<lambda>g. length (ww_log w g))"
      using inv by (simp_all add: connect_def Let_def add_def get_client_def nth_append ws_inv_def)
    then show ?thesis
      by (simp add: client_ok_def casts passed_def unlocked_pending [OF free'] peer_ok_def new_peer_def make_chan_def sent_to_def)
  next
    case False
    with that inv have c: "c < length (ww_peers w)" "c < ?n" by (auto simp: ws_inv_def)
    then have "client_ok c w" using inv by (simp add: ws_inv_def)
    then show ?thesis
      by (rule client_ok_cong) (use c inv in \<open>simp_all add: casts pending_def found_stuck_def get_client_def\<close>,
        simp_all add: connect_def Let_def add_def nth_append ws_inv_def)
  qed
  then show ?thesis
    using inv wf unlocked_cast_ok [OF free'] by (simp add: ws_inv_def casts)
qed

text \<open>A removal does not panic, and leaves every other client and its channel alone.\<close>

lemma remove_inv:
  assumes inv: "ws_inv w"
  obtains h where "remove c (ww_hub w) = Inr h" "wf_hub h" "hb_clients h = removeAll c (hb_clients (ww_hub w))"
    "length (hb_chans h) = length (hb_chans (ww_hub w))"
    "\<And>x. x \<noteq> c \<Longrightarrow> hb_chans h ! x = hb_chans (ww_hub w) ! x"
    "ch_buf (hb_chans h ! c) = ch_buf (hb_chans (ww_hub w) ! c)"
    "ch_closed (hb_chans (ww_hub w) ! c) \<Longrightarrow> ch_closed (hb_chans h ! c)"
proof -
  have wf: "wf_hub (ww_hub w)" using inv by (simp add: ws_inv_def)
  obtain h where h: "remove c (ww_hub w) = Inr h" "wf_hub h" "hb_clients h = removeAll c (hb_clients (ww_hub w))"
    "hb_chans h = (if c \<in> set (hb_clients (ww_hub w))
       then (hb_chans (ww_hub w))[c := (hb_chans (ww_hub w) ! c)\<lparr>ch_closed := True\<rparr>]
       else hb_chans (ww_hub w))" by (rule remove_wf [OF wf, of c], rule that)
  have "length (hb_chans h) = length (hb_chans (ww_hub w))" "\<And>x. x \<noteq> c \<Longrightarrow> hb_chans h ! x = hb_chans (ww_hub w) ! x"
    by (simp_all add: h(4))
  moreover have "ch_buf (hb_chans h ! c) = ch_buf (hb_chans (ww_hub w) ! c)"
    "ch_closed (hb_chans (ww_hub w) ! c) \<Longrightarrow> ch_closed (hb_chans h ! c)"
    using wf by (auto simp: h(4) wf_hub_def)
  ultimately show ?thesis using that h(1-3) by blast
qed

lemma client_left:
  assumes ok: "client_ok c w" and peer: "snd (ww_peers w' ! c) = snd (ww_peers w ! c)" "ww_log w' = ww_log w"
    and gone: "c \<notin> set (hb_clients (ww_hub w'))"
    and p: "fst (ww_peers w' ! c) = fst (ww_peers w ! c) \<or> fst (ww_peers w' ! c) = fst (ww_peers w ! c)\<lparr>pr_reading := False\<rparr>"
    and ch: "ch_buf (hb_chans (ww_hub w') ! c) = ch_buf (hb_chans (ww_hub w) ! c)"
      "ch_closed (hb_chans (ww_hub w) ! c) \<Longrightarrow> ch_closed (hb_chans (ww_hub w') ! c)"
  shows "client_ok c w'"
  using ok gone p ch(2) by (auto simp: client_ok_def peer ch(1) get_client_def peer_ok_def sent_to_def)

lemma disconnect_inv:
  assumes inv: "ws_inv w" and free: "unlocked w"
  shows "ws_inv (disconnect c w)"
proof -
  obtain h where h: "remove c (ww_hub w) = Inr h" "wf_hub h" "hb_clients h = removeAll c (hb_clients (ww_hub w))"
    "length (hb_chans h) = length (hb_chans (ww_hub w))" "\<And>x. x \<noteq> c \<Longrightarrow> hb_chans h ! x = hb_chans (ww_hub w) ! x"
    "ch_buf (hb_chans h ! c) = ch_buf (hb_chans (ww_hub w) ! c)"
    "ch_closed (hb_chans (ww_hub w) ! c) \<Longrightarrow> ch_closed (hb_chans h ! c)"
    by (rule remove_inv [OF inv, of c], rule that)
  let ?w = "disconnect c w"
  have d: "ww_hub ?w = h" "ww_casts ?w = ww_casts w" "ww_log ?w = ww_log w" "ww_crashed ?w = ww_crashed w"
    "ww_peers ?w = (ww_peers w)[c := (fst (ww_peers w ! c)\<lparr>pr_reading := False\<rparr>, snd (ww_peers w ! c))]"
    by (simp_all add: disconnect_def crash_or_def h(1))
  have free': "unlocked ?w" using free by (simp add: unlocked_def d)
  have "client_ok x ?w" if x: "x < length (ww_peers w)" for x
  proof -
    have ok: "client_ok x w" using inv x by (simp add: ws_inv_def)
    show ?thesis
    proof (cases "x = c")
      case True
      with x show ?thesis by (intro client_left [OF ok]) (simp_all add: d h)
    next
      case False
      with x show ?thesis
        by (intro client_ok_cong [OF ok]) (simp_all add: d h get_client_def pending_def found_stuck_def)
    qed
  qed
  then show ?thesis using inv h(2,4) unlocked_cast_ok [OF free'] by (simp add: ws_inv_def d)
qed

lemma set_cast_simps [simp]:
  "ww_hub (set_cast g k w) = ww_hub w" "ww_peers (set_cast g k w) = ww_peers w" "ww_log (set_cast g k w) = ww_log w"
  "ww_crashed (set_cast g k w) = ww_crashed w" "ww_casts (set_cast g k w) = (ww_casts w)(g := k)"
  "get_client c (set_cast g k w) = get_client c w"
  by (simp_all add: set_cast_def get_client_def)

lemma two_casters: "g = Events_loop \<or> g = Expiry_loop"
  by (cases g) simp_all

lemma found_stuck_iff: "found_stuck c w \<longleftrightarrow> (\<exists>g. c \<in> set (cast_stuck (ww_casts w g)))"
  unfolding found_stuck_def by (metis two_casters)

lemma begin_inv:
  assumes inv: "ws_inv w" and idle: "ww_casts w g = Idle" and order: "mset order = mset (hb_clients (ww_hub w))"
  shows "ws_inv (broadcast_begin g m order w)"
proof -
  let ?w = "broadcast_begin g m order w"
  have wf: "wf_hub (ww_hub w)" and len: "length (ww_peers w) = length (hb_chans (ww_hub w))"
    using inv by (simp_all add: ws_inv_def)
  have set: "set order = set (hb_clients (ww_hub w))" using order by (rule mset_eq_setD)
  have b: "ww_hub ?w = ww_hub w" "ww_peers ?w = ww_peers w" "ww_casts ?w = (ww_casts w)(g := Sending m order [])"
    "ww_log ?w = (ww_log w)(g := ww_log w g @ [m])" "ww_crashed ?w = ww_crashed w" "\<And>c. get_client c ?w = get_client c w"
    by (simp_all add: broadcast_begin_def get_client_def)
  have stuck: "found_stuck c ?w = found_stuck c w" for c
    using idle by (auto simp: found_stuck_def b)
  have joined: "snd (ww_peers w ! c) a \<le> length (ww_log w a)" if "c < length (ww_peers w)" for c a
    using inv that by (simp add: ws_inv_def client_ok_def)
  have "client_ok c ?w" if c: "c < length (ww_peers w)" for c
  proof -
    have ok: "client_ok c w" using inv c by (simp add: ws_inv_def)
    have "passed a c ?w = passed a c w" if "c \<in> set (hb_clients (ww_hub w))" for a
      using that set idle joined [OF c, of g] by (auto simp: passed_def pending_def b Let_def)
    with ok show ?thesis
      using le_SucI [OF joined [OF c]] by (auto simp: client_ok_def stuck b peer_ok_def le_SucI)
  qed
  moreover have "cast_ok a ?w" for a
  proof (cases "a = g")
    case True
    have "distinct order" using order wf mset_eq_imp_distinct_iff [of order "hb_clients (ww_hub w)"] by (simp add: wf_hub_def)
    moreover have "snd (ww_peers w ! c) g < Suc (length (ww_log w g))" if "c \<in> set order" for c
      using that set joined [of c g] wf len by (auto simp: wf_hub_def less_Suc_eq_le)
    ultimately show ?thesis using True set by (simp add: cast_ok_def b)
  next
    case False
    moreover have "cast_ok a w" using inv by (simp add: ws_inv_def)
    ultimately show ?thesis by (simp add: cast_ok_def b split: cast.splits)
  qed
  ultimately show ?thesis using inv wf len by (simp add: ws_inv_def b)
qed

lemma finish_stuck_simps [simp]:
  "cast_stuck (finish_stuck stuck) = stuck" "cast_todo (finish_stuck stuck) = []" "\<not> sending (finish_stuck stuck)"
  by (simp_all add: finish_stuck_def)

lemma recast_inv:
  assumes inv: "ws_inv w" and new: "cast_todo (ww_casts w g) = []" "cast_todo k = []" "\<not> sending k"
    "cast_stuck k = cast_stuck (ww_casts w g)"
  shows "ws_inv (set_cast g k w)"
proof -
  have same: "pending a c (set_cast g k w) = pending a c w" "found_stuck c (set_cast g k w) = found_stuck c w" for a c
    using new by (auto simp: pending_def found_stuck_def)
  have "client_ok c (set_cast g k w)" if "c < length (ww_peers w)" for c
    by (rule client_ok_cong [of c w]) (use inv that in \<open>simp_all add: ws_inv_def same\<close>)
  moreover have "cast_ok a (set_cast g k w)" for a
  proof (cases "a = g")
    case True
    then show ?thesis using new(3) by (cases k) (simp_all add: cast_ok_def)
  next
    case False
    moreover have "cast_ok a w" using inv by (simp add: ws_inv_def)
    ultimately show ?thesis by (simp add: cast_ok_def split: cast.splits)
  qed
  ultimately show ?thesis using inv by (simp add: ws_inv_def)
qed

lemma offer_peer_ok:
  assumes "peer_ok True st (ps Events_loop) (ps Expiry_loop) (ch, p)" and "ps' g = ps g @ [m]"
    and "\<And>a. a \<noteq> g \<Longrightarrow> ps' a = ps a"
  shows "peer_ok True (st \<or> full ch) (ps' Events_loop) (ps' Expiry_loop) (offer (Delta m) ch, p)"
proof -
  have "deltas (sent_to (offer (Delta m) ch) p) = deltas (sent_to ch p) @ (if full ch then [] else [m])"
    "snaps (sent_to (offer (Delta m) ch) p) = snaps (sent_to ch p)"
    by (simp_all add: sent_to_def offer_def full_def)
  then show ?thesis
    using assms(1,2) assms(3) [of Events_loop] assms(3) [of Expiry_loop] two_casters [of g]
    by (auto simp: peer_ok_def shuffles_snoc1 shuffles_snoc2)
qed

lemma visit_inv:
  assumes inv: "ws_inv w" and k: "ww_casts w g = Sending m (c # todo) stuck"
  shows "ws_inv (broadcast_turn g w)"
proof -
  have wf: "wf_hub (ww_hub w)" and len: "length (ww_peers w) = length (hb_chans (ww_hub w))"
    using inv by (simp_all add: ws_inv_def)
  have cast: "c \<in> set (hb_clients (ww_hub w))" "set todo \<subseteq> set (hb_clients (ww_hub w))" "c \<notin> set todo" "distinct todo"
    "ww_log w g \<noteq> []" "last (ww_log w g) = m" "\<forall>x \<in> set (c # todo). snd (ww_peers w ! x) g < length (ww_log w g)"
    using inv k by (auto simp: ws_inv_def cast_ok_def dest!: spec [of _ g])
  let ?ch = "hb_chans (ww_hub w) ! c"
  have ch: "c < length (hb_chans (ww_hub w))" "\<not> ch_closed ?ch" using wf cast(1) by (auto simp: wf_hub_def)
  define w' where "w' = broadcast_turn g w"
  have b: "hb_clients (ww_hub w') = hb_clients (ww_hub w)" "hb_chans (ww_hub w') = (hb_chans (ww_hub w))[c := offer (Delta m) ?ch]"
    "ww_peers w' = ww_peers w" "ww_log w' = ww_log w" "ww_crashed w' = ww_crashed w"
    "ww_casts w' = (ww_casts w)(g := Sending m todo (if full ?ch then stuck @ [c] else stuck))"
    by (simp_all add: w'_def broadcast_turn_def k crash_or_def try_send_open [OF ch(2)])
  have "wf_hub ((ww_hub w)\<lparr>hb_chans := (hb_chans (ww_hub w))[c := offer (Delta m) ?ch]\<rparr>)"
    using wf by (intro wf_hub_update) auto
  moreover have "ww_hub w' = (ww_hub w)\<lparr>hb_chans := (hb_chans (ww_hub w))[c := offer (Delta m) ?ch]\<rparr>"
    using b(1,2) by simp
  ultimately have wf': "wf_hub (ww_hub w')" by simp
  have casts: "cast_stuck (ww_casts w' a) = cast_stuck (ww_casts w a) @ (if a = g \<and> full ?ch then [c] else [])"
    "pending a x w' \<longleftrightarrow> pending a x w \<and> (a \<noteq> g \<or> x \<noteq> c)" for a x
    using cast(3) by (cases "a = g"; auto simp: pending_def b k)+
  have "client_ok x w'" if x: "x < length (ww_peers w)" for x
  proof -
    have ok: "client_ok x w" using inv x by (simp add: ws_inv_def)
    show ?thesis
    proof (cases "x = c")
      case False
      with x len show ?thesis
        by (intro client_ok_cong [OF ok]) (simp_all add: b(1-5) get_client_def casts found_stuck_iff)
    next
      case True
      have due: "passed g c w' = passed g c w @ [m]"
      proof -
        let ?due = "drop (snd (ww_peers w ! c) g) (ww_log w g)"
        have "?due \<noteq> []" "last ?due = m" using cast(6,7) by (simp_all add: last_drop)
        then have "?due = butlast ?due @ [m]" by (metis append_butlast_last_id)
        moreover have "pending g c w" by (simp add: pending_def k)
        moreover have "\<not> pending g c w'" by (simp add: casts)
        ultimately show ?thesis by (simp add: passed_def b(3,4))
      qed
      have other: "passed a c w' = passed a c w" if "a \<noteq> g" for a
        using that by (simp add: passed_def pending_def b Let_def)
      have stuck: "found_stuck c w' \<longleftrightarrow> found_stuck c w \<or> full ?ch"
        by (auto simp: found_stuck_iff casts)
      have get: "get_client c w' = (offer (Delta m) ?ch, fst (ww_peers w ! c))"
        using ch(1) by (simp add: get_client_def b)
      have "peer_ok True (found_stuck c w) (passed Events_loop c w) (passed Expiry_loop c w) (?ch, fst (ww_peers w ! c))"
        using ok True cast(1) by (simp add: client_ok_def get_client_def)
      from offer_peer_ok [where ps = "\<lambda>a. passed a c w" and ps' = "\<lambda>a. passed a c w'", OF this due other]
      have "peer_ok True (found_stuck c w') (passed Events_loop c w') (passed Expiry_loop c w')
          (offer (Delta m) ?ch, fst (ww_peers w ! c))" by (simp add: stuck)
      then show ?thesis using ok True cast(1) by (simp add: client_ok_def get b)
    qed
  qed
  moreover have "cast_ok a w'" for a
  proof (cases "a = g")
    case True
    then show ?thesis using cast by (simp add: cast_ok_def b)
  next
    case False
    moreover have "cast_ok a w" using inv by (simp add: ws_inv_def)
    ultimately show ?thesis by (simp add: cast_ok_def b split: cast.splits)
  qed
  ultimately show ?thesis using inv wf' len by (simp add: ws_inv_def b flip: w'_def)
qed

lemma drop_inv:
  assumes inv: "ws_inv w" and k: "ww_casts w g = Dropping (c # stuck)" and free: "unlocked w"
  shows "ws_inv (broadcast_turn g w)"
proof -
  obtain h where h: "remove c (ww_hub w) = Inr h" "wf_hub h" "hb_clients h = removeAll c (hb_clients (ww_hub w))"
    "length (hb_chans h) = length (hb_chans (ww_hub w))" "\<And>x. x \<noteq> c \<Longrightarrow> hb_chans h ! x = hb_chans (ww_hub w) ! x"
    "ch_buf (hb_chans h ! c) = ch_buf (hb_chans (ww_hub w) ! c)"
    "ch_closed (hb_chans (ww_hub w) ! c) \<Longrightarrow> ch_closed (hb_chans h ! c)"
    by (rule remove_inv [OF inv, of c], rule that)
  define w' where "w' = broadcast_turn g w"
  have b: "ww_hub w' = h" "ww_peers w' = ww_peers w" "ww_log w' = ww_log w" "ww_crashed w' = ww_crashed w"
    "ww_casts w' = (ww_casts w)(g := finish_stuck stuck)"
    by (simp_all add: w'_def broadcast_turn_def k crash_or_def h(1))
  have free': "unlocked w'" using free by (cases g) (simp_all add: unlocked_def b)
  have casts: "set (cast_stuck (ww_casts w a)) = set (cast_stuck (ww_casts w' a)) \<union> (if a = g then {c} else {})" for a
    by (simp add: b k)
  have "client_ok x w'" if x: "x < length (ww_peers w)" for x
  proof -
    have ok: "client_ok x w" using inv x by (simp add: ws_inv_def)
    show ?thesis
    proof (cases "x = c")
      case True
      then show ?thesis by (intro client_left [OF ok]) (simp_all add: b h)
    next
      case False
      then have "found_stuck x w' = found_stuck x w" by (auto simp: found_stuck_iff casts)
      with False show ?thesis
        by (intro client_ok_cong [OF ok])
          (simp_all add: b(1-4) h get_client_def unlocked_pending [OF free] unlocked_pending [OF free'])
    qed
  qed
  then show ?thesis using inv h(2,4) unlocked_cast_ok [OF free'] by (simp add: ws_inv_def b flip: w'_def)
qed

lemma turn_inv:
  assumes inv: "ws_inv w" and free: "dropping (ww_casts w g) \<longrightarrow> unlocked w"
  shows "ws_inv (broadcast_turn g w)"
proof (cases "ww_casts w g")
  case Idle
  with inv show ?thesis by (simp add: broadcast_turn_def)
next
  case (Sending m todo stuck)
  with recast_inv [OF inv, of g "finish_stuck stuck"] visit_inv [OF inv, of g m] show ?thesis
    by (cases todo) (simp_all add: broadcast_turn_def)
next
  case (Dropping stuck)
  with recast_inv [OF inv, of g Idle] drop_inv [OF inv, of g] free show ?thesis
    by (cases stuck) (simp_all add: broadcast_turn_def)
qed

lemma ws_step_inv: "ws_step allowed w w' \<Longrightarrow> ws_inv w \<Longrightarrow> ws_inv w'"
proof (induction rule: ws_step.induct)
  case (serve c w snap)
  obtain ch p where g: "get_client c w = (ch, p)" by fastforce
  obtain ch' p' where s: "Serve_snapshot (map_sum id Snap snap) (ch, p) = (ch', p')" by fastforce
  have "pr_serving p" using serve.hyps(2) g by (auto simp: get_client_def)
  note ok = Serve_snapshot_ok [OF _ this s]
  have old: "peer_ok (c \<in> set (hb_clients (ww_hub w))) (found_stuck c w) (passed Events_loop c w) (passed Expiry_loop c w) (ch, p)"
    using serve.prems serve.hyps(1) g by (auto simp: ws_inv_def client_ok_def)
  show ?case
    unfolding g s
    by (rule put_client_inv [OF serve.prems serve.hyps(1) g]) (use ok old in blast)+
next
  case (pump c w sent wk)
  obtain ch p where g: "get_client c w = (ch, p)" by fastforce
  obtain ch' p' where s: "writePump wk sent (ch, p) = (ch', p')" by fastforce
  show ?case
    unfolding g s
    by (rule put_client_inv [OF pump.prems pump.hyps(1) g])
      (use writePump_ok [OF _ s] writePump_cases [OF s] in \<open>auto intro: le_trans\<close>)
qed (blast intro: connect_inv disconnect_inv begin_inv turn_inv)+

lemma ws_start_inv: "ws_inv ws_start"
  by (simp add: ws_inv_def ws_start_def cast_ok_def) (simp add: NewHub_def)

lemma ws_reachable_inv: "ws_reachable allowed w \<Longrightarrow> ws_inv w"
  by (induction rule: ws_reachable.induct) (blast intro: ws_start_inv ws_step_inv)+

section \<open>A broadcast that runs alone\<close>

text \<open>Its turns, taken without anything in between, are the function \<open>Broadcast\<close>.\<close>

lemma visits_run:
  "ww_casts w g = Sending m todo stuck \<Longrightarrow> send_all (Delta m) todo (hb_chans (ww_hub w)) = Inr (chs, st) \<Longrightarrow>
   (broadcast_turn g ^^ length todo) w =
     set_cast g (Sending m [] (stuck @ st)) (w\<lparr>ww_hub := (ww_hub w)\<lparr>hb_chans := chs\<rparr>\<rparr>)"
proof (induction todo arbitrary: w stuck st)
  case Nil
  then show ?case by (cases w) (auto simp: set_cast_def)
next
  case (Cons c todo)
  obtain ch sent where t: "try_send (Delta m) (hb_chans (ww_hub w) ! c) = Inr (ch, sent)"
    using Cons.prems(2) by (auto split: sum.splits)
  obtain st' where st: "send_all (Delta m) todo ((hb_chans (ww_hub w))[c := ch]) = Inr (chs, st')"
    "st = (if sent then st' else c # st')"
    using Cons.prems(2) t by (auto split: sum.splits)
  let ?w = "broadcast_turn g w"
  have w: "?w = set_cast g (Sending m todo (if sent then stuck else stuck @ [c]))
      (w\<lparr>ww_hub := (ww_hub w)\<lparr>hb_chans := (hb_chans (ww_hub w))[c := ch]\<rparr>\<rparr>)"
    by (simp add: broadcast_turn_def Cons.prems(1) t crash_or_def)
  have "(broadcast_turn g ^^ length todo) ?w =
      set_cast g (Sending m [] ((if sent then stuck else stuck @ [c]) @ st')) (?w\<lparr>ww_hub := (ww_hub ?w)\<lparr>hb_chans := chs\<rparr>\<rparr>)"
    by (rule Cons.IH) (simp_all add: w st(1))
  then show ?case
    by (simp add: funpow_Suc_right st(2) del: funpow.simps(2)) (simp add: w set_cast_def)
qed

lemma removals_run:
  "ww_casts w g = finish_stuck cs \<Longrightarrow> remove_each cs (ww_hub w) = Inr h \<Longrightarrow>
   (broadcast_turn g ^^ length cs) w = set_cast g Idle (w\<lparr>ww_hub := h\<rparr>)"
proof (induction cs arbitrary: w)
  case Nil
  then show ?case by (cases w) (auto simp: set_cast_def finish_stuck_def)
next
  case (Cons c cs)
  obtain h1 where h1: "remove c (ww_hub w) = Inr h1" "remove_each cs h1 = Inr h"
    using Cons.prems(2) by (auto split: sum.splits)
  let ?w = "broadcast_turn g w"
  have w: "?w = set_cast g (finish_stuck cs) (w\<lparr>ww_hub := h1\<rparr>)"
    using Cons.prems(1) by (simp add: broadcast_turn_def finish_stuck_def h1(1) crash_or_def)
  have "(broadcast_turn g ^^ length cs) ?w = set_cast g Idle (?w\<lparr>ww_hub := h\<rparr>)"
    by (rule Cons.IH) (simp_all add: w h1(2))
  then show ?case
    by (simp add: funpow_Suc_right del: funpow.simps(2)) (simp add: w set_cast_def)
qed

lemma broadcast_alone:
  assumes "Broadcast (Delta m) (ww_hub w) = Inr h" and "ww_casts w g = Idle"
  shows "\<exists>n. (broadcast_turn g ^^ n) (broadcast_begin g m (hb_clients (ww_hub w)) w) =
    w\<lparr>ww_hub := h, ww_log := (ww_log w)(g := ww_log w g @ [m])\<rparr>"
proof -
  obtain chs st where s: "send_all (Delta m) (hb_clients (ww_hub w)) (hb_chans (ww_hub w)) = Inr (chs, st)"
    "remove_each st ((ww_hub w)\<lparr>hb_chans := chs\<rparr>) = Inr h"
    using assms(1) by (auto simp: Broadcast_def split: sum.splits)
  let ?w0 = "broadcast_begin g m (hb_clients (ww_hub w)) w"
  let ?w1 = "set_cast g (Sending m [] st) (?w0\<lparr>ww_hub := (ww_hub w)\<lparr>hb_chans := chs\<rparr>\<rparr>)"
  have "(broadcast_turn g ^^ length (hb_clients (ww_hub w))) ?w0 = ?w1"
    using visits_run [of ?w0 g m "hb_clients (ww_hub w)" "[]" chs st] s(1) by (simp add: broadcast_begin_def)
  moreover have "broadcast_turn g ?w1 = set_cast g (finish_stuck st) ?w1" by (simp add: broadcast_turn_def)
  moreover have "(broadcast_turn g ^^ length st) (set_cast g (finish_stuck st) ?w1) =
      set_cast g Idle ((set_cast g (finish_stuck st) ?w1)\<lparr>ww_hub := h\<rparr>)"
    by (rule removals_run) (simp_all add: s(2))
  ultimately have "(broadcast_turn g ^^ (length st + Suc (length (hb_clients (ww_hub w))))) ?w0 =
      set_cast g Idle ((set_cast g (finish_stuck st) ?w1)\<lparr>ww_hub := h\<rparr>)"
    by (simp only: funpow_add funpow.simps(2) o_apply)
  also have "\<dots> = w\<lparr>ww_hub := h, ww_log := (ww_log w)(g := ww_log w g @ [m])\<rparr>"
    using assms(2) by (cases w) (auto simp: set_cast_def broadcast_begin_def)
  finally show ?thesis by blast
qed

section \<open>Properties\<close>

text \<open>A client that has its snapshot and is sent one delta by a whole broadcast.\<close>

definition one_client :: ws_world where
  "one_client = put_client 0 (Serve_snapshot (Inr (Snap JNull)) (get_client 0 (connect ws_start))) (connect ws_start)"

definition one_delta :: ws_world where
  "one_delta = broadcast_turn Events_loop (broadcast_turn Events_loop (broadcast_begin Events_loop (JBool True) [0] one_client))"

lemma start_unlocked [simp]: "unlocked ws_start" "unlocked (connect ws_start)"
  by (simp_all add: unlocked_def ws_start_def connect_def Let_def)

lemma connected_reachable: "ws_reachable allowed (connect ws_start)"
  by (rule ws_reachable.step [OF ws_reachable.start ws_step.upgrade [where origin = "[]"]]) (simp_all add: CheckOrigin_def)

text \<open>A first client, visited by a broadcast.\<close>

lemma first_visit:
  "broadcast_turn g (broadcast_begin g m [0] (connect ws_start)) = set_cast g (Sending m [] [])
     ((broadcast_begin g m [0] (connect ws_start))\<lparr>ww_hub := \<lparr>hb_clients = [0], hb_chans = [make_chan\<lparr>ch_buf := [Delta m]\<rparr>]\<rparr>\<rparr>)"
  by (simp add: broadcast_turn_def broadcast_begin_def crash_or_def try_send_def sendBufferSize_def connect_def ws_start_def
      NewHub_def add_def make_chan_def Let_def)

lemma first_visit_reachable:
  "ws_reachable allowed (broadcast_turn g (broadcast_begin g m [0] (connect ws_start)))"
proof -
  let ?w = "broadcast_begin g m [0] (connect ws_start)"
  have "ws_step allowed (connect ws_start) ?w"
    by (rule ws_step.begin_cast) (simp_all add: connect_def ws_start_def NewHub_def add_def Let_def)
  with connected_reachable have "ws_reachable allowed ?w" by (rule ws_reachable.step)
  moreover have "ws_step allowed ?w (broadcast_turn g ?w)" by (rule ws_step.turn) (simp_all add: broadcast_begin_def)
  ultimately show ?thesis by (rule ws_reachable.step)
qed

lemma one_client_reachable: "ws_reachable ''http://localhost:3000'' one_client"
proof -
  let ?o = "''http://localhost:3000''"
  have "ws_step ?o (connect ws_start)
      (put_client 0 (Serve_snapshot (map_sum id Snap (Inr JNull)) (get_client 0 (connect ws_start))) (connect ws_start))"
    by (rule ws_step.serve) (simp_all add: connect_def ws_start_def Let_def new_peer_def)
  with connected_reachable show ?thesis unfolding one_client_def by (auto intro: ws_reachable.step)
qed

text \<open>A broadcast that runs alone, of which a client list and the lock are known.\<close>

lemma one_delta_reachable: "ws_reachable ''http://localhost:3000'' one_delta"
proof -
  have c: "hb_clients (ww_hub one_client) = [0]" "ww_casts one_client Events_loop = Idle" by code_simp+
  let ?w = "broadcast_begin Events_loop (JBool True) [0] one_client"
  have t: "ww_casts ?w Events_loop = Sending (JBool True) [0] []" by (simp add: broadcast_begin_def)
  have u: "ww_casts (broadcast_turn Events_loop ?w) Events_loop = Sending (JBool True) [] []" by code_simp
  have "ws_reachable ''http://localhost:3000'' ?w"
    by (rule ws_reachable.step [OF one_client_reachable ws_step.begin_cast]) (simp_all add: c)
  then have "ws_reachable ''http://localhost:3000'' (broadcast_turn Events_loop ?w)"
    by (rule ws_reachable.step [OF _ ws_step.turn]) (simp_all add: t)
  then show ?thesis
    unfolding one_delta_def by (rule ws_reachable.step [OF _ ws_step.turn]) (simp_all add: u)
qed

text \<open>C12: under any interleaving of connections, snapshots, pumps, disconnects and broadcasts no
  goroutine sends on a closed channel or closes one twice, so the process never panics: the
  clients of the hub are exactly those whose channel is open, and no channel ever holds more
  than its 64 messages. Only the goroutine of \<open>Serve\<close> can panic, and only for a client
  whose channel is already closed.\<close>

theorem hub_never_panics:
  assumes "ws_reachable allowed w"
  shows "\<not> ww_crashed w \<and> wf_hub (ww_hub w) \<and>
    {c. c < length (ww_peers w) \<and> pr_panicked (fst (ww_peers w ! c))} \<subseteq>
    {c. ch_closed (hb_chans (ww_hub w) ! c)}"
  using ws_reachable_inv [OF assms] by (auto simp: ws_inv_def client_ok_def peer_ok_def get_client_def)

theorem hub_never_panics_witness: "\<not> ww_crashed one_delta \<and> wf_hub (ww_hub one_delta)"
  using hub_never_panics [OF one_delta_reachable] by blast

text \<open>Nothing leaks: a client in the hub still has its reader, so once the lock is free a failing read is a
  possible step, and that step takes it out of the hub and closes its channel without a panic.\<close>

lemma disconnect_leaves_hub:
  assumes "ws_reachable allowed w" and "c \<in> set (hb_clients (ww_hub w))" and "unlocked w"
  shows "ws_step allowed w (disconnect c w) \<and> \<not> ww_crashed (disconnect c w) \<and>
    c \<notin> set (hb_clients (ww_hub (disconnect c w)))"
proof -
  note inv = ws_reachable_inv [OF assms(1)]
  have c: "c < length (ww_peers w)" using inv assms(2) by (auto simp: ws_inv_def wf_hub_def)
  have "client_ok c w" using inv c by (simp add: ws_inv_def)
  with assms(2) have "pr_reading (fst (ww_peers w ! c))" by (auto simp: client_ok_def peer_ok_def get_client_def)
  with c assms(3) have "ws_step allowed w (disconnect c w)" by (blast intro: ws_step.read_fails)
  moreover obtain h where "remove c (ww_hub w) = Inr h" "hb_clients h = removeAll c (hb_clients (ww_hub w))"
    by (rule remove_inv [OF inv, of c], rule that)
  ultimately show ?thesis using inv by (simp add: disconnect_def crash_or_def ws_inv_def)
qed

text \<open>C36: the snapshot of \<open>Serve\<close> is sent without asking whether the client is still there: when the
  browser goes away while the snapshot is being built, \<open>Serve\<close> sends on a closed channel.\<close>

theorem snapshot_send_can_panic:
  "\<exists>w. ws_reachable allowed w \<and> pr_panicked (fst (ww_peers w ! 0))"
proof -
  let ?w = "disconnect 0 (connect ws_start)"
  note c = connected_reachable [of allowed]
  have "ws_step allowed (connect ws_start) ?w"
    by (rule ws_step.read_fails [OF _ _ start_unlocked(2)]) (simp_all add: connect_def ws_start_def Let_def new_peer_def)
  with c have d: "ws_reachable allowed ?w" by (rule ws_reachable.step)
  have "ws_step allowed ?w
      (put_client 0 (Serve_snapshot (map_sum id Snap (Inr JNull)) (get_client 0 ?w)) ?w)"
    by (rule ws_step.serve) code_simp+
  with d have "ws_reachable allowed
      (put_client 0 (Serve_snapshot (map_sum id Snap (Inr JNull)) (get_client 0 ?w)) ?w)"
    by (rule ws_reachable.step)
  moreover have "pr_panicked (fst (ww_peers
      (put_client 0 (Serve_snapshot (map_sum id Snap (Inr JNull)) (get_client 0 ?w)) ?w) ! 0))"
    by code_simp
  ultimately show ?thesis by blast
qed

end
