(* ===== verification/Ws_Client.thy ===== *)
theory Ws_Client
  imports Ws_Run
begin

text \<open>
  One websocket client among the goroutines of \<open>backend/ws\<close>: what it has been sent and is still to be
  sent by the two loops that broadcast, and how its backlog is worked off.
\<close>

section \<open>A client that stays\<close>

definition live :: "nat \<Rightarrow> ws_world \<Rightarrow> bool" where
  "live c w \<longleftrightarrow> c \<in> set (hb_clients (ww_hub w)) \<and> \<not> found_stuck c w \<and> pr_writing (fst (ww_peers w ! c))"

definition sent :: "nat \<Rightarrow> ws_world \<Rightarrow> item list" where
  "sent c w = sent_to (hb_chans (ww_hub w) ! c) (fst (ww_peers w ! c))"

text \<open>The message a loop is broadcasting, if the client is still to be visited with it.\<close>

definition owed :: "caster \<Rightarrow> nat \<Rightarrow> ws_world \<Rightarrow> json list" where
  "owed g c w = (if pending g c w then [last (ww_log w g)] else [])"

definition at_rest :: "ws_world \<Rightarrow> bool" where
  "at_rest w \<longleftrightarrow> (\<forall>g. ww_casts w g = Idle)"

lemma at_rest_simps:
  "at_rest w \<Longrightarrow> unlocked w" "at_rest w \<Longrightarrow> owed g c w = []" "at_rest w \<Longrightarrow> ww_casts w g = Idle"
  by (simp_all add: at_rest_def unlocked_def owed_def pending_def)

lemma sent_get_client: "get_client c w = (ch, p) \<Longrightarrow> sent c w = sent_to ch p"
  by (auto simp: sent_def get_client_def)

lemma deltas_Delta [simp]: "deltas (map Delta ms) = ms"
  by (induction ms) simp_all

lemma live_index: "ws_inv w \<Longrightarrow> live c w \<Longrightarrow> c < length (ww_peers w) \<and> c < length (hb_chans (ww_hub w))"
  unfolding ws_inv_def live_def wf_hub_def by auto

text \<open>What has been put on its way mixes, in some order, what each loop has visited it with.\<close>

lemma live_deltas:
  "ws_inv w \<Longrightarrow> live c w \<Longrightarrow>
   deltas (sent c w) \<in> shuffles (passed Events_loop c w) (passed Expiry_loop c w) \<and> snaps (sent c w) \<le> 1"
  using live_index [of w c]
  by (auto simp: live_def ws_inv_def client_ok_def peer_ok_def sent_def get_client_def split: if_splits)

lemma live_put_other:
  assumes "c' < length (ww_peers w)" "c \<noteq> c'"
  shows "live c (put_client c' x w) = live c w" "sent c (put_client c' x w) = sent c w"
    "ww_peers (put_client c' x w) ! c = ww_peers w ! c"
  using assms by (auto simp: live_def sent_def put_client_def found_stuck_def split: prod.splits)

lemma owed_put_client [simp]: "owed g c (put_client c' x w) = owed g c w"
  by (simp add: owed_def)

lemma live_remove_other:
  assumes inv: "ws_inv w" and h: "remove c' (ww_hub w) = Inr h" and l: "c \<noteq> c'"
  shows "c \<in> set (hb_clients h) \<longleftrightarrow> c \<in> set (hb_clients (ww_hub w))" "hb_chans h ! c = hb_chans (ww_hub w) ! c"
proof -
  obtain h' where h': "remove c' (ww_hub w) = Inr h'" "hb_clients h' = removeAll c' (hb_clients (ww_hub w))"
    "\<And>x. x \<noteq> c' \<Longrightarrow> hb_chans h' ! x = hb_chans (ww_hub w) ! x"
    by (rule remove_inv [OF inv, of c'], rule that)
  with h l show "c \<in> set (hb_clients h) \<longleftrightarrow> c \<in> set (hb_clients (ww_hub w))"
    "hb_chans h ! c = hb_chans (ww_hub w) ! c" by auto
qed

lemma removed_not_live:
  assumes inv: "ws_inv w" and h: "remove c (ww_hub w) = Inr h"
  shows "c \<notin> set (hb_clients h)"
proof -
  obtain h' where "remove c (ww_hub w) = Inr h'" "hb_clients h' = removeAll c (hb_clients (ww_hub w))"
    by (rule remove_inv [OF inv, of c], rule that)
  with h show ?thesis by simp
qed

section \<open>The turns of a broadcast\<close>

text \<open>The forms a turn takes in a reachable state.\<close>

lemma turn_visits:
  assumes inv: "ws_inv w" and k: "ww_casts w g = Sending m (c # todo) stuck"
  shows "broadcast_turn g w = set_cast g (Sending m todo (if full (hb_chans (ww_hub w) ! c) then stuck @ [c] else stuck))
      (w\<lparr>ww_hub := (ww_hub w)\<lparr>hb_chans := (hb_chans (ww_hub w))[c := offer (Delta m) (hb_chans (ww_hub w) ! c)]\<rparr>\<rparr>)"
    "c \<in> set (hb_clients (ww_hub w))" "c < length (hb_chans (ww_hub w))" "c \<notin> set todo" "last (ww_log w g) = m"
proof -
  show c: "c \<in> set (hb_clients (ww_hub w))" "c \<notin> set todo" "last (ww_log w g) = m"
    using inv k by (auto simp: ws_inv_def cast_ok_def dest!: spec [of _ g])
  have wf: "wf_hub (ww_hub w)" using inv by (simp add: ws_inv_def)
  show "c < length (hb_chans (ww_hub w))" using wf c(1) by (auto simp: wf_hub_def)
  have "\<not> ch_closed (hb_chans (ww_hub w) ! c)" using wf c(1) by (auto simp: wf_hub_def)
  then show "broadcast_turn g w = set_cast g (Sending m todo (if full (hb_chans (ww_hub w) ! c) then stuck @ [c] else stuck))
      (w\<lparr>ww_hub := (ww_hub w)\<lparr>hb_chans := (hb_chans (ww_hub w))[c := offer (Delta m) (hb_chans (ww_hub w) ! c)]\<rparr>\<rparr>)"
    by (simp add: broadcast_turn_def k crash_or_def try_send_open)
qed

lemma turn_drops:
  assumes inv: "ws_inv w" and k: "ww_casts w g = Dropping (c # stuck)"
  obtains h where "remove c (ww_hub w) = Inr h" "broadcast_turn g w = set_cast g (finish_stuck stuck) (w\<lparr>ww_hub := h\<rparr>)"
proof -
  obtain h where "remove c (ww_hub w) = Inr h" by (rule remove_inv [OF inv, of c], rule that)
  with that show ?thesis by (simp add: broadcast_turn_def k crash_or_def)
qed

lemma turn_ends:
  "ww_casts w g = Sending m [] stuck \<Longrightarrow> broadcast_turn g w = set_cast g (finish_stuck stuck) w"
  "ww_casts w g = Dropping [] \<Longrightarrow> broadcast_turn g w = set_cast g Idle w"
  by (simp_all add: broadcast_turn_def)

lemma recast_live:
  assumes "cast_stuck k = cast_stuck (ww_casts w g)"
  shows "live c (set_cast g k w) = live c w" "sent c (set_cast g k w) = sent c w"
proof -
  have "found_stuck c (set_cast g k w) = found_stuck c w"
    using assms two_casters [of g] by (auto simp: found_stuck_def)
  then show "live c (set_cast g k w) = live c w" "sent c (set_cast g k w) = sent c w"
    by (simp_all add: live_def sent_def)
qed

text \<open>A turn of either loop, for a client that stays: the peers and the logs are the same, it was there
  before, and it has been sent the message of the loop if it has been visited.\<close>

definition turned :: "caster \<Rightarrow> nat \<Rightarrow> ws_world \<Rightarrow> ws_world \<Rightarrow> bool" where
  "turned g c w w' \<longleftrightarrow> ww_peers w' = ww_peers w \<and> ww_log w' = ww_log w \<and>
     (\<forall>a. a \<noteq> g \<longrightarrow> ww_casts w' a = ww_casts w a) \<and> (pending g c w' \<longrightarrow> pending g c w) \<and>
     (live c w' \<longrightarrow> live c w \<and>
       (pending g c w' = pending g c w \<and> sent c w' = sent c w \<or>
        pending g c w \<and> \<not> pending g c w' \<and> sent c w' = sent c w @ [Delta (last (ww_log w g))]))"

lemma visit_turned:
  assumes inv: "ws_inv w" and k: "ww_casts w g = Sending m (x # xs) stuck"
  shows "turned g c w (broadcast_turn g w)"
proof -
  note t = turn_visits [OF inv k]
  let ?w = "broadcast_turn g w" and ?ch = "hb_chans (ww_hub w) ! x"
  have stuck: "found_stuck c ?w \<longleftrightarrow> found_stuck c w \<or> c = x \<and> full ?ch"
    using two_casters [of g] k by (auto simp: t(1) found_stuck_def)
  have pend: "pending g c ?w \<longleftrightarrow> c \<in> set xs" "pending g c w \<longleftrightarrow> c \<in> set (x # xs)"
    by (simp_all add: t(1) pending_def k)
  have chan: "hb_chans (ww_hub ?w) ! c = (if c = x then offer (Delta m) ?ch else hb_chans (ww_hub w) ! c)"
    using t(3) by (simp add: t(1))
  have rest: "ww_peers ?w = ww_peers w" "ww_log ?w = ww_log w" "\<forall>a. a \<noteq> g \<longrightarrow> ww_casts ?w a = ww_casts w a"
    "hb_clients (ww_hub ?w) = hb_clients (ww_hub w)" by (simp_all add: t(1))
  have live: "live c ?w \<longleftrightarrow> live c w \<and> \<not> (c = x \<and> full ?ch)" by (auto simp: live_def stuck rest)
  have sent: "sent c ?w = sent c w @ [Delta m]" if "c = x" "\<not> full ?ch"
    using that chan by (simp add: sent_def sent_to_def rest offer_def full_def)
  have other: "sent c ?w = sent c w" if "c \<noteq> x" using that by (simp add: sent_def chan rest)
  show ?thesis using rest(1-3) live sent other pend t(4,5) by (cases "c = x") (auto simp: turned_def)
qed

lemma drop_turned:
  assumes inv: "ws_inv w" and k: "ww_casts w g = Dropping (x # xs)"
  shows "turned g c w (broadcast_turn g w)"
proof -
  obtain h where h: "remove x (ww_hub w) = Inr h" "broadcast_turn g w = set_cast g (finish_stuck xs) (w\<lparr>ww_hub := h\<rparr>)"
    by (rule turn_drops [OF inv k])
  let ?w = "broadcast_turn g w"
  have rest: "ww_peers ?w = ww_peers w" "ww_log ?w = ww_log w" "\<forall>a. a \<noteq> g \<longrightarrow> ww_casts ?w a = ww_casts w a"
    by (simp_all add: h(2))
  have pend: "pending g c ?w = pending g c w" by (simp add: h(2) pending_def k)
  have "live c w \<and> sent c ?w = sent c w" if l: "live c ?w"
  proof -
    have "c \<noteq> x" using l removed_not_live [OF inv h(1)] by (auto simp: live_def h(2))
    moreover from this have "found_stuck c ?w = found_stuck c w"
      using two_casters [of g] k by (auto simp: h(2) found_stuck_def)
    ultimately show ?thesis
      using l live_remove_other [OF inv h(1), of c] by (simp add: live_def sent_def h(2))
  qed
  with rest pend show ?thesis unfolding turned_def by blast
qed

lemma turn_turned:
  assumes inv: "ws_inv w"
  shows "turned g c w (broadcast_turn g w)"
proof (cases "ww_casts w g")
  case Idle
  then show ?thesis by (simp add: turned_def broadcast_turn_def)
next
  case (Sending m todo stuck)
  show ?thesis
  proof (cases todo)
    case Nil
    with Sending recast_live [of "finish_stuck stuck" w g c] recast_live [of Idle w g c] show ?thesis
      by (simp add: turned_def turn_ends pending_def)
  qed (use Sending in \<open>simp add: visit_turned [OF inv]\<close>)
next
  case (Dropping stuck)
  show ?thesis
  proof (cases stuck)
    case Nil
    with Dropping recast_live [of "finish_stuck stuck" w g c] recast_live [of Idle w g c] show ?thesis
      by (simp add: turned_def turn_ends pending_def)
  qed (use Dropping in \<open>simp add: drop_turned [OF inv]\<close>)
qed

lemma turn_live:
  assumes inv: "ws_inv w"
  shows "ww_peers (broadcast_turn g w) = ww_peers w" "ww_log (broadcast_turn g w) = ww_log w"
    "a \<noteq> g \<Longrightarrow> ww_casts (broadcast_turn g w) a = ww_casts w a"
    "pending g c (broadcast_turn g w) \<Longrightarrow> pending g c w"
    "live c (broadcast_turn g w) \<Longrightarrow> live c w \<and>
      (pending g c (broadcast_turn g w) = pending g c w \<and> sent c (broadcast_turn g w) = sent c w \<or>
       pending g c w \<and> \<not> pending g c (broadcast_turn g w) \<and>
       sent c (broadcast_turn g w) = sent c w @ [Delta (last (ww_log w g))])"
  using turn_turned [OF inv, of g c] unfolding turned_def by blast+

section \<open>A step, seen from one client\<close>

lemma begin_live:
  assumes inv: "ws_inv w" and idle: "ww_casts w g = Idle"
  shows "live c (broadcast_begin g m order w) = live c w" "sent c (broadcast_begin g m order w) = sent c w"
    "pending g c (broadcast_begin g m order w) \<longleftrightarrow> c \<in> set order"
    "ww_peers (broadcast_begin g m order w) = ww_peers w"
    "ww_log (broadcast_begin g m order w) = (ww_log w)(g := ww_log w g @ [m])"
    "ww_hub (broadcast_begin g m order w) = ww_hub w"
    "ww_casts (broadcast_begin g m order w) = (ww_casts w)(g := Sending m order [])"
proof -
  have "found_stuck c (broadcast_begin g m order w) = found_stuck c w"
    using idle two_casters [of g] by (auto simp: found_stuck_def broadcast_begin_def)
  then show "live c (broadcast_begin g m order w) = live c w" "sent c (broadcast_begin g m order w) = sent c w"
    "pending g c (broadcast_begin g m order w) \<longleftrightarrow> c \<in> set order"
    "ww_peers (broadcast_begin g m order w) = ww_peers w"
    "ww_log (broadcast_begin g m order w) = (ww_log w)(g := ww_log w g @ [m])"
    "ww_hub (broadcast_begin g m order w) = ww_hub w"
    "ww_casts (broadcast_begin g m order w) = (ww_casts w)(g := Sending m order [])"
    by (simp_all add: live_def sent_def broadcast_begin_def pending_def)
qed

text \<open>A client whose \<open>Serve\<close> has not yet got past its snapshot; it never goes back to that.\<close>

abbreviation serving :: "nat \<Rightarrow> ws_world \<Rightarrow> bool" where
  "serving c w \<equiv> pr_serving (fst (ww_peers w ! c))"

lemma serve_ends: "c < length (ww_peers w) \<Longrightarrow> \<not> serving c (put_client c (Serve_snapshot snap (get_client c w)) w)"
  by (simp add: put_client_def Serve_snapshot_def get_client_def split: prod.splits sum.splits)

lemma step_served:
  assumes step: "ws_step allowed w w'" and inv: "ws_inv w" and c: "c < length (ww_peers w)"
  shows "c < length (ww_peers w') \<and> (serving c w' \<longrightarrow> serving c w)"
  using step
proof cases
  case (upgrade origin)
  with c show ?thesis by (auto simp: connect_def Let_def nth_append)
next
  case (serve c' snap)
  with c show ?thesis by (cases "c' = c") (auto simp: live_put_other)
next
  case (pump c' sent' wk)
  obtain ch p ch' p' where g: "get_client c' w = (ch, p)" and pm: "writePump wk sent' (ch, p) = (ch', p')"
    by (metis surj_pair)
  with pump c writePump_cases [OF pm] show ?thesis
    by (cases "c' = c") (auto simp: live_put_other put_client_def get_client_def)
next
  case (read_fails c')
  obtain h where "remove c' (ww_hub w) = Inr h" by (rule remove_inv [OF inv, of c'], rule that)
  with read_fails c show ?thesis
    by (cases "c' = c") (auto simp: disconnect_def crash_or_def)
next
  case (begin_cast g order m)
  with c show ?thesis by (simp add: begin_live(4) [OF inv])
next
  case (turn g)
  with c show ?thesis by (simp add: turn_live(1) [OF inv])
qed

text \<open>
  What becomes of the messages of the two loops in one step: those the client was owed and those whose
  broadcast begins are still owed or have passed it; and a client that stays has been sent
  what has passed it, unless this is the step that sends its snapshot.
\<close>

definition passes :: "nat \<Rightarrow> ws_world \<Rightarrow> ws_world \<Rightarrow> (caster \<Rightarrow> json list) \<Rightarrow> (caster \<Rightarrow> json list) \<Rightarrow> bool" where
  "passes c w w' new gone \<longleftrightarrow>
     (\<forall>g. ww_log w' g = ww_log w g @ new g \<and> owed g c w @ new g = gone g @ owed g c w') \<and>
     (gone Events_loop = [] \<or> gone Expiry_loop = []) \<and>
     (live c w' \<and> c < length (ww_peers w) \<and> (serving c w \<longrightarrow> serving c w') \<longrightarrow>
        live c w \<and> sent c w' = sent c w @ map Delta (gone Events_loop @ gone Expiry_loop))"

lemma passes_same:
  assumes "ww_log w' = ww_log w" "\<And>g. owed g c w' = owed g c w"
    and "live c w' \<Longrightarrow> c < length (ww_peers w) \<Longrightarrow> (serving c w \<longrightarrow> serving c w') \<Longrightarrow> live c w \<and> sent c w' = sent c w"
  shows "passes c w w' (\<lambda>g. []) (\<lambda>g. [])"
  using assms by (simp add: passes_def)

lemma owed_cong: "ww_casts w' = ww_casts w \<Longrightarrow> ww_log w' = ww_log w \<Longrightarrow> owed g c w' = owed g c w"
  by (simp add: owed_def pending_def)

lemma upgrade_passes:
  assumes inv: "ws_inv w"
  shows "passes c w (connect w) (\<lambda>g. []) (\<lambda>g. [])"
proof -
  have "live c w \<and> sent c (connect w) = sent c w" if "live c (connect w)" "c < length (ww_peers w)"
  proof -
    have "c < length (hb_chans (ww_hub w))" using inv that(2) by (simp add: ws_inv_def)
    with that show ?thesis by (auto simp: connect_def Let_def add_def live_def sent_def found_stuck_def nth_append)
  qed
  then show ?thesis by (intro passes_same owed_cong) (simp_all, simp_all add: connect_def Let_def)
qed

lemma pump_passes:
  assumes inv: "ws_inv w" and c': "c' < length (ww_peers w)"
  shows "passes c w (put_client c' (writePump wk ok (get_client c' w)) w) (\<lambda>g. []) (\<lambda>g. [])"
proof -
  let ?w = "put_client c' (writePump wk ok (get_client c' w)) w"
  have "live c w \<and> sent c ?w = sent c w" if l: "live c ?w" and c: "c < length (ww_peers w)"
  proof (cases "c' = c")
    case True
    obtain ch p where g: "get_client c w = (ch, p)" by fastforce
    obtain ch' p' where pm: "writePump wk ok (ch, p) = (ch', p')" by fastforce
    have len: "c < length (hb_chans (ww_hub w))" using inv c by (simp add: ws_inv_def)
    have w': "?w = put_client c (ch', p') w" using True g pm by simp
    have "pr_writing p'" using l c unfolding w' by (simp add: live_def put_client_def)
    with writePump_cases [OF pm] have "sent_to ch' p' = sent_to ch p" "pr_writing p" by auto
    with g l c len show ?thesis
      unfolding w' by (auto simp: live_def sent_def put_client_def get_client_def found_stuck_def)
  next
    case False
    with c' l show ?thesis by (auto simp: live_put_other)
  qed
  then show ?thesis by (intro passes_same owed_cong) simp_all
qed

lemma read_passes:
  assumes inv: "ws_inv w"
  shows "passes c w (disconnect c' w) (\<lambda>g. []) (\<lambda>g. [])"
proof -
  obtain h where h: "remove c' (ww_hub w) = Inr h" by (rule remove_inv [OF inv, of c'], rule that)
  have d: "ww_hub (disconnect c' w) = h" "ww_casts (disconnect c' w) = ww_casts w" "ww_log (disconnect c' w) = ww_log w"
    "ww_peers (disconnect c' w) = (ww_peers w)[c' := (fst (ww_peers w ! c')\<lparr>pr_reading := False\<rparr>, snd (ww_peers w ! c'))]"
    by (simp_all add: disconnect_def crash_or_def h)
  have "live c w \<and> sent c (disconnect c' w) = sent c w" if l: "live c (disconnect c' w)"
  proof -
    have "c \<noteq> c'" using l removed_not_live [OF inv h] by (auto simp: live_def d)
    with live_remove_other [OF inv h this] l show ?thesis by (auto simp: live_def sent_def found_stuck_def d)
  qed
  then show ?thesis by (intro passes_same owed_cong) (simp_all add: d)
qed

lemma begin_cast_passes:
  assumes inv: "ws_inv w" and idle: "ww_casts w g = Idle" and order: "mset order = mset (hb_clients (ww_hub w))"
  shows "passes c w (broadcast_begin g m order w) (\<lambda>a. if a = g then [m] else [])
    (\<lambda>a. if a = g \<and> c \<notin> set order then [m] else [])"
proof -
  let ?w = "broadcast_begin g m order w"
  note b = begin_live [OF inv idle, where m = m and order = order]
  have others: "owed a c ?w = owed a c w" if "a \<noteq> g" for a
    using that by (simp add: owed_def pending_def b)
  have "owed g c w = []" "owed g c ?w = (if c \<in> set order then [m] else [])"
    using idle by (simp add: owed_def pending_def) (simp add: owed_def b)
  moreover have "c \<in> set order" if "live c ?w"
    using that mset_eq_setD [OF order] unfolding b(1) by (simp add: live_def)
  ultimately show ?thesis using others by (auto simp: passes_def b)
qed

lemma turn_passes:
  assumes inv: "ws_inv w"
  shows "\<exists>gone. passes c w (broadcast_turn g w) (\<lambda>a. []) gone"
proof -
  let ?w = "broadcast_turn g w"
  note t = turn_live [OF inv, where g = g]
  have others: "owed a c ?w = owed a c w" if "a \<noteq> g" for a
    using that t(3) [OF that] by (simp add: owed_def pending_def t(2))
  define gone where "gone = (\<lambda>a. if a = g \<and> pending g c w \<and> \<not> pending g c ?w then [last (ww_log w g)] else [])"
  have own: "owed g c w = gone g @ owed g c ?w"
    using t(4) [where c = c] by (auto simp: gone_def owed_def t(2))
  have "live c w \<and> sent c ?w = sent c w @ map Delta (gone g)" if "live c ?w"
    using t(5) [where c = c] that by (auto simp: gone_def)
  moreover have "gone Events_loop @ gone Expiry_loop = gone g" "gone Events_loop = [] \<or> gone Expiry_loop = []"
    by (cases g; simp add: gone_def)+
  moreover have "ww_log ?w a = ww_log w a @ [] \<and> owed a c w @ [] = gone a @ owed a c ?w" for a
    using others [of a] own t(2) by (cases "a = g") (simp_all add: gone_def)
  ultimately have "passes c w ?w (\<lambda>a. []) gone" by (simp add: passes_def)
  then show ?thesis by blast
qed

lemma step_passes:
  assumes step: "ws_step allowed w w'" and inv: "ws_inv w"
  shows "\<exists>new gone. passes c w w' new gone"
  using step
proof cases
  case (upgrade origin)
  with upgrade_passes [OF inv, of c] show ?thesis by auto
next
  case (serve c' snap)
  then have "live c w \<and> sent c w' = sent c w" if "live c w'" "serving c w \<longrightarrow> serving c w'"
    using that serve_ends [of c w] by (cases "c' = c") (auto simp: live_put_other)
  then have "passes c w w' (\<lambda>g. []) (\<lambda>g. [])" by (intro passes_same owed_cong) (simp_all add: serve(1))
  then show ?thesis by blast
next
  case (pump c' sent' wk)
  with pump_passes [OF inv pump(2), of c] show ?thesis by blast
next
  case (read_fails c')
  with read_passes [OF inv, of c c'] show ?thesis by blast
next
  case (begin_cast g order m)
  with begin_cast_passes [OF inv begin_cast(2,3), of c m] show ?thesis by blast
next
  case (turn g)
  with turn_passes [OF inv, of c g] show ?thesis by blast
qed

section \<open>A backlog can be worked off\<close>

text \<open>A step that begins no broadcast.\<close>

definition inner_step :: "string \<Rightarrow> ws_world \<Rightarrow> ws_world \<Rightarrow> bool" where
  "inner_step allowedOrigin w w' \<longleftrightarrow> ws_step allowedOrigin w w' \<and> ww_log w' = ww_log w"

text \<open>The write pump writes what is queued for a client, one frame per turn.\<close>

definition alive :: "nat \<Rightarrow> ws_world \<Rightarrow> bool" where
  "alive c w \<longleftrightarrow> live c w \<and> pr_open (fst (ww_peers w ! c))"

definition written :: "nat \<Rightarrow> ws_world \<Rightarrow> bool" where
  "written c w \<longleftrightarrow> ch_buf (hb_chans (ww_hub w) ! c) = []"

lemma pump_all:
  assumes "ws_inv w" and "alive c w"
  shows "\<exists>w'. (inner_step allowed)\<^sup>*\<^sup>* w w' \<and> ws_inv w' \<and> alive c w' \<and> written c w' \<and>
    ww_casts w' = ww_casts w \<and> ww_log w' = ww_log w \<and> serving c w' = serving c w"
  using assms
proof (induction "ch_buf (hb_chans (ww_hub w) ! c)" arbitrary: w)
  case Nil
  then show ?case by (auto simp: written_def)
next
  case (Cons m ms)
  let ?w = "put_client c (writePump Wake_send True (get_client c w)) w"
  have c: "c < length (ww_peers w)" "c < length (hb_chans (ww_hub w))"
    using live_index [OF Cons.prems(1), of c] Cons.prems(2) by (simp_all add: alive_def)
  have step: "inner_step allowed w ?w"
    using Cons.prems(2) c unfolding inner_step_def by (intro conjI ws_step.pump) (simp_all add: alive_def live_def)
  have w: "alive c ?w" "ch_buf (hb_chans (ww_hub ?w) ! c) = ms" "serving c ?w = serving c w"
    using Cons.prems(2) c Cons.hyps(2) [symmetric]
    by (simp_all add: alive_def live_def get_client_def put_client_def writePump_def receive_def found_stuck_def)
  have "ws_inv ?w" using step Cons.prems(1) unfolding inner_step_def by (blast intro: ws_step_inv)
  with Cons.hyps(1) [OF w(2) [symmetric] this w(1)] w(3) show ?case
    using converse_rtranclp_into_rtranclp [of "inner_step allowed", OF step] by fastforce
qed

text \<open>How many turns the broadcasts in progress still take.\<close>

fun turns_left :: "cast \<Rightarrow> nat" where
  "turns_left Idle = 0"
| "turns_left (Sending m todo stuck) = 2 * length todo + length stuck + 2"
| "turns_left (Dropping stuck) = length stuck + 1"

lemma turns_left_finish: "turns_left (finish_stuck stuck) \<le> length stuck + 1"
  by (simp add: finish_stuck_def)

lemma turn_less:
  assumes inv: "ws_inv w" and "ww_casts w g \<noteq> Idle"
  shows "turns_left (ww_casts (broadcast_turn g w) g) < turns_left (ww_casts w g)"
proof (cases "ww_casts w g")
  case (Sending m todo stuck)
  then show ?thesis
    using turn_visits(1) [OF inv, of g m] turns_left_finish [of stuck] by (cases todo) (auto simp: turn_ends)
next
  case (Dropping stuck)
  show ?thesis
  proof (cases stuck)
    case (Cons c cs)
    obtain h where "broadcast_turn g w = set_cast g (finish_stuck cs) (w\<lparr>ww_hub := h\<rparr>)"
      by (rule turn_drops [OF inv Dropping [unfolded Cons]])
    then show ?thesis using turns_left_finish [of cs] by (simp add: Dropping Cons)
  qed (simp add: turn_ends Dropping)
qed (use assms in simp)

lemma turn_alive:
  assumes inv: "ws_inv w" and al: "alive c w" "written c w"
  shows "alive c (broadcast_turn g w)"
proof -
  have "c \<in> set (hb_clients (ww_hub w))" and stuck: "\<not> found_stuck c w" using al by (simp_all add: alive_def live_def)
  have empty: "\<not> full (hb_chans (ww_hub w) ! c)" using al(2) by (simp add: written_def full_def sendBufferSize_def)
  have "live c (broadcast_turn g w)"
  proof (cases "ww_casts w g")
    case Idle
    then show ?thesis using al by (simp add: broadcast_turn_def alive_def)
  next
    case (Sending m todo st)
    show ?thesis
    proof (cases todo)
      case Nil
      with Sending al show ?thesis by (simp add: turn_ends recast_live alive_def)
    next
      case (Cons x xs)
      note t = turn_visits [OF inv Sending [unfolded Cons]]
      have "found_stuck c (broadcast_turn g w) \<longleftrightarrow> found_stuck c w"
        using two_casters [of g] Sending empty by (auto simp: t(1) found_stuck_def)
      then show ?thesis using al by (simp add: t(1) live_def alive_def)
    qed
  next
    case (Dropping st)
    show ?thesis
    proof (cases st)
      case Nil
      with Dropping al show ?thesis by (simp add: turn_ends recast_live alive_def)
    next
      case (Cons x xs)
      obtain h where h: "remove x (ww_hub w) = Inr h" "broadcast_turn g w = set_cast g (finish_stuck xs) (w\<lparr>ww_hub := h\<rparr>)"
        by (rule turn_drops [OF inv Dropping [unfolded Cons]])
      have "c \<noteq> x" using stuck two_casters [of g] Dropping Cons by (auto simp: found_stuck_def)
      moreover have "\<not> found_stuck c (broadcast_turn g w)"
        using stuck two_casters [of g] Dropping Cons by (auto simp: found_stuck_def h(2))
      ultimately show ?thesis
        using live_remove_other [OF inv h(1), of c] al by (simp add: live_def alive_def h(2))
    qed
  qed
  then show ?thesis using al by (simp add: alive_def turn_live(1) [OF inv])
qed

text \<open>Some broadcast in progress can take a turn: one that holds the lock, or any if none does.\<close>

lemma turn_possible:
  assumes "\<not> at_rest w"
  obtains g where "ww_casts w g \<noteq> Idle" "ws_step allowed w (broadcast_turn g w)"
proof (cases "unlocked w")
  case True
  then show ?thesis using assms that by (auto simp: at_rest_def intro: ws_step.turn)
next
  case False
  then obtain g where "sending (ww_casts w g)" by (auto simp: unlocked_def)
  then show ?thesis using that [of g] ws_step.turn [of w g allowed] by (cases "ww_casts w g") auto
qed

lemma ws_drain:
  assumes "ws_inv w" and "alive c w"
  shows "\<exists>w'. (inner_step allowed)\<^sup>*\<^sup>* w w' \<and> ws_inv w' \<and> alive c w' \<and> written c w' \<and> at_rest w' \<and>
    ww_log w' = ww_log w \<and> serving c w' = serving c w"
  using assms
proof (induction "turns_left (ww_casts w Events_loop) + turns_left (ww_casts w Expiry_loop)" arbitrary: w rule: less_induct)
  case less
  obtain w1 where w1: "(inner_step allowed)\<^sup>*\<^sup>* w w1" "ws_inv w1" "alive c w1" "written c w1"
    "ww_casts w1 = ww_casts w" "ww_log w1 = ww_log w" "serving c w1 = serving c w" using pump_all [OF less.prems, of allowed] by blast
  show ?case
  proof (cases "at_rest w1")
    case True
    with w1 show ?thesis by blast
  next
    case False
    then obtain g where g: "ww_casts w1 g \<noteq> Idle" "ws_step allowed w1 (broadcast_turn g w1)"
      by (rule turn_possible)
    let ?w = "broadcast_turn g w1"
    have step: "inner_step allowed w1 ?w" by (simp add: inner_step_def g(2) turn_live(2) [OF w1(2)])
    have "turns_left (ww_casts ?w Events_loop) + turns_left (ww_casts ?w Expiry_loop) <
        turns_left (ww_casts w Events_loop) + turns_left (ww_casts w Expiry_loop)"
      using turn_less [OF w1(2) g(1)] turn_live(3) [OF w1(2), of _ g] two_casters [of g] by (auto simp: w1(5))
    from less.hyps [OF this ws_step_inv [OF g(2) w1(2)] turn_alive [OF w1(2-4)]]
    obtain w' where "(inner_step allowed)\<^sup>*\<^sup>* ?w w'" "ws_inv w'" "alive c w'" "written c w'" "at_rest w'" "ww_log w' = ww_log w"
      "serving c w' = serving c w"
      by (auto simp: turn_live(1,2) [OF w1(2)] w1(6,7))
    with rtranclp.rtrancl_into_rtrancl [of "inner_step allowed", OF w1(1) step] show ?thesis
      by (blast intro: rtranclp_trans)
  qed
qed

end
