(* ===== verification/Config.thy ===== *)
theory Config
  imports Go_Std
begin

text \<open>
  \<open>backend/config/config.go\<close> and the parts of \<open>backend/observability\<close> that decide something:
  the settings read from the environment, the log level, the request-scoped logger and the
  trace id. The environment is the function \<open>os.Getenv\<close>, empty for an unset variable.
\<close>

section \<open>Config\<close>

type_synonym env = "string \<Rightarrow> string"

record config =
  Port :: string
  DatabaseURL :: string
  RedisAddr :: string
  RedisPassword :: string
  HoldTTLSeconds :: int
  RateLimitPerMin :: int
  AllowedOrigin :: string
  OTelExporter :: string
  LogLevel :: string

definition getenv :: "env \<Rightarrow> string \<Rightarrow> string \<Rightarrow> string" where
  "getenv env key fallback = (let v = env key in if v \<noteq> [] then v else fallback)"

definition getenvInt :: "env \<Rightarrow> string \<Rightarrow> int \<Rightarrow> int" where
  "getenvInt env key fallback =
     (let v = env key
      in if v \<noteq> [] then (case atoi v of Some n \<Rightarrow> n | None \<Rightarrow> fallback) else fallback)"

definition Load :: "env \<Rightarrow> config \<times> go_error option" where
  "Load env =
     (let c = \<lparr>Port = getenv env ''BACKEND_PORT'' ''8080'',
               DatabaseURL = env ''DATABASE_URL'',
               RedisAddr = getenv env ''REDIS_ADDR'' ''redis:6379'',
               RedisPassword = env ''REDIS_PASSWORD'',
               HoldTTLSeconds = getenvInt env ''HOLD_TTL_SECONDS'' 120,
               RateLimitPerMin = getenvInt env ''RATE_LIMIT_PER_MINUTE'' 60,
               AllowedOrigin = getenv env ''ALLOWED_ORIGIN'' ''http://localhost:3000'',
               OTelExporter = getenv env ''OTEL_TRACES_EXPORTER'' ''stdout'',
               LogLevel = getenv env ''LOG_LEVEL'' ''info''\<rparr>
      in if DatabaseURL c = [] then (c, Some (Err ''DATABASE_URL is required''))
         else if HoldTTLSeconds c \<le> 0
           then (c, Some (Err (''HOLD_TTL_SECONDS must be positive, got '' @ itoa (HoldTTLSeconds c))))
         else (c, None))"

text \<open>\<open>time.Duration(cfg.HoldTTLSeconds) * time.Second\<close> in \<open>main\<close>.\<close>

definition hold_ttl :: "config \<Rightarrow> duration" where
  "hold_ttl c = word_of_int (HoldTTLSeconds c) * second"

section \<open>Observability\<close>

datatype level = LevelDebug | LevelInfo | LevelWarn | LevelError

definition InitLogger :: "string \<Rightarrow> level" where
  "InitLogger lvl =
     (if lvl = ''debug'' then LevelDebug
      else if lvl = ''warn'' then LevelWarn
      else if lvl = ''error'' then LevelError
      else LevelInfo)"

text \<open>
  The tracing that \<open>InitTracer\<close> sets up: none, or spans printed under the name of the service and
  of the instance. The errors are those of the exporter and of the merge of the resource.
\<close>

datatype tracing = Tracing_off | Tracing_stdout string string

definition InitTracer ::
  "string \<Rightarrow> string \<Rightarrow> go_error option \<Rightarrow> go_error option \<Rightarrow> (go_error, tracing) result" where
  "InitTracer exporter instanceID export_err merge_err =
     (if exporter = ''none'' \<or> exporter = [] then Inr Tracing_off
      else case export_err of
        Some e \<Rightarrow> Inl e
      | None \<Rightarrow>
          (case merge_err of
             Some e \<Rightarrow> Inl e
           | None \<Rightarrow> Inr (Tracing_stdout ''grabseat-backend'' instanceID)))"

text \<open>A context carries the values set on it; the logger is found under its own key.\<close>

record 'l request_ctx =
  cx_logger :: "'l option"
  cx_trace_id :: "string option"

definition WithLogger :: "'l request_ctx \<Rightarrow> 'l \<Rightarrow> 'l request_ctx" where
  "WithLogger ctx l = ctx\<lparr>cx_logger := Some l\<rparr>"

definition LoggerFromContext :: "'l \<Rightarrow> 'l request_ctx \<Rightarrow> 'l" where
  "LoggerFromContext dflt ctx = (case cx_logger ctx of Some l \<Rightarrow> l | None \<Rightarrow> dflt)"

definition TraceIDFromContext :: "'l request_ctx \<Rightarrow> string" where
  "TraceIDFromContext ctx = (case cx_trace_id ctx of Some t \<Rightarrow> t | None \<Rightarrow> [])"

section \<open>The hold time\<close>

lemma sint_seconds:
  assumes "0 \<le> n" "n \<le> 9223372036"
  shows "sint (word_of_int n * second) = n * 1000000000"
proof -
  have "word_of_int n * second = (word_of_int (n * 1000000000) :: 64 word)"
    by (simp add: second_def)
  moreover have "sint (word_of_int (n * 1000000000) :: 64 word) = n * 1000000000"
    by (subst int_word_sint) (use assms in simp)
  ultimately show ?thesis by (simp only:)
qed

lemma int_seconds_ttl: "0 < n \<Longrightarrow> n \<le> 9223372036 \<Longrightarrow> int_seconds (word_of_int n * second) = n"
  by (simp add: int_seconds_def sint_seconds trunc_div_def sgn_if)

text \<open>The number of seconds an operator sets is the number of seconds a hold lives: for every
  decimal value up to the limit of \<open>time.Duration\<close> the service starts with a hold time of
  exactly that many seconds, the value the hold script passes to \<open>EX\<close>.\<close>

theorem configured_hold_time:
  assumes "env ''DATABASE_URL'' \<noteq> []" and "env ''HOLD_TTL_SECONDS'' = itoa n"
    and "0 < n" "n \<le> 9223372036"
  shows "\<exists>c. Load env = (c, None) \<and> HoldTTLSeconds c = n \<and> int_seconds (hold_ttl c) = n"
proof -
  have "int_range n" using assms(3,4) by (simp add: int_range_def)
  moreover have "itoa n \<noteq> []" using assms(3) by (simp add: itoa_def)
  ultimately show ?thesis
    using assms by (simp add: Load_def Let_def getenvInt_def hold_ttl_def int_seconds_ttl)
qed

theorem configured_hold_time_witness:
  "\<exists>c. Load (\<lambda>k. if k = ''HOLD_TTL_SECONDS'' then itoa 15 else ''x'') = (c, None) \<and> HoldTTLSeconds c = 15
     \<and> int_seconds (hold_ttl c) = 15"
  by (rule configured_hold_time) simp_all

end
