(* ===== verification/Api.thy ===== *)
theory Api
  imports Contest Ratelimit Ws Config Sample
begin

text \<open>
  \<open>backend/api\<close>: the HTTP surface. A request carries the headers the code reads and its body
  after lexing; a response is a status, the headers the code sets and a JSON body. The
  handlers run over the state of one instance, its limiter, Redis and Postgres, with the fate
  of every round trip and the iteration order of every Go map as arguments.
\<close>

section \<open>Requests and responses\<close>

text \<open>\<open>ht_body\<close> is \<open>None\<close> when the body is empty or not JSON. \<open>ht_path\<close> is a clean path; the
  mux answers every other path with a redirect to the clean one.\<close>

record http_request =
  ht_method :: string
  ht_path :: string
  ht_origin :: string
  ht_client :: origin
  ht_body :: "json option"

record response =
  rs_status :: nat
  rs_headers :: "(string \<times> string) list"
  rs_body :: "json option"

text \<open>A response, or a connection handed to the websocket upgrade (let in or refused).\<close>

datatype reply = Reply response | Websocket bool

definition writeJSON :: "nat \<Rightarrow> json \<Rightarrow> response" where
  "writeJSON status v = \<lparr>rs_status = status,
     rs_headers = [(''Content-Type'', ''application/json'')], rs_body = Some v\<rparr>"

text \<open>The bodies below that the code builds as maps list their members by name, as \<open>Marshal\<close> does.\<close>

definition error_json :: "string \<Rightarrow> string \<Rightarrow> json" where
  "error_json code err = JObj [(''code'', JStr code), (''error'', JStr err)]"

definition em_dash :: string where
  "em_dash = [CHR 0xE2, CHR 0x80, CHR 0x94]"

definition unavailable :: response where
  "unavailable = writeJSON 503
     (error_json ''unavailable'' ''seat service temporarily unavailable, please retry'')"

section \<open>The server\<close>

record server =
  srv_Bookings :: service
  srv_Event :: event_row
  srv_Seats :: "seat list"
  srv_InstanceID :: string
  srv_HoldTTL :: duration
  srv_AllowedOrigin :: string

definition validSeats :: "server \<Rightarrow> seat_id \<Rightarrow> bool" where
  "validSeats srv seatID \<longleftrightarrow> seatID \<in> seat_ID ` set (srv_Seats srv)"

text \<open>The fates of the round trips of one request, its clock, the map orders and its trace id.\<close>

record 'r call_env =
  ce_hold :: hold_nets
  ce_confirm :: confirm_nets
  ce_pg :: pg_net
  ce_ping :: net
  ce_trips :: "'r trips"
  ce_booked_order :: "(seat_id \<times> session) list \<Rightarrow> (seat_id \<times> session) list"
  ce_held_order :: "(seat_id \<times> seat_state) list \<Rightarrow> (seat_id \<times> seat_state) list"
  ce_now :: int
  ce_trace :: string

section \<open>The snapshot\<close>

definition booked_state :: "seat_id \<times> session \<Rightarrow> seat_state" where
  "booked_state = (\<lambda>(seatID, sess). \<lparr>st_SeatID = seatID, st_Status = StatusBooked, st_HeldBy = [],
     st_BookedBy = sess, st_ExpiresAtMs = 0\<rparr>)"

definition snapshot_states ::
  "(seat_id \<times> session) list \<Rightarrow> (seat_id \<times> session) list \<Rightarrow> (seat_id \<times> seat_state) list \<Rightarrow> seat_state list" where
  "snapshot_states booked booked_iter held_iter =
     map booked_state booked_iter @
     map snd (filter (\<lambda>(seatID, st). map_of booked seatID = None) held_iter)"

definition BuildSnapshot ::
  "'r redis_api \<Rightarrow> server \<Rightarrow> 'r call_env \<Rightarrow> db \<Rightarrow> (go_error, snapshot) result option" where
  "BuildSnapshot R srv ce d =
     (case BookedSeats (ce_pg ce) (Event_ID (srv_Event srv)) d of
        Inl e \<Rightarrow> Some (Inl e)
      | Inr booked \<Rightarrow>
          (case HeldSeats R (ce_trips ce) of
             None \<Rightarrow> None
           | Some herr \<Rightarrow>
               let redisHealthy = (case herr of Inl _ \<Rightarrow> False | Inr _ \<Rightarrow> True);
                   held = (case herr of Inl _ \<Rightarrow> [] | Inr held \<Rightarrow> held)
               in Some (Inr \<lparr>sn_Type = MsgSnapshot, sn_InstanceID = srv_InstanceID srv,
                    sn_HoldTTLSeconds = int_seconds (srv_HoldTTL srv),
                    sn_ServerTimeMs = unix_milli (ce_now ce),
                    sn_Seats = snapshot_states booked (ce_booked_order ce booked) (ce_held_order ce held),
                    sn_RedisHealthy = redisHealthy\<rparr>)))"

section \<open>Reading handlers\<close>

fun pg_ok :: "pg_net \<Rightarrow> bool" where
  "pg_ok Pg_ok = True"
| "pg_ok (Pg_lost _) = False"

definition handleHealth :: "server \<Rightarrow> 'r call_env \<Rightarrow> 'm hub \<Rightarrow> response" where
  "handleHealth srv ce hub = writeJSON 200 (JObj
     [(''clients'', JInt (int (ClientCount hub))), (''instance'', JStr (srv_InstanceID srv)),
      (''postgres'', JBool (pg_ok (ce_pg ce))), (''redis'', JBool (Healthy (ce_ping ce))),
      (''status'', JStr ''ok'')])"

text \<open>The seats of an event without any are a nil slice, which is sent as \<open>null\<close>.\<close>

definition marshal_seats :: "seat list \<Rightarrow> json" where
  "marshal_seats seats = (if seats = [] then JNull else JArr (map marshal_seat seats))"

text \<open>The text of a time depends on the zone of the connection, so it is an argument.\<close>

definition marshal_event_row :: "(int \<Rightarrow> string) \<Rightarrow> event_row \<Rightarrow> json" where
  "marshal_event_row rfc3339 e = JObj
     [(''id'', JInt (Event_ID e)), (''slug'', JStr (Event_Slug e)), (''name'', JStr (Event_Name e)),
      (''venue'', JStr (Event_Venue e)), (''starts_at'', JStr (rfc3339 (Event_StartsAt e)))]"

definition handleEvent :: "(int \<Rightarrow> string) \<Rightarrow> server \<Rightarrow> response" where
  "handleEvent rfc3339 srv = writeJSON 200 (JObj
     [(''event'', marshal_event_row rfc3339 (srv_Event srv)),
      (''hold_ttl_seconds'', JInt (int_seconds (srv_HoldTTL srv))),
      (''instance'', JStr (srv_InstanceID srv)),
      (''seats'', marshal_seats (srv_Seats srv))])"

definition handleStats :: "server \<Rightarrow> 'r call_env \<Rightarrow> db \<Rightarrow> response" where
  "handleStats srv ce d =
     (case BookingStats (ce_pg ce) (Event_ID (srv_Event srv)) d of
        Inl e \<Rightarrow> writeJSON 503 (error_json ''unavailable'' ''could not read booking stats'')
      | Inr (cnt, uniq) \<Rightarrow> writeJSON 200 (JObj
          [(''bookings_total'', JInt (int cnt)), (''distinct_seats'', JInt (int uniq)),
           (''double_bookings'', JInt (int cnt - int uniq))]))"

definition handleState :: "'r redis_api \<Rightarrow> server \<Rightarrow> 'r call_env \<Rightarrow> db \<Rightarrow> response option" where
  "handleState R srv ce d = map_option (\<lambda>res. case res of
       Inl e \<Rightarrow> writeJSON 503 (error_json ''unavailable'' ''could not build seat state'')
     | Inr snap \<Rightarrow> \<lparr>rs_status = 200, rs_headers = [(''Content-Type'', ''application/json'')],
         rs_body = Some (marshal_snapshot snap)\<rparr>) (BuildSnapshot R srv ce d)"

section \<open>The two endpoints that change state\<close>

fun set_seat_id :: "(string \<times> json) list \<Rightarrow> int \<Rightarrow> int option" where
  "set_seat_id [] n = Some n"
| "set_seat_id ((k, v) # ms) n =
     (if field_match ''seat_id'' k
      then (case decode_int v n of None \<Rightarrow> None | Some n' \<Rightarrow> set_seat_id ms n')
      else set_seat_id ms n)"

fun decode_seatRequest :: "json \<Rightarrow> int option" where
  "decode_seatRequest (JObj ms) = set_seat_id ms 0"
| "decode_seatRequest JNull = Some 0"
| "decode_seatRequest _ = None"

definition parseSeatRequest :: "server \<Rightarrow> http_request \<Rightarrow> (response, session \<times> seat_id) result" where
  "parseSeatRequest srv req =
     (let sess = og_session (ht_client req) in
      if sess = [] then Inl (writeJSON 400 (error_json ''no_session'' ''missing X-Session-Id header''))
      else case Option.bind (ht_body req) decode_seatRequest of
        None \<Rightarrow> Inl (writeJSON 400 (error_json ''bad_request'' ''invalid JSON body''))
      | Some seatID \<Rightarrow>
          if \<not> validSeats srv seatID
          then Inl (writeJSON 404 (error_json ''no_such_seat'' ''unknown seat''))
          else Inr (sess, seatID))"

definition conflict_json :: "string \<Rightarrow> seat_id \<Rightarrow> string \<Rightarrow> json" where
  "conflict_json status seatID msg = JObj
     [(''message'', JStr msg), (''seat_id'', JInt seatID), (''status'', JStr status)]"

text \<open>An outcome without a case writes nothing, which the server sends as an empty 200.\<close>

definition empty_response :: response where
  "empty_response = \<lparr>rs_status = 200, rs_headers = [], rs_body = None\<rparr>"

fun hold_response :: "seat_id \<Rightarrow> int \<Rightarrow> outcome \<Rightarrow> response" where
  "hold_response seatID ms OutcomeHeld = writeJSON 200 (JObj
     [(''expires_at_ms'', JInt ms), (''seat_id'', JInt seatID), (''status'', JStr ''held'')])"
| "hold_response seatID ms OutcomeTaken =
     writeJSON 409 (conflict_json ''taken'' seatID ''someone grabbed this seat first'')"
| "hold_response seatID ms OutcomeSeatBooked =
     writeJSON 409 (conflict_json ''seat_booked'' seatID ''this seat is already sold'')"
| "hold_response seatID ms _ = empty_response"

fun confirm_response :: "seat_id \<Rightarrow> outcome \<Rightarrow> response" where
  "confirm_response seatID OutcomeConfirmed =
     writeJSON 200 (JObj [(''seat_id'', JInt seatID), (''status'', JStr ''confirmed'')])"
| "confirm_response seatID OutcomeAlreadyMine =
     writeJSON 200 (JObj [(''seat_id'', JInt seatID), (''status'', JStr ''already_mine'')])"
| "confirm_response seatID OutcomeConflict =
     writeJSON 409 (conflict_json ''conflict'' seatID ''this seat belongs to someone else'')"
| "confirm_response seatID OutcomeExpired =
     writeJSON 409 (conflict_json ''hold_expired'' seatID
       (''your hold expired '' @ em_dash @ '' the seat is open again''))"
| "confirm_response seatID _ = empty_response"

definition handleHold ::
  "'r redis_api \<Rightarrow> server \<Rightarrow> 'r call_env \<Rightarrow> http_request \<Rightarrow> 'r \<times> db \<Rightarrow> ('r \<times> db) \<times> response" where
  "handleHold R srv ce req = (\<lambda>(r, d).
     (case parseSeatRequest srv req of
        Inl resp \<Rightarrow> ((r, d), resp)
      | Inr (sess, seatID) \<Rightarrow>
          (case Hold R (srv_Bookings srv) (ce_hold ce) (ce_now ce) seatID sess r of
             (r', Inl e) \<Rightarrow> ((r', d), unavailable)
           | (r', Inr (oc, ms)) \<Rightarrow> ((r', d), hold_response seatID ms oc))))"

definition handleConfirm ::
  "'r redis_api \<Rightarrow> server \<Rightarrow> 'r call_env \<Rightarrow> http_request \<Rightarrow> 'r \<times> db \<Rightarrow> ('r \<times> db) \<times> response" where
  "handleConfirm R srv ce req st =
     (case parseSeatRequest srv req of
        Inl resp \<Rightarrow> (st, resp)
      | Inr (sess, seatID) \<Rightarrow>
          (case Confirm R (srv_Bookings srv) (ce_confirm ce) seatID sess st of
             (st', Inl e) \<Rightarrow> (st', unavailable)
           | (st', Inr oc) \<Rightarrow> (st', confirm_response seatID oc)))"

definition denyRateLimited :: response where
  "denyRateLimited = writeJSON 429
     (error_json ''rate_limited'' (''too many requests '' @ em_dash @ '' slow down''))"

section \<open>Routing and middleware\<close>

datatype route =
    R_health | R_event | R_state | R_stats | R_ws | R_hold | R_confirm
  | R_not_found | R_not_allowed

text \<open>A \<open>GET\<close> pattern of the mux also takes \<open>HEAD\<close>.\<close>

definition only :: "string list \<Rightarrow> string \<Rightarrow> route \<Rightarrow> route" where
  "only methods meth rt = (if meth \<in> set methods then rt else R_not_allowed)"

definition route :: "string \<Rightarrow> string \<Rightarrow> route" where
  "route meth path =
     (let gets = [''GET'', ''HEAD''] in
      if path = ''/healthz'' then only gets meth R_health
      else if path = ''/api/event'' then only gets meth R_event
      else if path = ''/api/state'' then only gets meth R_state
      else if path = ''/api/stats'' then only gets meth R_stats
      else if path = ''/ws'' then only gets meth R_ws
      else if path = ''/api/hold'' then only [''POST''] meth R_hold
      else if path = ''/api/confirm'' then only [''POST''] meth R_confirm
      else R_not_found)"

definition plain_response :: "nat \<Rightarrow> response" where
  "plain_response status = \<lparr>rs_status = status, rs_headers = [], rs_body = None\<rparr>"

text \<open>What the handlers share: the limiter, Redis and Postgres; the hub is only read.\<close>

type_synonym ('l, 'r) backend = "'l limiter \<times> 'r \<times> db"

definition limited ::
  "'l rate_api \<Rightarrow> ('r \<times> db \<Rightarrow> ('r \<times> db) \<times> response) \<Rightarrow> int \<Rightarrow> http_request \<Rightarrow> ('l, 'r) backend
     \<Rightarrow> ('l, 'r) backend \<times> reply option" where
  "limited A handler now req st =
     (case Middleware A (\<lambda>s. (s, denyRateLimited)) handler now (ht_client req) st of
        (st', resp) \<Rightarrow> (st', Some (Reply resp)))"

definition mux ::
  "'r redis_api \<Rightarrow> 'l rate_api \<Rightarrow> (int \<Rightarrow> string) \<Rightarrow> server \<Rightarrow> 'm hub \<Rightarrow> 'r call_env \<Rightarrow> http_request
     \<Rightarrow> ('l, 'r) backend \<Rightarrow> ('l, 'r) backend \<times> reply option" where
  "mux R A rfc3339 srv hub ce req st =
     (case route (ht_method req) (ht_path req) of
        R_health \<Rightarrow> (st, Some (Reply (handleHealth srv ce hub)))
      | R_event \<Rightarrow> (st, Some (Reply (handleEvent rfc3339 srv)))
      | R_state \<Rightarrow> (st, map_option Reply (handleState R srv ce (snd (snd st))))
      | R_stats \<Rightarrow> (st, Some (Reply (handleStats srv ce (snd (snd st)))))
      | R_ws \<Rightarrow> (st, Some (Websocket (CheckOrigin (srv_AllowedOrigin srv) (ht_origin req))))
      | R_hold \<Rightarrow> limited A (handleHold R srv ce req) (ce_now ce) req st
      | R_confirm \<Rightarrow> limited A (handleConfirm R srv ce req) (ce_now ce) req st
      | R_not_found \<Rightarrow> (st, Some (Reply (plain_response 404)))
      | R_not_allowed \<Rightarrow> (st, Some (Reply (plain_response 405))))"

fun with_headers :: "(string \<times> string) list \<Rightarrow> reply \<Rightarrow> reply" where
  "with_headers hs (Reply resp) = Reply (resp\<lparr>rs_headers := hs @ rs_headers resp\<rparr>)"
| "with_headers hs (Websocket ok) = Websocket ok"

definition cors_headers :: "server \<Rightarrow> (string \<times> string) list" where
  "cors_headers srv =
     [(''Access-Control-Allow-Origin'', srv_AllowedOrigin srv),
      (''Access-Control-Allow-Methods'', ''GET, POST, OPTIONS''),
      (''Access-Control-Allow-Headers'', ''Content-Type, X-Session-Id''),
      (''Access-Control-Expose-Headers'', ''X-Trace-Id'')]"

definition corsMiddleware ::
  "server \<Rightarrow> (http_request \<Rightarrow> 's \<Rightarrow> 's \<times> reply option) \<Rightarrow> http_request \<Rightarrow> 's \<Rightarrow> 's \<times> reply option" where
  "corsMiddleware srv next req st =
     (if ht_method req = ''OPTIONS''
      then (st, Some (with_headers (cors_headers srv) (Reply (plain_response 204))))
      else case next req st of
        (st', rep) \<Rightarrow> (st', map_option (with_headers (cors_headers srv)) rep))"

text \<open>The line logged for a request; the recorder's status is 200 until a header is written.\<close>

record access_line =
  al_trace_id :: string
  al_method :: string
  al_path :: string
  al_session :: string
  al_status :: nat

fun recorded_status :: "reply \<Rightarrow> nat" where
  "recorded_status (Reply resp) = rs_status resp"
| "recorded_status (Websocket ok) = 200"

definition traceMiddleware ::
  "string \<Rightarrow> (http_request \<Rightarrow> 's \<Rightarrow> 's \<times> reply option) \<Rightarrow> http_request \<Rightarrow> access_line list \<times> 's
     \<Rightarrow> (access_line list \<times> 's) \<times> reply option" where
  "traceMiddleware traceID next req = (\<lambda>(lg, st).
     (case next req st of
        (st', None) \<Rightarrow> ((lg, st'), None)
      | (st', Some rep) \<Rightarrow>
          let rep' = (if traceID \<noteq> [] then with_headers [(''X-Trace-Id'', traceID)] rep else rep);
              line = \<lparr>al_trace_id = traceID, al_method = ht_method req, al_path = ht_path req,
                al_session = og_session (ht_client req), al_status = recorded_status rep\<rparr>
          in ((if ht_path req \<noteq> ''/ws'' then lg @ [line] else lg, st'), Some rep')))"

definition Handler ::
  "'r redis_api \<Rightarrow> 'l rate_api \<Rightarrow> (int \<Rightarrow> string) \<Rightarrow> server \<Rightarrow> 'm hub \<Rightarrow> 'r call_env \<Rightarrow> http_request
     \<Rightarrow> access_line list \<times> ('l, 'r) backend \<Rightarrow> (access_line list \<times> ('l, 'r) backend) \<times> reply option" where
  "Handler R A rfc3339 srv hub ce =
     traceMiddleware (ce_trace ce) (corsMiddleware srv (mux R A rfc3339 srv hub ce))"

section \<open>What a snapshot shows\<close>

definition shown :: "seat_state list \<Rightarrow> seat_id \<Rightarrow> seat_view" where
  "shown sts s = (case find (\<lambda>st. st_SeatID st = s) sts of
     None \<Rightarrow> Free
   | Some st \<Rightarrow> if st_Status st = StatusBooked then SoldTo (st_BookedBy st) else HeldBy (st_HeldBy st))"

text \<open>The order in which Go iterates over a map is some permutation of its entries.\<close>

definition iterates :: "'r call_env \<Rightarrow> bool" where
  "iterates ce \<longleftrightarrow> (\<forall>m. mset (ce_booked_order ce m) = mset m) \<and> (\<forall>m. mset (ce_held_order ce m) = mset m)"

definition held_map :: "(seat_id \<times> seat_state) list \<Rightarrow> bool" where
  "held_map held \<longleftrightarrow> distinct_keys held \<and>
     (\<forall>s st. map_of held s = Some st \<longrightarrow> st_SeatID st = s \<and> st_Status st = StatusHeld)"

definition known_status :: "seat_state \<Rightarrow> bool" where
  "known_status st \<longleftrightarrow> st_Status st = StatusHeld \<or> st_Status st = StatusBooked"

lemma held_map_in:
  "held_map held \<Longrightarrow> (k, st) \<in> set held \<Longrightarrow> st_SeatID st = k"
  unfolding held_map_def by (blast dest: mem_iff_map_of [THEN iffD1])

lemma find_booked: "find (\<lambda>st. st_SeatID st = s) (map booked_state bs) =
    map_option (\<lambda>u. booked_state (s, u)) (map_of bs s)"
  by (induction bs) (auto simp: booked_state_def)

lemma find_held:
  "\<forall>(k, st) \<in> set hs. st_SeatID st = k \<Longrightarrow>
   find (\<lambda>st. st_SeatID st = s) (map snd hs) = map_of hs s"
  by (induction hs) auto

lemma snapshot_lookup:
  assumes "distinct_keys booked" "mset bi = mset booked" "held_map held" "mset hi = mset held"
  shows "find (\<lambda>st. st_SeatID st = s) (snapshot_states booked bi hi) =
    (case map_of booked s of Some u \<Rightarrow> Some (booked_state (s, u)) | None \<Rightarrow> map_of held s)"
proof -
  have b: "map_of bi = map_of booked"
    by (rule mset_eq_same_map(2) [OF assms(2) [symmetric] assms(1)])
  have dh: "distinct_keys held" using assms(3) by (simp add: held_map_def)
  note h = mset_eq_same_map [OF assms(4) [symmetric] dh]
  have "\<forall>(k, st) \<in> set hi. st_SeatID st = k"
    using held_map_in [OF assms(3)] h(3) by blast
  then have "\<forall>(k, st) \<in> set (filter (\<lambda>(k, st). map_of booked k = None) hi). st_SeatID st = k" by auto
  from find_held [OF this, of s] show ?thesis
    by (simp add: snapshot_states_def find_append find_booked b map_of_filter_key h(2) split: option.split)
qed

lemma snapshot_ids_distinct:
  assumes "distinct_keys booked" "mset bi = mset booked" "held_map held" "mset hi = mset held"
  shows "distinct (map st_SeatID (snapshot_states booked bi hi))"
proof -
  have dh: "distinct_keys held" using assms(3) by (simp add: held_map_def)
  note b = mset_eq_same_map [OF assms(2) [symmetric] assms(1)]
  note h = mset_eq_same_map [OF assms(4) [symmetric] dh]
  let ?hs = "filter (\<lambda>(k, st). map_of booked k = None) hi"
  have id: "st_SeatID st = k" if "(k, st) \<in> set ?hs" for k st
    using that held_map_in [OF assms(3)] h(3) by simp
  have "map st_SeatID (map snd ?hs) = map fst ?hs" using id by auto
  moreover have "map st_SeatID (map booked_state bi) = map fst bi"
    by (auto simp: booked_state_def)
  ultimately have ids: "map st_SeatID (snapshot_states booked bi hi) = map fst bi @ map fst ?hs"
    by (simp add: snapshot_states_def)
  have "distinct (map fst ?hs)" using h(1) by (rule distinct_map_filter)
  moreover have "set (map fst bi) \<inter> set (map fst ?hs) = {}"
  proof -
    have "map_of booked k \<noteq> None" if "k \<in> set (map fst bi)" for k
      using that b(3) by (simp add: map_of_eq_None_iff)
    then show ?thesis by fastforce
  qed
  ultimately show ?thesis unfolding ids distinct_append using b(1) by blast
qed

lemma snapshot_status_known:
  assumes "held_map held" "mset hi = mset held"
  shows "list_all known_status (snapshot_states booked bi hi)"
proof -
  have "st_Status st = StatusHeld" if "(k, st) \<in> set hi" for k st
  proof -
    have "(k, st) \<in> set held" using that mset_eq_setD [OF assms(2)] by simp
    with assms(1) show ?thesis unfolding held_map_def by (blast dest: mem_iff_map_of [THEN iffD1])
  qed
  then show ?thesis
    by (auto simp: snapshot_states_def list_all_iff known_status_def booked_state_def)
qed

section \<open>Errors\<close>

lemma confirm_error_is_fault:
  assumes run: "Confirm R sv nets s u (r, d) = (st', Inl e)" and ok: "insertable d s (sv_eventID sv)"
  shows "(\<exists>n. cn_owner nets = Failed n) \<or> \<not> pg_ok (cn_lookup nets) \<or> \<not> pg_ok (cn_insert nets) \<or>
    \<not> pg_ok (cn_readback nets)"
proof (rule ccontr)
  assume none: "\<not> ?thesis"
  then obtain n where n: "cn_owner nets = Answered n" by (cases "cn_owner nets") auto
  have pg: "cn_lookup nets = Pg_ok" "cn_insert nets = Pg_ok" "cn_readback nets = Pg_ok"
    using none by (cases "cn_lookup nets"; cases "cn_insert nets"; cases "cn_readback nets"; simp)+
  obtain r1 h where h: "HoldOwner R (Answered n) s r = (r1, Inr h)"
    by (cases "rd_get R (server_runs n (\<lambda>r. (r, rd_get R r (holdKey s))) r) (holdKey s)")
      (auto simp: HoldOwner_def Let_def)
  have i4: "int4 s" "int4 (sv_eventID sv)" using ok by (simp_all add: insertable_def)
  have look: "\<exists>ow. BookingOwner Pg_ok s d = (d, Inr ow)"
    using i4 by (auto simp: BookingOwner_ok)
  have ins: "\<exists>d' ow. ConfirmBooking Pg_ok Pg_ok (sv_eventID sv) s u d = (d', Inr ow)"
    using i4 ok by (cases "booking_owner d s") (auto simp: ConfirmBooking_taken ConfirmBooking_free)
  show False
    using run look ins
    by (auto simp: Confirm_def n pg h Let_def split: prod.splits sum.splits if_splits)
qed

section \<open>Who changes the state\<close>

lemma hold_response_status: "rs_status (hold_response s ms oc) \<in> {200, 409}"
  by (cases oc) (simp_all add: writeJSON_def empty_response_def)

lemma confirm_response_status: "rs_status (confirm_response s oc) \<in> {200, 409}"
  by (cases oc) (simp_all add: writeJSON_def empty_response_def)

lemma handleHold_refused:
  assumes "handleHold R srv ce req st = (st', resp)" "rs_status resp \<notin> {200, 409, 503}"
  shows "st' = st"
proof (cases "parseSeatRequest srv req")
  case (Inl x)
  with assms show ?thesis by (cases st) (simp add: handleHold_def)
next
  case (Inr p)
  with assms hold_response_status show ?thesis
    by (cases st) (auto simp: handleHold_def unavailable_def writeJSON_def split: prod.splits sum.splits)
qed

lemma handleConfirm_refused:
  assumes "handleConfirm R srv ce req st = (st', resp)" "rs_status resp \<notin> {200, 409, 503}"
  shows "st' = st"
proof (cases "parseSeatRequest srv req")
  case (Inl x)
  with assms show ?thesis by (simp add: handleConfirm_def)
next
  case (Inr p)
  with assms confirm_response_status show ?thesis
    by (auto simp: handleConfirm_def unavailable_def writeJSON_def split: prod.splits sum.splits)
qed

lemma limited_refused:
  assumes "limited A h now req (l, s) = ((l', s'), Some (Reply resp))"
    and "rs_status resp \<notin> {200, 409, 503}"
    and "\<And>st' resp. h s = (st', resp) \<Longrightarrow> rs_status resp \<notin> {200, 409, 503} \<Longrightarrow> st' = s"
  shows "s' = s"
  using assms
  by (cases "h s") (auto simp: limited_def Middleware_def split: prod.splits if_splits)

lemma mux_refused:
  assumes "mux R A rfc srv hub ce req (l, s) = ((l', s'), Some (Reply resp))"
    and "rs_status resp \<notin> {200, 409, 503}"
  shows "s' = s"
proof (cases "route (ht_method req) (ht_path req) \<in> {R_hold, R_confirm}")
  case False
  with assms show ?thesis by (cases "route (ht_method req) (ht_path req)") (auto simp: mux_def)
next
  case True
  then consider "route (ht_method req) (ht_path req) = R_hold"
    | "route (ht_method req) (ht_path req) = R_confirm" by blast
  then show ?thesis
  proof cases
    case 1
    with assms(1) have "limited A (handleHold R srv ce req) (ce_now ce) req (l, s) = ((l', s'), Some (Reply resp))"
      by (simp add: mux_def)
    from limited_refused [OF this assms(2)] handleHold_refused show ?thesis by blast
  next
    case 2
    with assms(1) have "limited A (handleConfirm R srv ce req) (ce_now ce) req (l, s) = ((l', s'), Some (Reply resp))"
      by (simp add: mux_def)
    from limited_refused [OF this assms(2)] handleConfirm_refused show ?thesis by blast
  qed
qed

text \<open>\<open>Hold\<close> and \<open>Confirm\<close> return only the outcomes their handlers have a case for.\<close>

lemma Hold_outcomes:
  "Hold R sv nets now s u r = (r', Inr (oc, ms)) \<Longrightarrow> oc \<in> {OutcomeHeld, OutcomeTaken, OutcomeSeatBooked}"
  by (auto simp: Hold_def Let_def split: prod.splits sum.splits if_splits)

lemma Confirm_outcomes:
  "Confirm R sv nets s u st = (st', Inr oc) \<Longrightarrow>
   oc \<in> {OutcomeConfirmed, OutcomeAlreadyMine, OutcomeConflict, OutcomeExpired}"
  by (cases st) (auto simp: Confirm_def resolve_outcome_def Let_def split: prod.splits sum.splits if_splits)

section \<open>Properties\<close>

lemma BuildSnapshot_live:
  assumes R: "redis R" and trips: "\<And>i. ce_trips ce i = Some (\<lambda>_. r, clk i)" and canon: "canonical_holds R r"
    and wf: "wf_db d" "only_event (Event_ID (srv_Event srv)) d" and pg: "ce_pg ce = Pg_ok"
    and it: "iterates ce"
  shows "\<exists>snap. BuildSnapshot R srv ce d = Some (Inr snap) \<and> sn_RedisHealthy snap \<and>
    sn_Type snap = MsgSnapshot \<and> list_all known_status (sn_Seats snap) \<and>
    distinct (map st_SeatID (sn_Seats snap)) \<and>
    (\<forall>s. int_range s \<longrightarrow> shown (sn_Seats snap) s = view R (r, d) s)"
proof -
  obtain booked where b: "BookedSeats Pg_ok (Event_ID (srv_Event srv)) d = Inr booked"
    by (simp add: BookedSeats_def)
  note bk = BookedSeats_lookup(1) [OF wf(1) b] BookedSeats_owner [OF wf b]
  obtain held where h: "HeldSeats R (ce_trips ce) = Some (Inr held)" "distinct_keys held"
    "\<forall>s. int_range s \<longrightarrow> (case seat_holder R r s of None \<Rightarrow> map_of held s = None
       | Some u \<Rightarrow> \<exists>i j. map_of held s = held_entry R r (clk i j) s)"
    "\<forall>s st. map_of held s = Some st \<longrightarrow> (\<exists>i j. held_entry R r (clk i j) s = Some st)"
    using redis.HeldSeats_static [OF R, where obs = "ce_trips ce" and clk = clk, OF trips canon] by blast
  have hm: "held_map held" using h(2,4) by (auto simp: held_map_def dest: held_entry_SomeD)
  let ?sts = "snapshot_states booked (ce_booked_order ce booked) (ce_held_order ce held)"
  have perm: "mset (ce_booked_order ce booked) = mset booked" "mset (ce_held_order ce held) = mset held"
    using it by (simp_all add: iterates_def)
  have "shown ?sts s = view R (r, d) s" if "int_range s" for s
  proof (cases "booking_owner d s")
    case (Some u)
    then show ?thesis
      by (simp add: shown_def snapshot_lookup [OF bk(1) perm(1) hm perm(2)] bk(2) view_def booked_state_def)
  next
    case None
    have "map_of held s = None \<longleftrightarrow> seat_holder R r s = None"
      using h(3) that by (auto simp: held_entry_eq split: option.splits)
    moreover have "seat_holder R r s = Some (st_HeldBy st) \<and> st_Status st = StatusHeld"
      if "map_of held s = Some st" for st
      using h(4) that by (auto dest!: held_entry_SomeD)
    ultimately show ?thesis
      using None
      by (auto simp: shown_def snapshot_lookup [OF bk(1) perm(1) hm perm(2)] bk(2) view_def
          status_consts split: option.splits)
  qed
  then show ?thesis
    using b h(1) pg snapshot_ids_distinct [OF bk(1) perm(1) hm perm(2)] snapshot_status_known [OF hm perm(2)]
    by (simp add: BuildSnapshot_def Let_def)
qed

text \<open>
  Over a Redis that changes between the commands of the build, the bookings having been read first: a
  seat whose hold was the same in all the states the build saw is shown as these two reads have it.
\<close>

lemma BuildSnapshot_over:
  assumes R: "redis R" and snap: "BuildSnapshot R srv ce d = Some (Inr snap)" "sn_RedisHealthy snap"
    and canon: "\<And>i rs clk j. ce_trips ce i = Some (rs, clk) \<Longrightarrow> canonical_holds R (rs j)"
    and wf: "wf_db d" "only_event (Event_ID (srv_Event srv)) d" and it: "iterates ce"
  shows "sn_Type snap = MsgSnapshot" "list_all known_status (sn_Seats snap)" "distinct (map st_SeatID (sn_Seats snap))"
    "int_range s \<Longrightarrow> (\<And>i rs clk j. ce_trips ce i = Some (rs, clk) \<Longrightarrow> seat_holder R (rs j) s = h) \<Longrightarrow>
      shown (sn_Seats snap) s = (case booking_owner d s of Some u \<Rightarrow> SoldTo u
        | None \<Rightarrow> (case h of Some u \<Rightarrow> HeldBy u | None \<Rightarrow> Free))"
proof -
  obtain booked held where b: "BookedSeats (ce_pg ce) (Event_ID (srv_Event srv)) d = Inr booked"
    and h: "HeldSeats R (ce_trips ce) = Some (Inr held)"
    and sn: "sn_Type snap = MsgSnapshot"
      "sn_Seats snap = snapshot_states booked (ce_booked_order ce booked) (ce_held_order ce held)"
    using snap by (auto simp: BuildSnapshot_def Let_def split: sum.splits option.splits)
  note bk = BookedSeats_lookup(1) [OF wf(1) b] BookedSeats_owner [OF wf b]
  have hm: "held_map held"
    using HeldSeats_entries [OF h] by (auto simp: held_map_def)
  have perm: "mset (ce_booked_order ce booked) = mset booked" "mset (ce_held_order ce held) = mset held"
    using it by (simp_all add: iterates_def)
  show "sn_Type snap = MsgSnapshot" "list_all known_status (sn_Seats snap)" "distinct (map st_SeatID (sn_Seats snap))"
    using snapshot_ids_distinct [OF bk(1) perm(1) hm perm(2)] snapshot_status_known [OF hm perm(2)] by (simp_all add: sn)
  assume s: "int_range s" and same: "\<And>i rs clk j. ce_trips ce i = Some (rs, clk) \<Longrightarrow> seat_holder R (rs j) s = h"
  have "map_option st_HeldBy (map_of held s) = h"
    by (rule redis.HeldSeats_steady [OF R h s]) (blast intro: canon same)+
  moreover have "st_Status st = StatusHeld" if "map_of held s = Some st" for st using hm that by (simp add: held_map_def)
  ultimately show "shown (sn_Seats snap) s = (case booking_owner d s of Some u \<Rightarrow> SoldTo u
      | None \<Rightarrow> (case h of Some u \<Rightarrow> HeldBy u | None \<Rightarrow> Free))"
    by (auto simp: shown_def sn snapshot_lookup [OF bk(1) perm(1) hm perm(2)] bk(2) booked_state_def status_consts
        split: option.splits)
qed

text \<open>The concrete server and calls of the witnesses.\<close>

definition sample_server :: server where
  "sample_server = \<lparr>srv_Bookings = sample_service, srv_Event = hd (db_events sample_db),
     srv_Seats = map sr_seat (db_seats sample_db), srv_InstanceID = ''b1'',
     srv_HoldTTL = 120 * second, srv_AllowedOrigin = ''http://localhost:3000''\<rparr>"

definition sample_call :: "mem_state \<Rightarrow> mem_state call_env" where
  "sample_call r = \<lparr>ce_hold = ok_hold, ce_confirm = ok_confirm, ce_pg = Pg_ok, ce_ping = Answered 0,
     ce_trips = \<lambda>i. Some (\<lambda>_. r, \<lambda>_. 0), ce_booked_order = rev, ce_held_order = rev, ce_now = 0, ce_trace = ''t''\<rparr>"

definition sample_request :: "string \<Rightarrow> string \<Rightarrow> string \<Rightarrow> json option \<Rightarrow> http_request" where
  "sample_request meth path sess body = \<lparr>ht_method = meth, ht_path = path, ht_origin = [],
     ht_client = \<lparr>og_session = sess, og_forwarded = [], og_remote = ''10.0.0.1:5000''\<rparr>, ht_body = body\<rparr>"

lemma sample_iterates [simp]: "iterates (sample_call r)"
  by (simp add: iterates_def sample_call_def)

lemma canonical_held [simp]: "canonical_holds mem_redis held_redis"
  by (auto simp: canonical_holds_def mem_defs held_redis_def int_range_def split: if_splits)

lemma sample_server_event [simp]: "Event_ID (srv_Event sample_server) = 1"
  by (simp add: sample_server_def sample_db_def)

text \<open>C11: a snapshot taken while Redis answers and does not change shows every seat as it is: sold
  where Postgres has a booking, whatever Redis says, held where Redis has a hold and Postgres
  no booking, free elsewhere, each seat at most once, for every iteration order of the maps.\<close>

theorem snapshot_shows_view:
  assumes "redis R" and "\<And>i. ce_trips ce i = Some (\<lambda>_. r, clk i)" and "canonical_holds R r"
    and "wf_db d" "only_event (Event_ID (srv_Event srv)) d" and "ce_pg ce = Pg_ok"
    and "iterates ce"
  shows "\<exists>snap. BuildSnapshot R srv ce d = Some (Inr snap) \<and> sn_RedisHealthy snap \<and>
    distinct (map st_SeatID (sn_Seats snap)) \<and>
    (\<forall>s. int_range s \<longrightarrow> shown (sn_Seats snap) s = view R (r, d) s)"
  using BuildSnapshot_live [OF assms] by blast

theorem snapshot_shows_view_witness:
  "\<exists>snap. BuildSnapshot mem_redis sample_server (sample_call held_redis) sample_db = Some (Inr snap)
     \<and> shown (sn_Seats snap) 1 = HeldBy ''ada'' \<and> shown (sn_Seats snap) 2 = Free"
proof -
  have t: "ce_trips (sample_call held_redis) i = Some (\<lambda>_. held_redis, (\<lambda>_ _. 0) i)" for i
    by (simp add: sample_call_def)
  have "ce_pg (sample_call held_redis) = Pg_ok" by (simp add: sample_call_def)
  from snapshot_shows_view [OF mem.redis_axioms t canonical_held wf_sample_db(1) _ this sample_iterates,
      of sample_server]
  obtain snap where s: "BuildSnapshot mem_redis sample_server (sample_call held_redis) sample_db = Some (Inr snap)"
    "\<forall>s. int_range s \<longrightarrow> shown (sn_Seats snap) s = view mem_redis (held_redis, sample_db) s" by auto
  moreover have "view mem_redis (held_redis, sample_db) 1 = HeldBy ''ada''"
    "view mem_redis (held_redis, sample_db) 2 = Free" by (simp_all add: view_def)
  ultimately show ?thesis by (auto simp: int_range_def)
qed

text \<open>C33: with Redis unreachable the snapshot is still built: it shows exactly the sold seats and says
  that Redis is down.\<close>

theorem snapshot_without_redis:
  assumes "ce_trips ce 0 = None" and "wf_db d" "only_event (Event_ID (srv_Event srv)) d"
    and "ce_pg ce = Pg_ok" and "iterates ce"
  shows "\<exists>snap. BuildSnapshot R srv ce d = Some (Inr snap) \<and> \<not> sn_RedisHealthy snap \<and>
    (\<forall>s. shown (sn_Seats snap) s = (case booking_owner d s of Some u \<Rightarrow> SoldTo u | None \<Rightarrow> Free))"
proof -
  obtain booked where b: "BookedSeats Pg_ok (Event_ID (srv_Event srv)) d = Inr booked"
    by (simp add: BookedSeats_def)
  have hm: "held_map []" by (simp add: held_map_def)
  have "HeldSeats R (ce_trips ce) = Some (Inl redis_down)"
    using assms(1) by (simp add: HeldSeats_def scan_loop.simps scan_page_def)
  then show ?thesis
    using assms(4,5) b BookedSeats_lookup(1) [OF assms(2) b] BookedSeats_owner [OF assms(2,3) b]
      snapshot_lookup [where booked = booked and bi = "ce_booked_order ce booked" and held = "[]"
        and hi = "ce_held_order ce []", OF _ _ hm]
    by (auto simp: BuildSnapshot_def Let_def shown_def iterates_def booked_state_def split: option.split)
qed

theorem snapshot_without_redis_witness:
  "\<exists>snap. BuildSnapshot mem_redis sample_server ((sample_call mem_empty)\<lparr>ce_trips := \<lambda>_. None\<rparr>) sold_db
      = Some (Inr snap) \<and> shown (sn_Seats snap) 1 = SoldTo ''ada'' \<and> \<not> sn_RedisHealthy snap"
  using snapshot_without_redis [of "(sample_call mem_empty)\<lparr>ce_trips := \<lambda>_. None\<rparr>" sold_db sample_server mem_redis]
  by (auto simp: sample_call_def iterates_def)

text \<open>C32: a request that is turned away changes nothing: whenever the answer is not 200, 409 or 503,
  in particular for every preflight, malformed, unknown-seat, wrong-method and rate-limited
  request, Redis and Postgres are as before.\<close>

theorem refused_changes_nothing:
  assumes "Handler R A rfc3339 srv hub ce req (lg, l, st) = ((lg', l', st'), Some (Reply resp))"
    and "rs_status resp \<notin> {200, 409, 503}"
  shows "st' = st"
proof (cases "ht_method req = ''OPTIONS''")
  case True
  with assms(1) show ?thesis
    by (auto simp: Handler_def traceMiddleware_def corsMiddleware_def Let_def split: if_splits)
next
  case False
  obtain l1 st1 rep where m: "mux R A rfc3339 srv hub ce req (l, st) = ((l1, st1), rep)"
    by (metis prod.collapse)
  with assms(1) False obtain rp where rp: "rep = Some rp" "st' = st1"
    by (auto simp: Handler_def traceMiddleware_def corsMiddleware_def Let_def split: option.splits)
  show ?thesis
  proof (cases rp)
    case (Websocket ok)
    with assms(1) False m rp show ?thesis
      by (auto simp: Handler_def traceMiddleware_def corsMiddleware_def Let_def split: if_splits)
  next
    case (Reply resp1)
    with assms(1) False m rp have "rs_status resp1 = rs_status resp"
      by (auto simp: Handler_def traceMiddleware_def corsMiddleware_def Let_def split: if_splits)
    with mux_refused [of R A rfc3339 srv hub ce req l st l1 st1 resp1] m rp Reply assms(2)
    show ?thesis by simp
  qed
qed

theorem refused_changes_nothing_witness:
  "snd (snd (fst (Handler mem_redis tb_api (\<lambda>_. []) sample_server (NewHub :: json hub) (sample_call held_redis)
      (sample_request ''POST'' ''/api/confirm'' ''ada'' (Some (JObj [(''seat_id'', JInt 99)])))
      ([], New 60, held_redis, sample_db)))) = (held_redis, sample_db)"
proof -
  let ?ce = "sample_call held_redis"
  let ?req = "sample_request ''POST'' ''/api/confirm'' ''ada'' (Some (JObj [(''seat_id'', JInt 99)]))"
  let ?run = "Handler mem_redis tb_api (\<lambda>_. []) sample_server (NewHub :: json hub) ?ce ?req
      ([], New 60, held_redis, sample_db)"
  have "parseSeatRequest sample_server ?req = Inl (writeJSON 404 (error_json ''no_such_seat'' ''unknown seat''))"
    by (simp add: parseSeatRequest_def sample_request_def validSeats_def sample_server_def sample_db_def
        sample_seat_def int_range_def)
  then have h: "handleConfirm mem_redis sample_server ?ce ?req st =
      (st, writeJSON 404 (error_json ''no_such_seat'' ''unknown seat''))" for st
    by (simp add: handleConfirm_def)
  obtain l ok where a: "allow tb_api (ce_now ?ce) (clientKey (ht_client ?req)) (New 60) = (l, ok)" by fastforce
  have rt: "route (ht_method ?req) (ht_path ?req) = R_confirm" "ht_method ?req \<noteq> ''OPTIONS''"
    by (simp_all add: route_def only_def sample_request_def)
  obtain resp0 where m: "mux mem_redis tb_api (\<lambda>_. []) sample_server (NewHub :: json hub) ?ce ?req
      (New 60, held_redis, sample_db) = ((l, held_redis, sample_db), Some (Reply resp0))"
    "rs_status resp0 \<in> {404, 429}"
    by (cases ok) (simp_all add: mux_def rt limited_def Middleware_def a h writeJSON_def denyRateLimited_def)
  obtain lg resp where "?run = ((lg, l, held_redis, sample_db), Some (Reply resp))" "rs_status resp = rs_status resp0"
    by (cases "ce_trace ?ce = []")
      (simp_all add: Handler_def traceMiddleware_def corsMiddleware_def rt m(1) Let_def)
  moreover have "rs_status resp0 \<notin> {200, 409, 503}" using m(2) by auto
  ultimately have "?run = ((lg, l, held_redis, sample_db), Some (Reply resp))" "rs_status resp \<notin> {200, 409, 503}"
    by simp_all
  with refused_changes_nothing [OF this] show ?thesis by simp
qed

text \<open>C9: the client can trust a 200: the confirm endpoint answers 200 only when the booking row of the
  seat is the caller's, whatever the network and Redis did.\<close>

theorem confirm_200_means_sold:
  assumes "parseSeatRequest srv req = Inr (u, s)"
    and "handleConfirm R srv ce req (r, d) = ((r', d'), resp)" and "rs_status resp = 200"
  shows "booking_owner d' s = Some u"
proof -
  obtain st' res where c: "Confirm R (srv_Bookings srv) (ce_confirm ce) s u (r, d) = (st', res)" by fastforce
  obtain oc where oc: "res = Inr oc" "st' = (r', d')" "resp = confirm_response s oc"
    using assms c by (cases res) (auto simp: handleConfirm_def unavailable_def writeJSON_def)
  have "oc = OutcomeConfirmed \<or> oc = OutcomeAlreadyMine"
    using Confirm_outcomes [OF c [unfolded oc(1)]] assms(3) oc(3) by (auto simp: writeJSON_def)
  from Confirm_success_owner [OF c [unfolded oc(1,2)] this] show ?thesis .
qed

theorem confirm_200_means_sold_witness:
  "booking_owner (snd (fst (handleConfirm mem_redis sample_server (sample_call held_redis)
      (sample_request ''POST'' ''/api/confirm'' ''ada'' (Some (JObj [(''seat_id'', JInt 1)])))
      (held_redis, sample_db)))) 1 = Some ''ada''"
proof -
  let ?req = "sample_request ''POST'' ''/api/confirm'' ''ada'' (Some (JObj [(''seat_id'', JInt 1)]))"
  have p: "parseSeatRequest sample_server ?req = Inr (''ada'', 1)"
    by (simp add: parseSeatRequest_def sample_request_def validSeats_def sample_server_def sample_db_def
        sample_seat_def int_range_def)
  obtain r d resp where h: "handleConfirm mem_redis sample_server (sample_call held_redis) ?req
      (held_redis, sample_db) = ((r, d), resp)" by (metis prod.collapse)
  obtain r1 d1 where "Confirm mem_redis sample_service ok_confirm 1 ''ada'' (held_redis, sample_db) =
      ((r1, d1), Inr OutcomeConfirmed)" using sample_confirm by blast
  with h p have "rs_status resp = 200"
    by (auto simp: handleConfirm_def sample_server_def sample_call_def writeJSON_def split: prod.splits)
  from confirm_200_means_sold [OF p h this] h show ?thesis by simp
qed

text \<open>C10: a 200 of the hold endpoint means that in Redis the seat had neither a hold nor a booked marker, and
  that the caller has just taken it and holds it for the whole configured time, nothing having changed in
  Postgres. Where Redis and Postgres agree this is a free and unsold seat that is now the caller's;
  a seat whose booking has lost its marker is answered the same way, although it is sold (the last
  section of the root theory).\<close>

theorem hold_200_means_held:
  assumes "redis R" and "parseSeatRequest srv req = Inr (u, s)"
    and "handleHold R srv ce req (r, d) = ((r', d'), resp)" and "rs_status resp = 200"
  shows "seat_holder R r s = None \<and> seat_marker R r s = None \<and> seat_holder R r' s = Some u \<and>
    hold_left R r' s = 1000 * int_seconds (sv_holdTTL (srv_Bookings srv)) \<and> d' = d \<and>
    (if coherent R (r, d) then view R (r, d) s = Free \<and> view R (r', d') s = HeldBy u else True)"
proof -
  obtain r1 res where c: "Hold R (srv_Bookings srv) (ce_hold ce) (ce_now ce) s u r = (r1, res)" by fastforce
  obtain oc ms where oc: "res = Inr (oc, ms)" "r1 = r'" "d' = d" "resp = hold_response s ms oc"
    using assms c by (cases res) (auto simp: handleHold_def unavailable_def writeJSON_def)
  have "oc = OutcomeHeld"
    using Hold_outcomes [OF c [unfolded oc(1)]] assms(4) oc(4) by (auto simp: writeJSON_def)
  with c oc(1,2) have "Hold R (srv_Bookings srv) (ce_hold ce) (ce_now ce) s u r = (r', Inr (OutcomeHeld, ms))"
    by simp
  note won = redis.Hold_wonD [OF assms(1) this]
  then have "booking_owner d s = None" if "coherent R (r, d)" using coherentD(1) [OF that, of s] by simp
  then show ?thesis using won oc(3) by (simp add: view_def)
qed

theorem hold_200_means_held_witness:
  "seat_holder mem_redis (fst (fst (handleHold mem_redis sample_server (sample_call mem_empty)
      (sample_request ''POST'' ''/api/hold'' ''ada'' (Some (JObj [(''seat_id'', JInt 1)])))
      (mem_empty, sample_db)))) 1 = Some ''ada''"
proof -
  let ?req = "sample_request ''POST'' ''/api/hold'' ''ada'' (Some (JObj [(''seat_id'', JInt 1)]))"
  have p: "parseSeatRequest sample_server ?req = Inr (''ada'', 1)"
    by (simp add: parseSeatRequest_def sample_request_def validSeats_def sample_server_def sample_db_def
        sample_seat_def int_range_def)
  obtain r d resp where h: "handleHold mem_redis sample_server (sample_call mem_empty) ?req
      (mem_empty, sample_db) = ((r, d), resp)" by (metis prod.collapse)
  obtain r1 ms where "Hold mem_redis sample_service ok_hold 0 1 ''ada'' mem_empty = (r1, Inr (OutcomeHeld, ms))"
    using sample_hold by blast
  with h p have "rs_status resp = 200"
    by (auto simp: handleHold_def sample_server_def sample_call_def writeJSON_def)
  from hold_200_means_held [OF mem.redis_axioms p h this] h show ?thesis by simp
qed

end
