(* ===== verification/App.thy ===== *)
theory App
  imports Api Seed Contest
begin

text \<open>
  \<open>backend/main.go\<close>: the boot sequence of one instance, its connection retries, the refill of
  the booked markers, and the two subscription handlers that fan events out to the hub; and
  the healthcheck binary.
\<close>

section \<open>Connecting to Postgres\<close>

text \<open>The pgx calls of \<open>store.New\<close> are a parameter; \<open>pgx_ping\<close> tells whether the ping succeeds.\<close>

record ('c, 'p) pgx_api =
  pgx_parse :: "string \<Rightarrow> (go_error, 'c) result"
  pgx_connect :: "'c \<Rightarrow> int \<Rightarrow> (go_error, 'p) result"
  pgx_ping :: "'p \<Rightarrow> go_error option"

definition store_New :: "('c, 'p) pgx_api \<Rightarrow> string \<Rightarrow> (go_error, 'p) result" where
  "store_New P url =
     (case pgx_parse P url of
        Inl e \<Rightarrow> Inl (Wrap ''parse database url'' e)
      | Inr cfg \<Rightarrow>
          (case pgx_connect P cfg 20 of
             Inl e \<Rightarrow> Inl (Wrap ''connect postgres'' e)
           | Inr pool \<Rightarrow>
               (case pgx_ping P pool of
                  Some e \<Rightarrow> Inl (Wrap ''ping postgres'' e)
                | None \<Rightarrow> Inr pool)))"

text \<open>
  The loop of \<open>connectStore\<close> from attempt \<open>i\<close> with \<open>k\<close> attempts left. \<open>attempt i\<close> is what
  \<open>store.New\<close> returns at attempt \<open>i\<close>, and \<open>cancelled i\<close> the error of the context if it is
  done during the wait that follows.
\<close>

fun connect_loop ::
  "(nat \<Rightarrow> (go_error, 'p) result) \<Rightarrow> (nat \<Rightarrow> go_error option) \<Rightarrow> nat \<Rightarrow> nat \<Rightarrow> go_error option
     \<Rightarrow> (go_error option, 'p) result" where
  "connect_loop attempt cancelled i 0 lastErr = Inl lastErr"
| "connect_loop attempt cancelled i (Suc k) lastErr =
     (case attempt i of
        Inr st \<Rightarrow> Inr st
      | Inl err \<Rightarrow>
          (case cancelled i of
             Some cerr \<Rightarrow> Inl (Some cerr)
           | None \<Rightarrow> connect_loop attempt cancelled (Suc i) k (Some err)))"

definition connectStore ::
  "(nat \<Rightarrow> (go_error, 'p) result) \<Rightarrow> (nat \<Rightarrow> go_error option) \<Rightarrow> (go_error option, 'p) result" where
  "connectStore attempt cancelled = connect_loop attempt cancelled 0 15 None"

section \<open>Refilling the booked markers\<close>

datatype rehydrate_log = Load_failed | Redis_skipped | Rehydrated nat

definition rehydrateBooked ::
  "'r redis_api \<Rightarrow> pg_net \<Rightarrow> pipe \<Rightarrow> ((seat_id \<times> session) list \<Rightarrow> (seat_id \<times> session) list) \<Rightarrow> int
     \<Rightarrow> db \<Rightarrow> 'r \<Rightarrow> 'r \<times> rehydrate_log" where
  "rehydrateBooked R n pipe order eventID d r =
     (case BookedSeats n eventID d of
        Inl e \<Rightarrow> (r, Load_failed)
      | Inr booked \<Rightarrow>
          (case RehydrateBooked R pipe (order booked) r of
             (r', Inl e) \<Rightarrow> (r', Redis_skipped)
           | (r', Inr _) \<Rightarrow> (r', Rehydrated (length booked))))"

section \<open>The boot sequence\<close>

text \<open>Everything \<open>main\<close> depends on from outside, up to the point where it listens.\<close>

record 'p boot_env =
  bt_env :: env
  bt_hostname :: string
  bt_exporter :: "go_error option"
  bt_resource :: "go_error option"
  bt_attempt :: "nat \<Rightarrow> (go_error, 'p) result"
  bt_cancelled :: "nat \<Rightarrow> go_error option"
  bt_migrate :: pg_net
  bt_seed :: seed_nets
  bt_event :: pg_net
  bt_seats :: pg_net
  bt_booked :: pg_net
  bt_pipe :: pipe
  bt_order :: "(seat_id \<times> session) list \<Rightarrow> (seat_id \<times> session) list"
  bt_now :: int

text \<open>\<open>os.Exit(1)\<close> with the message logged, or the server that starts to listen.\<close>

datatype boot_result = Exit string | Serving server

definition make_server :: "config \<Rightarrow> string \<Rightarrow> int \<Rightarrow> event_row \<Rightarrow> seat list \<Rightarrow> server" where
  "make_server cfg instanceID eventID event seats =
     \<lparr>srv_Bookings = NewService eventID instanceID (hold_ttl cfg),
      srv_Event = event, srv_Seats = seats, srv_InstanceID = instanceID,
      srv_HoldTTL = hold_ttl cfg, srv_AllowedOrigin = AllowedOrigin cfg\<rparr>"

text \<open>From the migrated tables to the server.\<close>

definition boot_store ::
  "'r redis_api \<Rightarrow> 'p boot_env \<Rightarrow> config \<Rightarrow> string \<Rightarrow> db \<Rightarrow> 'r \<Rightarrow> (db \<times> 'r) \<times> boot_result" where
  "boot_store R be cfg instanceID d r =
     (case SeedIfEmpty (bt_seed be) (bt_now be) d of
        (d1, Inl e) \<Rightarrow> ((d1, r), Exit ''seed failed'')
      | (d1, Inr eventID) \<Rightarrow>
          (case PrimaryEvent (bt_event be) d1 of
             (d2, Inl e) \<Rightarrow> ((d2, r), Exit ''load event failed'')
           | (d2, Inr event) \<Rightarrow>
               (case Seats (bt_seats be) eventID d2 of
                  Inl e \<Rightarrow> ((d2, r), Exit ''load seats failed'')
                | Inr seats \<Rightarrow>
                    (let (r', _) = rehydrateBooked R (bt_booked be) (bt_pipe be) (bt_order be) eventID d2 r
                     in ((d2, r'), Serving (make_server cfg instanceID eventID event seats))))))"

definition boot ::
  "'r redis_api \<Rightarrow> 'p boot_env \<Rightarrow> db option \<Rightarrow> 'r \<Rightarrow> (db option \<times> 'r) \<times> boot_result" where
  "boot R be dbo r =
     (case Load (bt_env be) of
        (cfg, Some e) \<Rightarrow> ((dbo, r), Exit ''config error'')
      | (cfg, None) \<Rightarrow>
          let instanceID = (if bt_hostname be = [] then ''backend'' else bt_hostname be) in
          case InitTracer (OTelExporter cfg) instanceID (bt_exporter be) (bt_resource be) of
            Inl e \<Rightarrow> ((dbo, r), Exit ''tracer init failed'')
          | Inr _ \<Rightarrow>
              (case connectStore (bt_attempt be) (bt_cancelled be) of
                 Inl e \<Rightarrow> ((dbo, r), Exit ''postgres connect failed'')
               | Inr _ \<Rightarrow>
                   (case RunMigrations (bt_migrate be) dbo of
                      (dbo', Inl e) \<Rightarrow> ((dbo', r), Exit ''migrations failed'')
                    | (dbo', Inr _) \<Rightarrow>
                        (case boot_store R be cfg instanceID (the dbo') r of
                           ((d, r'), res) \<Rightarrow> ((Some d, r'), res)))))"

section \<open>Serving and leaving\<close>

text \<open>What has become of \<open>ListenAndServe\<close>; and whether the context of \<open>main\<close> is done, by a signal or by
  the \<open>stop\<close> that follows a server error.\<close>

datatype listening = Listens | Server_closed | Listen_failed go_error

definition ctx_done :: "listening \<Rightarrow> bool \<Rightarrow> bool" where
  "ctx_done l signalled \<longleftrightarrow> signalled \<or> (case l of Listen_failed e \<Rightarrow> True | _ \<Rightarrow> False)"

text \<open>The exit status; \<open>None\<close> while the instance serves. The error of \<open>Shutdown\<close> is dropped.\<close>

definition main_status :: "boot_result \<Rightarrow> listening \<Rightarrow> bool \<Rightarrow> nat option" where
  "main_status b l signalled =
     (case b of
        Exit m \<Rightarrow> Some 1
      | Serving srv \<Rightarrow> if ctx_done l signalled then Some 0 else None)"

text \<open>An instance that cannot listen ends like one that was asked to.\<close>

lemma listen_failure_exits_clean: "main_status (Serving srv) (Listen_failed e) False = main_status (Serving srv) Listens True"
  by (simp add: main_status_def ctx_done_def)

section \<open>The subscription handlers\<close>

text \<open>A panic in a handler would end the process; it is carried along.\<close>

type_synonym fan_out = "(go_panic, json hub) result"

definition broadcast_event :: "seat_event \<Rightarrow> fan_out \<Rightarrow> fan_out" where
  "broadcast_event ev res = (case res of Inl p \<Rightarrow> Inl p | Inr h \<Rightarrow> Broadcast (marshal_event ev) h)"

definition freed_event :: "string \<Rightarrow> seat_id \<Rightarrow> seat_event" where
  "freed_event instanceID seatID =
     \<lparr>ev_Type = MsgFreed, ev_SeatID = seatID, ev_Status = StatusAvailable, ev_HeldBy = [],
      ev_BookedBy = [], ev_ExpiresAtMs = 0, ev_ServedBy = instanceID\<rparr>"

definition on_expiry :: "string \<Rightarrow> seat_id \<Rightarrow> fan_out \<Rightarrow> fan_out" where
  "on_expiry instanceID seatID = broadcast_event (freed_event instanceID seatID)"

definition relay_events :: "json delivery list \<Rightarrow> json hub \<Rightarrow> fan_out" where
  "relay_events ds h = SubscribeSeatEvents broadcast_event ds (Inr h)"

definition relay_expiries :: "string \<Rightarrow> string delivery list \<Rightarrow> json hub \<Rightarrow> fan_out" where
  "relay_expiries instanceID ds h = SubscribeExpiries (on_expiry instanceID) ds (Inr h)"

section \<open>The healthcheck binary\<close>

text \<open>Its exit status; \<open>http_get\<close> is the HTTP client, a status or an error.\<close>

definition healthcheck :: "env \<Rightarrow> (string \<Rightarrow> (go_error, nat) result) \<Rightarrow> nat" where
  "healthcheck env http_get =
     (let port = (if env ''BACKEND_PORT'' = [] then ''8080'' else env ''BACKEND_PORT'')
      in case http_get (''http://127.0.0.1:'' @ port @ ''/healthz'') of
           Inl e \<Rightarrow> 1
         | Inr status \<Rightarrow> if status \<noteq> 200 then 1 else 0)"

section \<open>Retries\<close>

text \<open>The loop returns the first connection that succeeds before the context is done.\<close>

lemma connect_loop_ok:
  "connect_loop attempt cancelled i k e = Inr st \<longleftrightarrow>
   (\<exists>j. i \<le> j \<and> j < i + k \<and> attempt j = Inr st \<and>
      (\<forall>m. i \<le> m \<and> m < j \<longrightarrow> (\<exists>err. attempt m = Inl err) \<and> cancelled m = None))"
proof (induction attempt cancelled i k e rule: connect_loop.induct)
  case (2 attempt cancelled i k e)
  show ?case
  proof (cases "attempt i")
    case (Inr x)
    then show ?thesis
      by (auto simp: not_less_eq_eq) (metis Inl_Inr_False le_eq_less_or_eq order_refl sum.inject(2))
  next
    case (Inl err)
    show ?thesis
    proof (cases "cancelled i")
      case None
      have split: "(i \<le> j \<and> j < i + Suc k \<and> attempt j = Inr st \<and>
          (\<forall>m. i \<le> m \<and> m < j \<longrightarrow> (\<exists>err. attempt m = Inl err) \<and> cancelled m = None)) \<longleftrightarrow>
        (Suc i \<le> j \<and> j < Suc i + k \<and> attempt j = Inr st \<and>
          (\<forall>m. Suc i \<le> m \<and> m < j \<longrightarrow> (\<exists>err. attempt m = Inl err) \<and> cancelled m = None))" for j
      proof -
        have "(\<forall>m. i \<le> m \<and> m < j \<longrightarrow> (\<exists>err. attempt m = Inl err) \<and> cancelled m = None) \<longleftrightarrow>
            (\<forall>m. Suc i \<le> m \<and> m < j \<longrightarrow> (\<exists>err. attempt m = Inl err) \<and> cancelled m = None)"
          using Inl None by (metis Suc_leI le_neq_implies_less Suc_leD)
        moreover have "attempt j = Inr st \<Longrightarrow> j \<noteq> i" using Inl by auto
        ultimately show ?thesis by (auto simp: Suc_le_eq le_eq_less_or_eq)
      qed
      show ?thesis unfolding split using 2 [OF Inl None] Inl None by simp
    next
      case (Some c)
      then show ?thesis using Inl by (auto simp: le_eq_less_or_eq)
    qed
  qed
qed auto

section \<open>What the boot leaves behind\<close>

text \<open>The id \<open>SeedIfEmpty\<close> returns is the id of the event \<open>PrimaryEvent\<close> finds next.\<close>

lemma seed_then_event:
  assumes "wf_db d" and "SeedIfEmpty nets now d = (d1, Inr eventID)"
    and "PrimaryEvent n d1 = (d2, Inr event)"
  shows "d2 = d1 \<and> wf_db d1 \<and> Event_ID event = eventID \<and> event \<in> set (db_events d1) \<and>
    db_bookings d1 = db_bookings d"
proof -
  have pe: "d' = x \<and> ev = hd (sort_key Event_ID (db_events x)) \<and> db_events x \<noteq> []"
    if "PrimaryEvent m x = (d', Inr ev)" for m x d' ev
  proof (cases m)
    case Pg_ok
    with that show ?thesis
      by (cases "sort_key Event_ID (db_events x)")
        (auto simp: PrimaryEvent_def dest!: arg_cong [where f = length] split: list.splits)
  next
    case (Pg_lost b)
    with that show ?thesis by (simp add: PrimaryEvent_def)
  qed
  note p = pe [OF assms(3)]
  have mem: "event \<in> set (db_events d1)"
  proof -
    have "sort_key Event_ID (db_events d1) \<noteq> []" using p by (metis length_0_conv length_sort)
    then have "event \<in> set (sort_key Event_ID (db_events d1))" using p hd_in_set by metis
    then show ?thesis by simp
  qed
  show ?thesis
  proof (cases "db_events d = []")
    case True
    from seed_transaction [OF True assms(1,2)]
    have d1: "d1 = seeded now (db_event_seq d) (db_seat_seq d) d" "eventID = db_event_seq d" by auto
    then have "wf_db d1" using wf_seeded [OF assms(1) True] by simp
    with p mem d1 show ?thesis by (simp add: seeded_def)
  next
    case False
    obtain d' ev where q: "PrimaryEvent (sn_event_read nets) d = (d', Inr ev)" "d1 = d'" "eventID = Event_ID ev"
      using assms(2) False
      by (cases "sn_count nets") (auto simp: SeedIfEmpty_def split: prod.splits sum.splits)
    with pe [OF q(1)] p mem assms(1) show ?thesis by simp
  qed
qed

lemma boot_store_serving:
  assumes "wf_db d" and "boot_store R be cfg instanceID d r = ((d', r'), Serving srv)"
  shows "wf_db d' \<and> db_bookings d' = db_bookings d \<and>
    sv_eventID (srv_Bookings srv) = Event_ID (srv_Event srv) \<and> srv_Event srv \<in> set (db_events d') \<and>
    (\<forall>s. validSeats srv s \<longrightarrow> s \<in> (seat_ID \<circ> sr_seat) ` set (db_seats d'))"
proof -
  obtain d1 e1 where s: "SeedIfEmpty (bt_seed be) (bt_now be) d = (d1, e1)" by fastforce
  with assms(2) obtain eventID where e1: "e1 = Inr eventID"
    by (cases e1) (auto simp: boot_store_def)
  obtain d2 e2 where p: "PrimaryEvent (bt_event be) d1 = (d2, e2)" by fastforce
  with assms(2) s e1 obtain event where e2: "e2 = Inr event"
    by (cases e2) (auto simp: boot_store_def)
  note k = seed_then_event [OF assms(1) s [unfolded e1] p [unfolded e2]]
  obtain seats where q: "Seats (bt_seats be) eventID d2 = Inr seats"
    using assms(2) s e1 p e2
    by (cases "Seats (bt_seats be) eventID d2") (auto simp: boot_store_def)
  with assms(2) s e1 p e2 have r: "d' = d2" "srv = make_server cfg instanceID eventID event seats"
    by (auto simp: boot_store_def Let_def split: prod.splits)
  have "set seats \<subseteq> sr_seat ` set (db_seats d2)"
    using q by (cases "bt_seats be") (auto simp: Seats_def)
  with k r show ?thesis by (auto simp: make_server_def validSeats_def)
qed

section \<open>Markers\<close>

lemma set_booked_keys_simps [simp]:
  "set_booked_keys R [] r = r"
  "set_booked_keys R ((s, u) # bs) r = set_booked_keys R bs (rd_set R r (bookedKey s) u)"
  by (simp_all add: set_booked_keys_def)

context redis
begin

lemma set_booked_keys_markers:
  "distinct_keys bs \<Longrightarrow> seat_marker R (set_booked_keys R bs r) s =
     (case map_of bs s of Some u \<Rightarrow> Some u | None \<Rightarrow> seat_marker R r s)"
proof (induction bs arbitrary: r)
  case (Cons x bs)
  obtain k v where x: "x = (k, v)" by fastforce
  with Cons.prems have "map_of bs k = None" by (simp add: map_of_eq_None_iff)
  with Cons x show ?case
    by (auto simp: seat_marker_def set_get split: option.splits)
qed simp

lemma rehydrate_markers:
  assumes "wf_db d" "only_event e d" "\<And>m. mset (order m) = mset m"
    and "rehydrateBooked R n Pipe_ok order e d r = (r', Rehydrated k)"
  shows "seat_marker R r' s =
    (case booking_owner d s of Some u \<Rightarrow> Some u | None \<Rightarrow> seat_marker R r s)"
proof -
  obtain booked where b: "BookedSeats n e d = Inr booked"
    using assms(4) by (cases "BookedSeats n e d") (auto simp: rehydrateBooked_def)
  note bk = BookedSeats_lookup(1) [OF assms(1) b] BookedSeats_owner [OF assms(1,2) b]
  note o = mset_eq_same_map [OF assms(3) [symmetric] bk(1)]
  have "r' = set_booked_keys R (order booked) r"
    using assms(4) b by (auto simp: rehydrateBooked_def RehydrateBooked_def split: if_splits)
  then show ?thesis
    using set_booked_keys_markers [OF o(1), of r s] o(2) bk(2) by simp
qed

end

section \<open>Properties\<close>

text \<open>C21: whatever goes wrong on the way, an instance that gets to serve is consistent: its booking
  service and its snapshots are about the same event, that event exists, every seat id its
  endpoints accept is a row of the seats table, and no booking was touched by the boot.\<close>

theorem boot_is_consistent:
  assumes "wf_db d" and "boot R be (Some d) r = ((dbo, r'), Serving srv)"
  shows "\<exists>d'. dbo = Some d' \<and> wf_db d' \<and> db_bookings d' = db_bookings d \<and>
    sv_eventID (srv_Bookings srv) = Event_ID (srv_Event srv) \<and> srv_Event srv \<in> set (db_events d') \<and>
    {s. validSeats srv s} \<subseteq> (seat_ID \<circ> sr_seat) ` set (db_seats d')"
proof -
  obtain cfg where l: "Load (bt_env be) = (cfg, None)"
    using assms(2) by (cases "Load (bt_env be)"; cases "snd (Load (bt_env be))") (auto simp: boot_def)
  obtain x where x: "boot_store R be cfg (if bt_hostname be = [] then ''backend'' else bt_hostname be) d r = x"
    by simp
  have "x = ((the dbo, r'), Serving srv) \<and> dbo \<noteq> None"
    using assms(2) l x
    by (cases x; cases "bt_migrate be")
      (auto simp: boot_def Let_def RunMigrations_def split: option.splits sum.splits)
  with boot_store_serving [OF assms(1)] x show ?thesis by fastforce
qed

definition sample_boot :: "unit boot_env" where
  "sample_boot = \<lparr>bt_env = (\<lambda>k. if k = ''DATABASE_URL'' then ''postgres://db'' else []), bt_hostname = ''b1'',
     bt_exporter = None, bt_resource = None, bt_attempt = (\<lambda>_. Inr ()), bt_cancelled = (\<lambda>_. None), bt_migrate = Pg_ok,
     bt_seed = all_ok, bt_event = Pg_ok, bt_seats = Pg_ok, bt_booked = Pg_ok, bt_pipe = Pipe_ok,
     bt_order = rev, bt_now = 0\<rparr>"

lemma sample_load: "\<exists>cfg. Load (bt_env sample_boot) = (cfg, None)"
  by (simp add: Load_def Let_def getenvInt_def getenv_def sample_boot_def)

lemma boot_ok:
  assumes "Load (bt_env be) = (cfg, None)" "bt_exporter be = None" "bt_resource be = None" "bt_attempt be 0 = Inr p"
    "bt_migrate be = Pg_ok"
  shows "boot R be dbo r =
    (case boot_store R be cfg (if bt_hostname be = [] then ''backend'' else bt_hostname be)
        (case dbo of None \<Rightarrow> empty_db | Some d \<Rightarrow> d) r of ((d, r'), res) \<Rightarrow> ((Some d, r'), res))"
proof -
  have "connectStore (bt_attempt be) (bt_cancelled be) = Inr p"
    using assms(4) unfolding connectStore_def connect_loop_ok by (intro exI [of _ 0]) simp
  with assms show ?thesis
    by (cases dbo) (simp_all add: boot_def InitTracer_def Let_def RunMigrations_def)
qed

theorem boot_is_consistent_witness:
  "\<exists>dbo r' srv. boot mem_redis sample_boot (Some sample_db) mem_empty = ((dbo, r'), Serving srv) \<and>
     sv_eventID (srv_Bookings srv) = Event_ID (srv_Event srv)"
proof -
  obtain cfg where l: "Load (bt_env sample_boot) = (cfg, None)" using sample_load by blast
  have "SeedIfEmpty (bt_seed sample_boot) 0 sample_db = (sample_db, Inr 1)"
    "PrimaryEvent (bt_event sample_boot) sample_db = (sample_db, Inr (hd (db_events sample_db)))"
    by (simp_all add: sample_boot_def SeedIfEmpty_def PrimaryEvent_def all_ok_def sample_db_def)
  moreover have "\<exists>seats. Seats (bt_seats sample_boot) 1 sample_db = Inr seats"
    by (simp add: Seats_def sample_boot_def)
  moreover have "bt_now sample_boot = 0" by (simp add: sample_boot_def)
  ultimately have "\<exists>r' srv. boot_store mem_redis sample_boot cfg ''b1'' sample_db mem_empty =
      ((sample_db, r'), Serving srv)"
    by (auto simp: boot_store_def Let_def split: prod.split)
  moreover have "bt_hostname sample_boot = ''b1''" by (simp add: sample_boot_def)
  ultimately have "\<exists>r' srv. boot mem_redis sample_boot (Some sample_db) mem_empty = ((Some sample_db, r'), Serving srv)"
    using boot_ok [OF l, of "()" mem_redis "Some sample_db" mem_empty] by (auto simp: sample_boot_def)
  with boot_is_consistent [OF wf_sample_db(1), of mem_redis sample_boot mem_empty] show ?thesis by blast
qed

lemma seeded_insertable:
  "list_all (\<lambda>x. insertable (seeded now 1 1 empty_db) (seat_ID x) 1) (map sr_seat (mk_rows 1 0 1 (slots venue)))"
proof -
  have "int4 (seat_ID (sr_seat r)) \<and> seat_ID (sr_seat r) \<in> (seat_ID \<circ> sr_seat) ` set (mk_rows 1 0 1 (slots venue))"
    if "r \<in> set (mk_rows 1 0 1 (slots venue))" for r
  proof -
    have "(seat_ID \<circ> sr_seat) r \<in> set (map (seat_ID \<circ> sr_seat) (mk_rows 1 0 1 (slots venue)))"
      using that by simp
    then show ?thesis unfolding mk_rows_ids using that by (auto simp: venue_size int4_def)
  qed
  then show ?thesis
    by (simp add: list_all_iff insertable_def seeded_def int4_def comp_def)
qed

text \<open>C22: with nothing failing, the first boot on an empty database serves a venue of 320 seats at the
  positions 1 to 320, none of them booked, each of which the booking insert accepts.\<close>

theorem first_boot_serves_venue:
  assumes "Load (bt_env be) = (cfg, None)" "bt_exporter be = None" "bt_resource be = None" "bt_attempt be 0 = Inr p"
    and "bt_migrate be = Pg_ok" "bt_seed be = all_ok" "bt_event be = Pg_ok" "bt_seats be = Pg_ok"
  shows "\<exists>d r' srv. boot R be None r = ((Some d, r'), Serving srv) \<and>
    length (srv_Seats srv) = 320 \<and> map seat_Position (srv_Seats srv) = map (\<lambda>i. 1 + int i) [0..<320] \<and>
    list_all (\<lambda>x. insertable d (seat_ID x) (sv_eventID (srv_Bookings srv))) (srv_Seats srv) \<and>
    db_bookings d = []"
proof -
  let ?d = "seeded (bt_now be) 1 1 empty_db"
  let ?ev = "hd (db_events ?d)"
  let ?seats = "map sr_seat (mk_rows 1 0 1 (slots venue))"
  have seed: "SeedIfEmpty (bt_seed be) (bt_now be) empty_db = (?d, Inr 1)"
    using seed_succeeds [of empty_db "bt_now be"] assms(6)
    by (simp add: room_def) (simp add: empty_db_def)
  have ev: "PrimaryEvent (bt_event be) ?d = (?d, Inr ?ev)"
    using assms(7) by (simp add: PrimaryEvent_def seeded_def)
  have seats: "Seats (bt_seats be) 1 ?d = Inr ?seats"
    using assms(8) seeded_Seats by simp
  have pos: "map seat_Position ?seats = map (\<lambda>i. 1 + int i) [0..<320]"
    using mk_rows_positions [of 1 0 1 "slots venue"] by (simp add: comp_def venue_size)
  obtain r' lg where re: "rehydrateBooked R (bt_booked be) (bt_pipe be) (bt_order be) 1 ?d r = (r', lg)"
    by fastforce
  let ?srv = "make_server cfg (if bt_hostname be = [] then ''backend'' else bt_hostname be) 1 ?ev ?seats"
  have "boot R be None r = ((Some ?d, r'), Serving ?srv)"
    using boot_ok [OF assms(1-5), of R None r] seed ev seats re
    by (simp add: boot_store_def)
  moreover have "length (srv_Seats ?srv) = 320" "srv_Seats ?srv = ?seats" "sv_eventID (srv_Bookings ?srv) = 1"
    by (simp_all add: make_server_def venue_size)
  moreover have "db_bookings ?d = []" by (simp add: seeded_def empty_db_def)
  ultimately show ?thesis
    using pos seeded_insertable [of "bt_now be"]
    by (intro exI [of _ ?d] exI [of _ r'] exI [of _ ?srv] conjI) (simp_all only:)
qed

theorem first_boot_serves_venue_witness:
  "\<exists>d r' srv. boot mem_redis sample_boot None mem_empty = ((Some d, r'), Serving srv) \<and>
     length (srv_Seats srv) = 320"
proof -
  obtain cfg where l: "Load (bt_env sample_boot) = (cfg, None)" using sample_load by blast
  have "bt_exporter sample_boot = None" "bt_resource sample_boot = None" "bt_attempt sample_boot 0 = Inr ()" "bt_migrate sample_boot = Pg_ok"
    "bt_seed sample_boot = all_ok" "bt_event sample_boot = Pg_ok" "bt_seats sample_boot = Pg_ok"
    by (simp_all add: sample_boot_def)
  from first_boot_serves_venue [OF l this, of mem_redis mem_empty] show ?thesis by blast
qed

text \<open>C23: Redis may lose everything: when an instance boots and its refill goes through, every sold
  seat is marked again, so a hold on it is answered SEAT\_BOOKED, in whatever order the map of
  bookings is iterated.\<close>

theorem rehydrate_protects_sold_seats:
  assumes "redis R" and "wf_db d" "only_event e d" "\<And>m. mset (order m) = mset m"
    and "rehydrateBooked R n Pipe_ok order e d r = (r', Rehydrated k)"
    and "booking_owner d s = Some v" and "hn_try nets = Answered 0"
  shows "Hold R sv nets now s u r' = (r', Inr (OutcomeSeatBooked, 0))"
proof -
  have "seat_marker R r' s \<noteq> None"
    using redis.rehydrate_markers [OF assms(1-3) _ assms(5), of s] assms(4,6) by simp
  from redis.TryHold_booked [OF assms(1) this, of 0] assms(7) show ?thesis
    by (simp add: Hold_def lock_defs)
qed

theorem rehydrate_protects_sold_seats_witness:
  "snd (Hold mem_redis sample_service ok_hold 0 1 ''bob''
     (fst (rehydrateBooked mem_redis Pg_ok Pipe_ok rev 1 sold_db mem_empty))) = Inr (OutcomeSeatBooked, 0)"
proof -
  obtain r k where r: "rehydrateBooked mem_redis Pg_ok Pipe_ok rev 1 sold_db mem_empty = (r, Rehydrated k)"
    by (simp add: rehydrateBooked_def RehydrateBooked_def BookedSeats_def event_bookings_def sold_db_def)
  have "hn_try ok_hold = Answered 0" by (simp add: ok_hold_def)
  from rehydrate_protects_sold_seats [OF mem.redis_axioms wf_sample_db(2) sample_event(2) _ r _ this,
      of 1 "''ada''" sample_service 0 "''bob''"] r
  show ?thesis by simp
qed

text \<open>The other half of a hold or a booking made on any instance: the message published for it is
  decoded to the same event by every subscriber and handed to the hub as the same bytes.\<close>

lemma published_events_are_relayed:
  assumes "list_all event_ok evs"
  shows "relay_events (map (Msg \<circ> marshal_event) evs) h =
    fold (\<lambda>ev res. case res of Inl p \<Rightarrow> Inl p | Inr hub \<Rightarrow> Broadcast (marshal_event ev) hub) evs (Inr h)"
proof -
  have "list_all event_ok evs \<Longrightarrow> SubscribeSeatEvents broadcast_event (map (Msg \<circ> marshal_event) evs) x =
      fold broadcast_event evs x" for x
    by (induction evs arbitrary: x) (simp_all add: unmarshal_marshal_event)
  with assms show ?thesis
    by (simp add: relay_events_def broadcast_event_def [abs_def])
qed

text \<open>The wait for Postgres is bounded: a connection is returned exactly when one of the first
  fifteen attempts succeeds before the process is told to stop.\<close>

theorem connect_within_fifteen:
  "connectStore attempt cancelled = Inr st \<longleftrightarrow>
   (\<exists>j < 15. attempt j = Inr st \<and>
      list_all (\<lambda>m. cancelled m = None \<and> isl (attempt m)) [0..<j])"
proof -
  have "(\<exists>err. attempt m = Inl err) \<longleftrightarrow> isl (attempt m)" for m
    by (cases "attempt m") simp_all
  then show ?thesis
    by (auto simp: connectStore_def connect_loop_ok list_all_iff)
qed



end
