(* ===== verification/Seat_Client.thy ===== *)
theory Seat_Client
  imports App Ws_Run
begin

text \<open>
  \<open>frontend/lib/useSeatSocket.ts\<close>: how a browser turns the frames of the live channel into its
  map of seats. A frame is the JSON value it parses to. An undefined member is \<open>None\<close>; keys of
  the map are the JSON values of the member \<open>seat_id\<close>.
\<close>

section \<open>The reducer\<close>

record live_state =
  lv_status :: "json option"
  lv_heldBy :: "json option"
  lv_bookedBy :: "json option"
  lv_expiresAtMs :: "json option"

type_synonym seat_map = "(json option \<times> live_state) list"

record socket_state =
  ss_states :: seat_map
  ss_redisHealthy :: "json option"
  ss_instanceId :: "json option"

text \<open>The initial state of the hook.\<close>

definition initial_socket :: socket_state where
  "initial_socket = \<lparr>ss_states = [], ss_redisHealthy = Some (JBool True), ss_instanceId = Some (JStr [])\<rparr>"

text \<open>A member of an object; of several with one name \<open>JSON.parse\<close> keeps the last.\<close>

fun member :: "json \<Rightarrow> string \<Rightarrow> json option" where
  "member (JObj ms) k = map_of (rev ms) k"
| "member _ k = None"

text \<open>An exception, which the caller swallows, is \<open>None\<close>: reading a member of \<open>null\<close>, or a value
  that cannot be iterated.\<close>

fun snapshot_entries :: "json list \<Rightarrow> seat_map \<Rightarrow> seat_map option" where
  "snapshot_entries [] next = Some next"
| "snapshot_entries (s # ss) next =
     (if s = JNull then None
      else if member s ''status'' = Some (JStr ''available'') then snapshot_entries ss next
      else snapshot_entries ss (AList.update (member s ''seat_id'')
        \<lparr>lv_status = member s ''status'', lv_heldBy = member s ''held_by'',
         lv_bookedBy = member s ''booked_by'', lv_expiresAtMs = member s ''expires_at_ms''\<rparr> next))"

fun iterate :: "json option \<Rightarrow> json list option" where
  "iterate (Some (JArr ss)) = Some ss"
| "iterate (Some (JStr cs)) = Some (map (\<lambda>c. JStr [c]) cs)"
| "iterate _ = None"

definition applySnapshot :: "json \<Rightarrow> socket_state \<Rightarrow> socket_state option" where
  "applySnapshot msg st =
     map_option (\<lambda>next. \<lparr>ss_states = next, ss_redisHealthy = member msg ''redis_healthy'',
         ss_instanceId = member msg ''instance_id''\<rparr>)
       (Option.bind (iterate (member msg ''seats'')) (\<lambda>ss. snapshot_entries ss []))"

definition applyDelta :: "json \<Rightarrow> socket_state \<Rightarrow> socket_state" where
  "applyDelta msg st =
     (let t = member msg ''type''; k = member msg ''seat_id'' in
      if t = Some (JStr ''freed'') then st\<lparr>ss_states := AList.delete k (ss_states st)\<rparr>
      else if t = Some (JStr ''held'') then st\<lparr>ss_states := AList.update k
        \<lparr>lv_status = Some (JStr ''held''), lv_heldBy = member msg ''held_by'', lv_bookedBy = None,
         lv_expiresAtMs = member msg ''expires_at_ms''\<rparr> (ss_states st)\<rparr>
      else if t = Some (JStr ''booked'') then st\<lparr>ss_states := AList.update k
        \<lparr>lv_status = Some (JStr ''booked''), lv_heldBy = None, lv_bookedBy = member msg ''booked_by'',
         lv_expiresAtMs = None\<rparr> (ss_states st)\<rparr>
      else st)"

definition onmessage :: "json \<Rightarrow> socket_state \<Rightarrow> socket_state" where
  "onmessage msg st =
     (if member msg ''type'' = Some (JStr ''snapshot'')
      then (case applySnapshot msg st of Some st' \<Rightarrow> st' | None \<Rightarrow> st)
      else applyDelta msg st)"

text \<open>The delay before the next connection, after \<open>retry\<close> failures in a row.\<close>

definition reconnect_delay :: "nat \<Rightarrow> nat" where
  "reconnect_delay retry = min (1000 * 2 ^ retry) 8000"

section \<open>What the browser shows\<close>

fun str_of :: "json option \<Rightarrow> string" where
  "str_of (Some (JStr s)) = s"
| "str_of _ = []"

definition entry_view :: "live_state option \<Rightarrow> seat_view" where
  "entry_view e = (case e of
     None \<Rightarrow> Free
   | Some lv \<Rightarrow> if lv_status lv = Some (JStr ''booked'') then SoldTo (str_of (lv_bookedBy lv))
               else HeldBy (str_of (lv_heldBy lv)))"

definition browser_view :: "socket_state \<Rightarrow> seat_id \<Rightarrow> seat_view" where
  "browser_view st s = entry_view (map_of (ss_states st) (Some (JInt s)))"

lemma member_state [simp]:
  "member (marshal_state st) ''seat_id'' = Some (JInt (st_SeatID st))"
  "member (marshal_state st) ''status'' = Some (JStr (st_Status st))"
  "str_of (member (marshal_state st) ''held_by'') = st_HeldBy st"
  "str_of (member (marshal_state st) ''booked_by'') = st_BookedBy st"
  by (simp_all add: marshal_state_def omit_str_def omit_int_def)

lemma marshal_state_not_null [simp]: "marshal_state st \<noteq> JNull"
  by (simp add: marshal_state_def)

lemma snapshot_entries_keep:
  "\<exists>m'. snapshot_entries (map marshal_state sts) m = Some m' \<and>
     (s \<notin> set (map st_SeatID sts) \<longrightarrow> map_of m' (Some (JInt s)) = map_of m (Some (JInt s)))"
  by (induction sts arbitrary: m) fastforce+

lemma snapshot_entries_view:
  assumes "distinct (map st_SeatID sts)" "list_all known_status sts"
    and "map_of m (Some (JInt s)) = None"
  shows "\<exists>m'. snapshot_entries (map marshal_state sts) m = Some m' \<and>
    entry_view (map_of m' (Some (JInt s))) = shown sts s"
  using assms
proof (induction sts arbitrary: m)
  case Nil
  then show ?case by (simp add: shown_def entry_view_def)
next
  case (Cons st sts)
  then have st: "st_Status st = ''held'' \<or> st_Status st = ''booked''"
    by (simp add: known_status_def status_consts)
  let ?lv = "\<lparr>lv_status = Some (JStr (st_Status st)), lv_heldBy = member (marshal_state st) ''held_by'',
     lv_bookedBy = member (marshal_state st) ''booked_by'',
     lv_expiresAtMs = member (marshal_state st) ''expires_at_ms''\<rparr>"
  let ?m = "AList.update (Some (JInt (st_SeatID st))) ?lv m"
  have step: "snapshot_entries (map marshal_state (st # sts)) m = snapshot_entries (map marshal_state sts) ?m"
    using st by auto
  show ?case
  proof (cases "st_SeatID st = s")
    case True
    with Cons.prems have new: "s \<notin> set (map st_SeatID sts)" by auto
    obtain m' where m': "snapshot_entries (map marshal_state sts) ?m = Some m'"
      "map_of m' (Some (JInt s)) = Some ?lv"
      using snapshot_entries_keep [of sts ?m s] new True by auto
    have "entry_view (Some ?lv) = shown (st # sts) s"
      using True st by (auto simp: entry_view_def shown_def status_consts)
    with m' step show ?thesis by simp
  next
    case False
    with Cons.prems have "map_of ?m (Some (JInt s)) = None" by simp
    from Cons.IH [OF _ _ this] Cons.prems step False show ?thesis by (auto simp: shown_def)
  qed
qed

lemma onmessage_snapshot:
  assumes "sn_Type snap = MsgSnapshot" "distinct (map st_SeatID (sn_Seats snap))"
    "list_all known_status (sn_Seats snap)"
  shows "browser_view (onmessage (marshal_snapshot snap) st) s = shown (sn_Seats snap) s"
proof -
  obtain m where "snapshot_entries (map marshal_state (sn_Seats snap)) [] = Some m"
    "entry_view (map_of m (Some (JInt s))) = shown (sn_Seats snap) s"
    using snapshot_entries_view [OF assms(2,3), of "[]" s] by auto
  with assms(1) show ?thesis
    by (simp add: onmessage_def applySnapshot_def marshal_snapshot_def browser_view_def MsgSnapshot_def)
qed

text \<open>The three events, as the backend builds them.\<close>

lemma member_event [simp]:
  "member (marshal_event ev) ''type'' = Some (JStr (ev_Type ev))"
  "member (marshal_event ev) ''seat_id'' = Some (JInt (ev_SeatID ev))"
  "str_of (member (marshal_event ev) ''held_by'') = ev_HeldBy ev"
  "str_of (member (marshal_event ev) ''booked_by'') = ev_BookedBy ev"
  by (simp_all add: marshal_event_def omit_str_def omit_int_def)

lemma onmessage_held:
  "browser_view (onmessage (marshal_event (held_event sv s u ms)) st) =
     (browser_view st)(s := HeldBy u)"
  by (auto simp: fun_eq_iff onmessage_def applyDelta_def browser_view_def entry_view_def held_event_def MsgHeld_def Let_def)

lemma onmessage_booked:
  "browser_view (onmessage (marshal_event (booked_event sv s u)) st) =
     (browser_view st)(s := SoldTo u)"
  by (auto simp: fun_eq_iff onmessage_def applyDelta_def browser_view_def entry_view_def booked_event_def MsgBooked_def Let_def)

lemma onmessage_freed:
  "browser_view (onmessage (marshal_event (freed_event inst s)) st) = (browser_view st)(s := Free)"
  by (auto simp: fun_eq_iff onmessage_def applyDelta_def browser_view_def entry_view_def freed_event_def MsgFreed_def Let_def)

section \<open>What the backend publishes\<close>

context redis
begin

lemma Hold_log:
  assumes "hn_try nets = Answered 0" "hn_publish nets = Answered 0" "0 < int_seconds (sv_holdTTL sv)"
  shows "rd_log R (fst (Hold R sv nets now s u r)) = rd_log R r @
    (if seat_marker R r s = None \<and> seat_holder R r s = None
     then [(eventChannel, marshal_event (held_event sv s u (unix_milli (time_add now (sv_holdTTL sv)))))] else [])"
proof -
  consider (booked) "seat_marker R r s \<noteq> None"
    | (held) "seat_marker R r s = None" "seat_holder R r s \<noteq> None"
    | (free) "seat_marker R r s = None" "seat_holder R r s = None" by blast
  then show ?thesis
  proof cases
    case booked
    then show ?thesis by (simp add: Hold_def assms TryHold_booked lock_defs)
  next
    case held
    then show ?thesis by (simp add: Hold_def assms TryHold_held lock_defs)
  next
    case free
    then show ?thesis
      by (simp add: Hold_def assms TryHold_free split_beta Let_def Publish_answered_log grabbed_free)
  qed
qed

lemma Confirm_log:
  assumes "confirm_clean nets" "cn_publish nets = Answered 0" "insertable d s (sv_eventID sv)"
    and "coherent R (r, d)"
  shows "rd_log R (fst (fst (Confirm R sv nets s u (r, d)))) = rd_log R r @
    (if seat_holder R r s = Some u then [(eventChannel, marshal_event (booked_event sv s u))] else [])"
proof (cases "seat_holder R r s = Some u")
  case True
  have free: "booking_owner d s = None"
    using coherentD(2) [OF assms(4), of s] True by (cases "booking_owner d s") auto
  note n = assms(1) [unfolded confirm_clean_def]
  show ?thesis
    using n True assms(2) Confirm_holder [OF True free assms(3), of nets 0]
    by (simp add: Publish_answered_log MarkBooked_state marked_views)
next
  case False
  then show ?thesis by (simp add: Confirm_not_holder)
qed

end

text \<open>What a browser makes of a list of messages, each of which tells it the state of one seat.\<close>

definition tells :: "json \<times> seat_id \<times> seat_view \<Rightarrow> bool" where
  "tells = (\<lambda>(m, s, v). \<forall>st. browser_view (onmessage m st) = (browser_view st)(s := v))"

definition overwrite :: "(json \<times> seat_id \<times> seat_view) list \<Rightarrow> (seat_id \<Rightarrow> seat_view) \<Rightarrow> seat_id \<Rightarrow> seat_view" where
  "overwrite ts = fold (\<lambda>(m, s, v) f. f(s := v)) ts"

lemma overwrite_simps [simp]: "overwrite [] f = f" "overwrite ((m, s, v) # ts) f = overwrite ts (f(s := v))"
  "overwrite (ts @ ts') f = overwrite ts' (overwrite ts f)"
  by (simp_all add: overwrite_def)

lemma overwrite_lookup:
  "overwrite ts f s = (case map_of (rev (map snd ts)) s of None \<Rightarrow> f s | Some v \<Rightarrow> v)"
  by (induction ts rule: rev_induct) auto

text \<open>Telling the same again changes nothing.\<close>

lemma overwrite_again [simp]: "overwrite ts (overwrite ts f) = overwrite ts f"
  by (auto simp: fun_eq_iff overwrite_lookup split: option.split)

lemma fold_tells:
  "list_all tells ts \<Longrightarrow> browser_view (fold onmessage (map fst ts) st) = overwrite ts (browser_view st)"
  by (induction ts arbitrary: st) (auto simp: tells_def)

text \<open>The messages of a hold and of a confirm, with what they tell.\<close>

definition hold_news ::
  "'r redis_api \<Rightarrow> service \<Rightarrow> int \<Rightarrow> seat_id \<Rightarrow> session \<Rightarrow> 'r \<Rightarrow> (json \<times> seat_id \<times> seat_view) list" where
  "hold_news R sv now s u r =
     (if seat_marker R r s = None \<and> seat_holder R r s = None
      then [(marshal_event (held_event sv s u (unix_milli (time_add now (sv_holdTTL sv)))), s, HeldBy u)] else [])"

definition confirm_news ::
  "'r redis_api \<Rightarrow> service \<Rightarrow> seat_id \<Rightarrow> session \<Rightarrow> 'r \<Rightarrow> (json \<times> seat_id \<times> seat_view) list" where
  "confirm_news R sv s u r =
     (if seat_holder R r s = Some u then [(marshal_event (booked_event sv s u), s, SoldTo u)] else [])"

lemma news_tell: "list_all tells (hold_news R sv now s u r)" "list_all tells (confirm_news R sv s u r)"
  by (auto simp: hold_news_def confirm_news_def tells_def onmessage_held onmessage_booked)

text \<open>The messages that an operation publishes tell exactly how the seats have changed.\<close>

lemma Hold_news:
  assumes "redis R" and "coherent R (r, d)" and "hold_clean hn" "hn_publish hn = Answered 0"
    and "0 < int_seconds (sv_holdTTL sv)" and "Hold R sv hn now s u r = (r', res)"
  shows "rd_log R r' = rd_log R r @ map (Pair eventChannel \<circ> fst) (hold_news R sv now s u r)"
    "view R (r', d) = overwrite (hold_news R sv now s u r) (view R (r, d))" "coherent R (r', d)"
proof -
  note m = redis.Hold_refines [OF assms(1-3,5,6)]
  show "rd_log R r' = rd_log R r @ map (Pair eventChannel \<circ> fst) (hold_news R sv now s u r)"
    using redis.Hold_log [OF assms(1) _ assms(4,5), of now s u r] assms(3,6)
    by (simp add: hold_clean_def hold_news_def)
  show "coherent R (r', d)" by (rule m(3))
  show "view R (r', d) = overwrite (hold_news R sv now s u r) (view R (r, d))"
    using m(1) coherentD(1) [OF assms(2), of s]
    by (auto simp: hold_news_def view_def fun_eq_iff split: option.splits)
qed

lemma Confirm_news:
  assumes "redis R" and "coherent R (r, d)" and "confirm_clean cn" "cn_publish cn = Answered 0"
    and "insertable d s (sv_eventID sv)" and "Confirm R sv cn s u (r, d) = ((r', d'), res)"
  shows "rd_log R r' = rd_log R r @ map (Pair eventChannel \<circ> fst) (confirm_news R sv s u r)"
    "view R (r', d') = overwrite (confirm_news R sv s u r) (view R (r, d))" "coherent R (r', d')"
proof -
  note m = redis.Confirm_refines [OF assms(1-3,5,6)]
  show "rd_log R r' = rd_log R r @ map (Pair eventChannel \<circ> fst) (confirm_news R sv s u r)"
    using redis.Confirm_log [OF assms(1,3,4,5,2), of u] assms(6) by (simp add: confirm_news_def)
  show "coherent R (r', d')" by (rule m(3))
  have "fst (spec_confirm (view R (r, d) s) u) = (if seat_holder R r s = Some u then SoldTo u else view R (r, d) s)"
    using coherentD(2) [OF assms(2), of s] by (auto simp: view_def split: option.splits)
  with m(1) show "view R (r', d') = overwrite (confirm_news R sv s u r) (view R (r, d))"
    by (simp add: confirm_news_def)
qed

text \<open>A browser that shows seat 1 as held.\<close>

definition held_browser :: socket_state where
  "held_browser = \<lparr>ss_states = [(Some (JInt 1), \<lparr>lv_status = Some (JStr ''held''), lv_heldBy = Some (JStr ''ada''),
        lv_bookedBy = None, lv_expiresAtMs = None\<rparr>)], ss_redisHealthy = None, ss_instanceId = None\<rparr>"

text \<open>End to end, a browser that connects while Redis answers and is quiet shows every seat as the
  system has it, whatever it showed before.\<close>

lemma browser_resyncs:
  assumes "redis R" and "\<And>i. ce_trips ce i = Some (\<lambda>_. r, clk i)" and "canonical_holds R r"
    and "wf_db d" "only_event (Event_ID (srv_Event srv)) d" and "ce_pg ce = Pg_ok"
    and "iterates ce" and "int_range s"
  shows "\<exists>snap. BuildSnapshot R srv ce d = Some (Inr snap) \<and>
    browser_view (onmessage (marshal_snapshot snap) st) s = view R (r, d) s"
  using BuildSnapshot_live [OF assms(1-7)] assms(8) by (auto simp: onmessage_snapshot)

section \<open>Properties\<close>

text \<open>A client connects, a delta is broadcast while its snapshot is being built, the snapshot follows.\<close>

lemma delta_overtakes:
  "\<exists>w. ws_reachable allowed w \<and> ch_buf (hb_chans (ww_hub w) ! 0) = [Delta m, Snap j]"
proof -
  let ?w2 = "broadcast_turn Events_loop (broadcast_begin Events_loop m [0] (connect ws_start))"
  let ?w3 = "put_client 0 (Serve_snapshot (map_sum id Snap (Inr j)) (get_client 0 ?w2)) ?w2"
  note d = first_visit broadcast_begin_def connect_def ws_start_def make_chan_def Let_def new_peer_def
  have "ws_step allowed ?w2 ?w3"
    unfolding first_visit by (rule ws_step.serve) (simp_all add: d)
  with first_visit_reachable have "ws_reachable allowed ?w3" by (rule ws_reachable.step)
  moreover have "ch_buf (hb_chans (ww_hub ?w3) ! 0) = [Delta m, Snap j]"
    unfolding first_visit by (simp add: put_client_def get_client_def Serve_snapshot_def try_send_def sendBufferSize_def d)
  ultimately show ?thesis by blast
qed

text \<open>C37: a delta that overtakes the snapshot is lost: a client can be sent the booking of a seat first
  and then the snapshot built before it, after which it shows the sold seat as held, although
  its connection is healthy and every message arrived.\<close>

theorem stale_snapshot_hides_booking:
  "\<exists>w snap m. ws_reachable allowed w \<and>
    BuildSnapshot mem_redis sample_server (sample_call held_redis) sample_db = Some (Inr snap) \<and>
    m = marshal_event (booked_event sample_service 1 ''ada'') \<and>
    ch_buf (hb_chans (ww_hub w) ! 0) = [Delta m, Snap (marshal_snapshot snap)] \<and>
    browser_view (fold onmessage [m, marshal_snapshot snap] st) 1 = HeldBy ''ada'' \<and>
    view mem_redis (fst (Confirm mem_redis sample_service ok_confirm 1 ''ada'' (held_redis, sample_db))) 1
      = SoldTo ''ada''"
proof -
  have t: "ce_trips (sample_call held_redis) i = Some (\<lambda>_. held_redis, (\<lambda>_ _. 0) i)" for i
    by (simp add: sample_call_def)
  have pg: "ce_pg (sample_call held_redis) = Pg_ok" by (simp add: sample_call_def)
  from BuildSnapshot_live [OF mem.redis_axioms t canonical_held wf_sample_db(1) _ pg sample_iterates,
      of sample_server]
  obtain snap where s: "BuildSnapshot mem_redis sample_server (sample_call held_redis) sample_db = Some (Inr snap)"
    "sn_Type snap = MsgSnapshot" "list_all known_status (sn_Seats snap)"
    "distinct (map st_SeatID (sn_Seats snap))"
    "shown (sn_Seats snap) 1 = view mem_redis (held_redis, sample_db) 1"
    by (auto simp: int_range_def)
  obtain rc dc where c: "Confirm mem_redis sample_service ok_confirm 1 ''ada'' (held_redis, sample_db) =
      ((rc, dc), Inr OutcomeConfirmed)" using sample_confirm by blast
  have "booking_owner dc 1 = Some ''ada''" using Confirm_success_owner [OF c] by simp
  moreover have "browser_view (onmessage (marshal_snapshot snap) st') 1 = HeldBy ''ada''" for st'
    using onmessage_snapshot [OF s(2,4,3)] s(5) by (simp add: view_def)
  ultimately show ?thesis
    using delta_overtakes [of allowed] s(1) c by (fastforce simp: view_def)
qed

section \<open>Expiry\<close>

text \<open>The seats of the expired keys that are delivered, in their order.\<close>

definition freed_by :: "string list \<Rightarrow> seat_id list" where
  "freed_by ks = concat (map (\<lambda>k. case seatIDFromKey k holdPrefix of (s, ok) \<Rightarrow> if ok then [s] else []) ks)"

lemma freed_by_simps [simp]:
  "freed_by [] = []"
  "freed_by (k # ks) = (case seatIDFromKey k holdPrefix of (s, ok) \<Rightarrow> if ok then s # freed_by ks else freed_by ks)"
  by (simp_all add: freed_by_def split: prod.split)

lemma SubscribeExpiries_msgs:
  "SubscribeExpiries handler (map Msg ks) x = fold handler (freed_by ks) x"
  by (induction ks arbitrary: x) (auto split: prod.splits)

lemma fold_freed:
  "browser_view (fold onmessage (map (marshal_event \<circ> freed_event inst) ss) st) s =
    (if s \<in> set ss then Free else browser_view st s)"
  by (induction ss arbitrary: st) (auto simp: onmessage_freed)

lemma freed_by_iff: "s \<in> set (freed_by ks) \<longleftrightarrow> (\<exists>k \<in> set ks. seatIDFromKey k holdPrefix = (s, True))"
proof (induction ks)
  case (Cons k ks)
  then show ?case by (cases "seatIDFromKey k holdPrefix") auto
qed simp

lemma freed_by_holds:
  assumes "canonical_holds R r" and "\<forall>k \<in> set ks. rd_get R r k \<noteq> None"
  shows "s \<in> set (freed_by ks) \<longleftrightarrow> int_range s \<and> holdKey s \<in> set ks"
proof -
  have key: "seatIDFromKey k holdPrefix = (s, True) \<longleftrightarrow> int_range s \<and> k = holdKey s" if "k \<in> set ks" for k
  proof (cases "has_prefix k holdPrefix")
    case True
    moreover have "rd_get R r k \<noteq> None" using assms(2) that by blast
    ultimately obtain n where "int_range n" "k = holdKey n"
      using assms(1) unfolding canonical_holds_def by blast
    then show ?thesis by auto
  next
    case False
    then show ?thesis by (auto simp: seatIDFromKey_def)
  qed
  have "s \<in> set (freed_by ks) \<longleftrightarrow> (\<exists>k \<in> set ks. seatIDFromKey k holdPrefix = (s, True))"
    by (rule freed_by_iff)
  also have "\<dots> \<longleftrightarrow> (\<exists>k \<in> set ks. int_range s \<and> k = holdKey s)"
    by (rule bex_cong [OF refl key])
  also have "\<dots> \<longleftrightarrow> int_range s \<and> holdKey s \<in> set ks" by blast
  finally show ?thesis .
qed

text \<open>The seats that are free once the expired keys are known.\<close>

lemma view_elapse:
  assumes "redis R" and "coherent R (r, d)" and "canonical_holds R r"
    and "set ks = {k. rd_get R r k \<noteq> None \<and> rd_get R (rd_elapse R r ms) k = None}"
  shows "view R (rd_elapse R r ms, d) s = (if s \<in> set (freed_by ks) then Free else view R (r, d) s)"
    "s \<in> set (freed_by ks) \<Longrightarrow> int_range s"
proof -
  have keys: "s \<in> set (freed_by ks) \<longleftrightarrow> int_range s \<and> holdKey s \<in> set ks"
    by (rule freed_by_holds [OF assms(3)]) (use assms(4) in auto)
  then show "s \<in> set (freed_by ks) \<Longrightarrow> int_range s" by blast
  have "int_range s" if "seat_holder R r s \<noteq> None"
    using that assms(3) by (auto simp: canonical_holds_def seat_holder_def)
  then have f: "s \<in> set (freed_by ks) \<longleftrightarrow> seat_holder R r s \<noteq> None \<and> seat_holder R (rd_elapse R r ms) s = None"
    using keys assms(4) by (auto simp: seat_holder_def)
  have "seat_holder R (rd_elapse R r ms) s \<in> {None, seat_holder R r s}"
    using redis.elapse_get [OF assms(1)] by (auto simp: seat_holder_def)
  moreover have "seat_holder R r s = None" if "booking_owner d s \<noteq> None"
    using coherentD(2) [OF assms(2)] that by simp
  ultimately show "view R (rd_elapse R r ms, d) s = (if s \<in> set (freed_by ks) then Free else view R (r, d) s)"
    by (auto simp: f view_def split: option.splits)
qed

text \<open>C25: when time passes in Redis and the keys it expires are delivered, in any order, every instance
  broadcasts one FREED for each expired hold and nothing for any other key, and a browser then shows
  exactly those seats as free and the others as before. Where Redis and Postgres agreed and the browser
  showed the seats as they were, it shows them as they are. (Where a sold seat had lost its marker and
  was held again, it is shown as free although it is sold.)\<close>

theorem browser_follows_expiry:
  assumes "redis R" and "canonical_holds R r" and "set ks = {k. rd_get R r k \<noteq> None \<and> rd_get R (rd_elapse R r ms) k = None}"
    and "after = fold onmessage (map (marshal_event \<circ> freed_event inst) (freed_by ks)) st"
  shows "relay_expiries inst (map Msg ks) h = fold (\<lambda>s. broadcast_event (freed_event inst s)) (freed_by ks) (Inr h) \<and>
    (\<forall>s. browser_view after s =
      (if int_range s \<and> seat_holder R r s \<noteq> None \<and> seat_holder R (rd_elapse R r ms) s = None then Free else browser_view st s)) \<and>
    (if coherent R (r, d) \<and> browser_view st = view R (r, d) then browser_view after = view R (rd_elapse R r ms, d) else True)"
proof (intro conjI allI)
  show "relay_expiries inst (map Msg ks) h = fold (\<lambda>s. broadcast_event (freed_event inst s)) (freed_by ks) (Inr h)"
    by (simp add: relay_expiries_def SubscribeExpiries_msgs on_expiry_def [abs_def])
  have "s \<in> set (freed_by ks) \<longleftrightarrow> int_range s \<and> holdKey s \<in> set ks" for s
    by (rule freed_by_holds [OF assms(2)]) (use assms(3) in auto)
  then show "browser_view after s =
      (if int_range s \<and> seat_holder R r s \<noteq> None \<and> seat_holder R (rd_elapse R r ms) s = None then Free else browser_view st s)" for s
    by (simp add: assms(3,4) fold_freed seat_holder_def)
  show "if coherent R (r, d) \<and> browser_view st = view R (r, d) then browser_view after = view R (rd_elapse R r ms, d) else True"
    by (auto simp: fun_eq_iff assms(4) fold_freed view_elapse(1) [OF assms(1) _ assms(2,3)])
qed

theorem browser_follows_expiry_witness:
  "browser_view (fold onmessage (map (marshal_event \<circ> freed_event ''b1'') (freed_by [holdKey 1])) held_browser) 1 = Free"
proof -
  have v: "browser_view held_browser = view mem_redis (held_redis, sample_db)"
    by (auto simp: fun_eq_iff held_browser_def browser_view_def entry_view_def view_def)
  have "set [holdKey 1] = {k. rd_get mem_redis held_redis k \<noteq> None \<and>
      rd_get mem_redis (rd_elapse mem_redis held_redis 120000) k = None}"
    by (auto simp: mem.elapse_get) (auto simp: mem_defs held_redis_def split: if_splits)
  from browser_follows_expiry [OF mem.redis_axioms canonical_held this refl, of "''b1''" NewHub held_browser sample_db] v
  have "browser_view (fold onmessage (map (marshal_event \<circ> freed_event ''b1'') (freed_by [holdKey 1])) held_browser) 1 =
      view mem_redis (rd_elapse mem_redis held_redis 120000, sample_db) 1" by (simp add: sample_coherent(2))
  moreover have "seat_holder mem_redis (rd_elapse mem_redis held_redis 120000) 1 = None"
    by (simp add: seat_holder_def mem.elapse_get) (simp add: mem_defs held_redis_def)
  ultimately show ?thesis by (simp add: view_def)
qed

end
