(* ===== verification/Harness.thy ===== *)
theory Harness
  imports App
begin

text \<open>
  \<open>loadtest/harness.go\<close>: the HTTP client of the load tests, the one program of the repository
  that drives the API from outside. An HTTP exchange is a state transformer; \<open>over_http\<close> makes
  one of the handler of the backend, so that client and server can be put together.
\<close>

section \<open>Settings\<close>

definition baseURL :: "env \<Rightarrow> string" where
  "baseURL env = (let v = env ''BASE_URL'' in if v \<noteq> [] then v else ''http://localhost:8080'')"

definition wsURL :: "env \<Rightarrow> string" where
  "wsURL env = (let v = env ''WS_URL'' in if v \<noteq> [] then v else ''ws://localhost:8080/ws'')"

text \<open>Whether the test is skipped.\<close>

definition requireIntegration :: "env \<Rightarrow> bool" where
  "requireIntegration env \<longleftrightarrow> env ''RUN_INTEGRATION'' \<noteq> ''1''"

definition hex_digit :: "nat \<Rightarrow> char" where
  "hex_digit n = (if n < 10 then digit_char n else char_of (87 + n))"

definition hex_encode :: "8 word list \<Rightarrow> string" where
  "hex_encode bs = concat (map (\<lambda>b. [hex_digit (unat b div 16), hex_digit (unat b mod 16)]) bs)"

text \<open>The session named by the twelve bytes the random source has given.\<close>

definition newSession :: "8 word list \<Rightarrow> session" where
  "newSession bs = ''sess_'' @ hex_encode bs"

section \<open>Responses\<close>

text \<open>The fields of the harness's own \<open>seatState\<close> are those of the server's, so its record is shared.\<close>

record hs_snapshot =
  hs_Type :: string
  hs_InstanceID :: string
  hs_Seats :: "seat_state list"
  hs_RedisHealthy :: bool

record hs_seat =
  hs_ID :: int

record eventResponse =
  er_Seats :: "hs_seat list"
  er_HoldTTLSeconds :: int

record actionResponse =
  ar_Status :: string
  ar_SeatID :: int
  ar_ExpiresAtMs :: int
  ar_Code :: string
  ar_Error :: string

definition zero_state :: seat_state where
  "zero_state = \<lparr>st_SeatID = 0, st_Status = [], st_HeldBy = [], st_BookedBy = [], st_ExpiresAtMs = 0\<rparr>"

definition zero_snapshot :: hs_snapshot where
  "zero_snapshot = \<lparr>hs_Type = [], hs_InstanceID = [], hs_Seats = [], hs_RedisHealthy = False\<rparr>"

definition zero_event_response :: eventResponse where
  "zero_event_response = \<lparr>er_Seats = [], er_HoldTTLSeconds = 0\<rparr>"

definition zero_action :: actionResponse where
  "zero_action = \<lparr>ar_Status = [], ar_SeatID = 0, ar_ExpiresAtMs = 0, ar_Code = [], ar_Error = []\<rparr>"

section \<open>Decoding\<close>

fun decode_bool :: "json \<Rightarrow> bool \<Rightarrow> bool option" where
  "decode_bool (JBool b) _ = Some b"
| "decode_bool JNull old = Some old"
| "decode_bool _ _ = None"

text \<open>An object into a struct, given what a member does; \<open>null\<close> leaves the struct as it is.\<close>

fun set_members :: "(string \<Rightarrow> json \<Rightarrow> 'a \<Rightarrow> 'a option) \<Rightarrow> (string \<times> json) list \<Rightarrow> 'a \<Rightarrow> 'a option" where
  "set_members f [] x = Some x"
| "set_members f ((k, v) # ms) x = (case f k v x of None \<Rightarrow> None | Some x' \<Rightarrow> set_members f ms x')"

fun decode_struct :: "(string \<Rightarrow> json \<Rightarrow> 'a \<Rightarrow> 'a option) \<Rightarrow> json \<Rightarrow> 'a \<Rightarrow> 'a option" where
  "decode_struct f (JObj ms) x = set_members f ms x"
| "decode_struct f JNull x = Some x"
| "decode_struct f _ x = None"

text \<open>An array into a slice: its elements are decoded over the elements the slice already has.\<close>

fun decode_elems :: "(json \<Rightarrow> 'a \<Rightarrow> 'a option) \<Rightarrow> 'a \<Rightarrow> json list \<Rightarrow> 'a list \<Rightarrow> 'a list option" where
  "decode_elems f z [] olds = Some []"
| "decode_elems f z (v # vs) olds =
     (case f v (case olds of [] \<Rightarrow> z | x # _ \<Rightarrow> x) of
        None \<Rightarrow> None
      | Some x \<Rightarrow> map_option ((#) x) (decode_elems f z vs (tl olds)))"

fun decode_slice :: "(json \<Rightarrow> 'a \<Rightarrow> 'a option) \<Rightarrow> 'a \<Rightarrow> json \<Rightarrow> 'a list \<Rightarrow> 'a list option" where
  "decode_slice f z (JArr vs) olds = decode_elems f z vs olds"
| "decode_slice f z JNull olds = Some []"
| "decode_slice f z _ olds = None"

definition set_state_member :: "string \<Rightarrow> json \<Rightarrow> seat_state \<Rightarrow> seat_state option" where
  "set_state_member k v x =
     (if field_match ''seat_id'' k then map_option (\<lambda>y. x\<lparr>st_SeatID := y\<rparr>) (decode_int v (st_SeatID x))
      else if field_match ''status'' k then map_option (\<lambda>y. x\<lparr>st_Status := y\<rparr>) (decode_string v (st_Status x))
      else if field_match ''held_by'' k then map_option (\<lambda>y. x\<lparr>st_HeldBy := y\<rparr>) (decode_string v (st_HeldBy x))
      else if field_match ''booked_by'' k
        then map_option (\<lambda>y. x\<lparr>st_BookedBy := y\<rparr>) (decode_string v (st_BookedBy x))
      else if field_match ''expires_at_ms'' k
        then map_option (\<lambda>y. x\<lparr>st_ExpiresAtMs := y\<rparr>) (decode_int v (st_ExpiresAtMs x))
      else Some x)"

definition set_snapshot_member :: "string \<Rightarrow> json \<Rightarrow> hs_snapshot \<Rightarrow> hs_snapshot option" where
  "set_snapshot_member k v x =
     (if field_match ''type'' k then map_option (\<lambda>y. x\<lparr>hs_Type := y\<rparr>) (decode_string v (hs_Type x))
      else if field_match ''instance_id'' k
        then map_option (\<lambda>y. x\<lparr>hs_InstanceID := y\<rparr>) (decode_string v (hs_InstanceID x))
      else if field_match ''seats'' k
        then map_option (\<lambda>y. x\<lparr>hs_Seats := y\<rparr>)
          (decode_slice (decode_struct set_state_member) zero_state v (hs_Seats x))
      else if field_match ''redis_healthy'' k
        then map_option (\<lambda>y. x\<lparr>hs_RedisHealthy := y\<rparr>) (decode_bool v (hs_RedisHealthy x))
      else Some x)"

definition set_seat_member :: "string \<Rightarrow> json \<Rightarrow> hs_seat \<Rightarrow> hs_seat option" where
  "set_seat_member k v x =
     (if field_match ''id'' k then map_option (\<lambda>y. x\<lparr>hs_ID := y\<rparr>) (decode_int v (hs_ID x)) else Some x)"

definition set_event_response_member :: "string \<Rightarrow> json \<Rightarrow> eventResponse \<Rightarrow> eventResponse option" where
  "set_event_response_member k v x =
     (if field_match ''seats'' k
        then map_option (\<lambda>y. x\<lparr>er_Seats := y\<rparr>)
          (decode_slice (decode_struct set_seat_member) \<lparr>hs_ID = 0\<rparr> v (er_Seats x))
      else if field_match ''hold_ttl_seconds'' k
        then map_option (\<lambda>y. x\<lparr>er_HoldTTLSeconds := y\<rparr>) (decode_int v (er_HoldTTLSeconds x))
      else Some x)"

text \<open>The error of this \<open>Unmarshal\<close> is dropped: a member of the wrong type is skipped and the rest kept.\<close>

definition set_action_member :: "string \<Rightarrow> json \<Rightarrow> actionResponse \<Rightarrow> actionResponse" where
  "set_action_member k v x =
     (let str = (\<lambda>old. case decode_string v old of Some y \<Rightarrow> y | None \<Rightarrow> old);
          num = (\<lambda>old. case decode_int v old of Some y \<Rightarrow> y | None \<Rightarrow> old)
      in if field_match ''status'' k then x\<lparr>ar_Status := str (ar_Status x)\<rparr>
         else if field_match ''seat_id'' k then x\<lparr>ar_SeatID := num (ar_SeatID x)\<rparr>
         else if field_match ''expires_at_ms'' k then x\<lparr>ar_ExpiresAtMs := num (ar_ExpiresAtMs x)\<rparr>
         else if field_match ''code'' k then x\<lparr>ar_Code := str (ar_Code x)\<rparr>
         else if field_match ''error'' k then x\<lparr>ar_Error := str (ar_Error x)\<rparr>
         else x)"

fun unmarshal_action :: "json option \<Rightarrow> actionResponse" where
  "unmarshal_action (Some (JObj ms)) = fold (\<lambda>(k, v). set_action_member k v) ms zero_action"
| "unmarshal_action _ = zero_action"

section \<open>Requests\<close>

text \<open>The body of a response is \<open>None\<close> where it is not JSON. A failed exchange covers a URL that
  does not parse, a refused connection and the timeout.\<close>

record http_call =
  hc_method :: string
  hc_url :: string
  hc_headers :: "(string \<times> string) list"
  hc_body :: "json option"

type_synonym 's http_client = "http_call \<Rightarrow> 's \<Rightarrow> 's \<times> (go_error, nat \<times> json option) result"

definition get_call :: "string \<Rightarrow> http_call" where
  "get_call url = \<lparr>hc_method = ''GET'', hc_url = url, hc_headers = [], hc_body = None\<rparr>"

definition postSeat :: "'s http_client \<Rightarrow> env \<Rightarrow> string \<Rightarrow> session \<Rightarrow> seat_id \<Rightarrow> 's
    \<Rightarrow> 's \<times> nat \<times> actionResponse \<times> go_error option" where
  "postSeat send env path sess seatID s =
     (case send \<lparr>hc_method = ''POST'', hc_url = baseURL env @ path,
              hc_headers = [(''Content-Type'', ''application/json''), (''X-Session-Id'', sess)],
              hc_body = Some (JObj [(''seat_id'', JInt seatID)])\<rparr> s of
        (s', Inl e) \<Rightarrow> (s', 0, zero_action, Some e)
      | (s', Inr (code, raw)) \<Rightarrow> (s', code, unmarshal_action raw, None))"

definition post_hold :: "'s http_client \<Rightarrow> env \<Rightarrow> session \<Rightarrow> seat_id \<Rightarrow> 's
    \<Rightarrow> 's \<times> nat \<times> actionResponse \<times> go_error option" where
  "post_hold send env sess seatID = postSeat send env ''/api/hold'' sess seatID"

definition post_confirm :: "'s http_client \<Rightarrow> env \<Rightarrow> session \<Rightarrow> seat_id \<Rightarrow> 's
    \<Rightarrow> 's \<times> nat \<times> actionResponse \<times> go_error option" where
  "post_confirm send env sess seatID = postSeat send env ''/api/confirm'' sess seatID"

text \<open>The left result is the message of \<open>t.Fatalf\<close>, or of a panic.\<close>

definition getEvent :: "'s http_client \<Rightarrow> env \<Rightarrow> 's \<Rightarrow> 's \<times> (go_error, eventResponse) result" where
  "getEvent send env s =
     (case send (get_call (baseURL env @ ''/api/event'')) s of
        (s', Inl e) \<Rightarrow> (s', Inl (Wrap ''get event'' e))
      | (s', Inr (code, body)) \<Rightarrow>
          (s', case Option.bind body (\<lambda>j. decode_struct set_event_response_member j zero_event_response) of
                 None \<Rightarrow> Inl (Err ''decode event'') | Some er \<Rightarrow> Inr er))"

definition getState :: "'s http_client \<Rightarrow> env \<Rightarrow> 's \<Rightarrow> 's \<times> (go_error, hs_snapshot) result" where
  "getState send env s =
     (case send (get_call (baseURL env @ ''/api/state'')) s of
        (s', Inl e) \<Rightarrow> (s', Inl (Wrap ''get state'' e))
      | (s', Inr (code, body)) \<Rightarrow>
          (s', case Option.bind body (\<lambda>j. decode_struct set_snapshot_member j zero_snapshot) of
                 None \<Rightarrow> Inl (Err ''decode state'') | Some sn \<Rightarrow> Inr sn))"

text \<open>The seats marked as taken, then the loop that collects \<open>n\<close> others.\<close>

definition taken_seats :: "seat_state list \<Rightarrow> seat_id \<Rightarrow> bool" where
  "taken_seats sts s \<longleftrightarrow>
     list_ex (\<lambda>x. st_SeatID x = s \<and> (st_Status x = ''held'' \<or> st_Status x = ''booked'')) sts"

fun pick_free :: "int \<Rightarrow> (seat_id \<Rightarrow> bool) \<Rightarrow> hs_seat list \<Rightarrow> seat_id list \<Rightarrow> seat_id list" where
  "pick_free n taken [] out = out"
| "pick_free n taken (s # ss) out =
     (if \<not> taken (hs_ID s) then
        (let out = out @ [hs_ID s] in if int (length out) = n then out else pick_free n taken ss out)
      else pick_free n taken ss out)"

definition availableSeats :: "'s http_client \<Rightarrow> env \<Rightarrow> int \<Rightarrow> 's \<Rightarrow> 's \<times> (go_error, seat_id list) result" where
  "availableSeats send env n s =
     (case getEvent send env s of
        (s1, Inl e) \<Rightarrow> (s1, Inl e)
      | (s1, Inr ev) \<Rightarrow>
          (case getState send env s1 of
             (s2, Inl e) \<Rightarrow> (s2, Inl e)
           | (s2, Inr st) \<Rightarrow>
               (if n < 0 then (s2, Inl (Err ''makeslice: cap out of range''))
                else
                  (let out = pick_free n (taken_seats (hs_Seats st)) (er_Seats ev) []
                   in if int (length out) < n
                      then (s2, Inl (Err (''needed '' @ itoa n @ '' available seats but only '' @
                        itoa (int (length out)) @ '' free; reset with 'docker compose down -v'' @ [CHR 0x27])))
                      else (s2, Inr out)))))"

text \<open>The loop of \<open>waitStackReady\<close> with \<open>k\<close> tries left: whether the stack became ready.\<close>

fun ready_loop :: "'s http_client \<Rightarrow> env \<Rightarrow> nat \<Rightarrow> 's \<Rightarrow> 's \<times> bool" where
  "ready_loop send env 0 s = (s, False)"
| "ready_loop send env (Suc k) s =
     (case send (get_call (baseURL env @ ''/healthz'')) s of
        (s', Inr (code, body)) \<Rightarrow> if code = 200 then (s', True) else ready_loop send env k s'
      | (s', Inl e) \<Rightarrow> ready_loop send env k s')"

definition waitStackReady :: "'s http_client \<Rightarrow> env \<Rightarrow> 's \<Rightarrow> 's \<times> bool" where
  "waitStackReady send env s = ready_loop send env 30 s"

section \<open>Decoding what the server sends\<close>

lemma set_members_append:
  "set_members f (xs @ ys) x = (case set_members f xs x of None \<Rightarrow> None | Some y \<Rightarrow> set_members f ys y)"
  by (induction f xs x rule: set_members.induct) (auto split: option.splits)

lemma lower_response_names [simp]:
  "json_fold ''instance_id'' = ''instance_id''" "json_fold ''seats'' = ''seats''"
  "json_fold ''redis_healthy'' = ''redis_healthy''"
  "json_fold ''hold_ttl_seconds'' = ''hold_ttl_seconds''"
  "json_fold ''server_time_ms'' = ''server_time_ms''" "json_fold ''id'' = ''id''"
  "json_fold ''section'' = ''section''" "json_fold ''row_label'' = ''row_label''"
  "json_fold ''seat_number'' = ''seat_number''" "json_fold ''price_cents'' = ''price_cents''"
  "json_fold ''position'' = ''position''" "json_fold ''event'' = ''event''"
  "json_fold ''instance'' = ''instance''" "json_fold ''code'' = ''code''"
  "json_fold ''error'' = ''error''" "json_fold ''message'' = ''message''"
  by code_simp+

lemma set_state_member_names [simp]:
  "int_range n \<Longrightarrow> set_state_member ''seat_id'' (JInt n) x = Some (x\<lparr>st_SeatID := n\<rparr>)"
  "set_state_member ''status'' (JStr s) x = Some (x\<lparr>st_Status := s\<rparr>)"
  "set_state_member ''held_by'' (JStr s) x = Some (x\<lparr>st_HeldBy := s\<rparr>)"
  "set_state_member ''booked_by'' (JStr s) x = Some (x\<lparr>st_BookedBy := s\<rparr>)"
  "int_range n \<Longrightarrow> set_state_member ''expires_at_ms'' (JInt n) x = Some (x\<lparr>st_ExpiresAtMs := n\<rparr>)"
  by (simp_all only: set_state_member_def field_match_def lower_names) (simp_all)

lemma set_seat_member_names [simp]:
  "int_range n \<Longrightarrow> set_seat_member ''id'' (JInt n) x = Some (x\<lparr>hs_ID := n\<rparr>)"
  "set_seat_member ''section'' v x = Some x" "set_seat_member ''row_label'' v x = Some x"
  "set_seat_member ''seat_number'' v x = Some x" "set_seat_member ''price_cents'' v x = Some x"
  "set_seat_member ''position'' v x = Some x"
  by (simp_all only: set_seat_member_def field_match_def lower_response_names) (simp_all)

lemma set_snapshot_member_names [simp]:
  "set_snapshot_member ''type'' (JStr s) x = Some (x\<lparr>hs_Type := s\<rparr>)"
  "set_snapshot_member ''instance_id'' (JStr s) x = Some (x\<lparr>hs_InstanceID := s\<rparr>)"
  "set_snapshot_member ''hold_ttl_seconds'' v x = Some x"
  "set_snapshot_member ''server_time_ms'' v x = Some x"
  "set_snapshot_member ''seats'' v x = map_option (\<lambda>y. x\<lparr>hs_Seats := y\<rparr>)
     (decode_slice (decode_struct set_state_member) zero_state v (hs_Seats x))"
  "set_snapshot_member ''redis_healthy'' (JBool b) x = Some (x\<lparr>hs_RedisHealthy := b\<rparr>)"
  by (simp_all only: set_snapshot_member_def field_match_def lower_response_names lower_names) (simp_all)

lemma set_event_response_member_names [simp]:
  "set_event_response_member ''event'' v x = Some x"
  "set_event_response_member ''instance'' v x = Some x"
  "int_range n \<Longrightarrow> set_event_response_member ''hold_ttl_seconds'' (JInt n) x = Some (x\<lparr>er_HoldTTLSeconds := n\<rparr>)"
  "set_event_response_member ''seats'' v x = map_option (\<lambda>y. x\<lparr>er_Seats := y\<rparr>)
     (decode_slice (decode_struct set_seat_member) \<lparr>hs_ID = 0\<rparr> v (er_Seats x))"
  by (simp_all only: set_event_response_member_def field_match_def lower_response_names) (simp_all)

lemma set_action_member_names [simp]:
  "set_action_member ''status'' (JStr s) x = x\<lparr>ar_Status := s\<rparr>"
  "int_range n \<Longrightarrow> set_action_member ''seat_id'' (JInt n) x = x\<lparr>ar_SeatID := n\<rparr>"
  "int_range n \<Longrightarrow> set_action_member ''expires_at_ms'' (JInt n) x = x\<lparr>ar_ExpiresAtMs := n\<rparr>"
  "set_action_member ''message'' v x = x"
  "set_action_member ''code'' (JStr s) x = x\<lparr>ar_Code := s\<rparr>"
  "set_action_member ''error'' (JStr s) x = x\<lparr>ar_Error := s\<rparr>"
  by (simp_all only: set_action_member_def field_match_def lower_response_names lower_names Let_def) (simp_all)

definition wire_state :: "seat_state \<Rightarrow> bool" where
  "wire_state st \<longleftrightarrow> int_range (st_SeatID st) \<and> int_range (st_ExpiresAtMs st)"

lemma decode_state: "wire_state st \<Longrightarrow> decode_struct set_state_member (marshal_state st) zero_state = Some st"
  by (simp add: wire_state_def marshal_state_def omit_str_def omit_int_def set_members_append zero_state_def)

lemma decode_elems_fresh:
  "list_all (\<lambda>x. f (g x) z = Some (h x)) xs \<Longrightarrow> decode_elems f z (map g xs) [] = Some (map h xs)"
  by (induction xs) simp_all

lemma decode_snapshot:
  assumes "list_all wire_state (sn_Seats snap)"
  shows "decode_struct set_snapshot_member (marshal_snapshot snap) zero_snapshot =
    Some \<lparr>hs_Type = sn_Type snap, hs_InstanceID = sn_InstanceID snap, hs_Seats = sn_Seats snap,
      hs_RedisHealthy = sn_RedisHealthy snap\<rparr>"
proof -
  have "list_all (\<lambda>x. decode_struct set_state_member (marshal_state x) zero_state = Some (id x)) (sn_Seats snap)"
    using assms decode_state by (auto simp: list_all_iff)
  from decode_elems_fresh [where f = "decode_struct set_state_member" and z = zero_state and h = id
      and g = marshal_state, OF this] show ?thesis
    by (simp add: marshal_snapshot_def zero_snapshot_def)
qed

lemma decode_seat:
  "int_range (seat_ID s) \<Longrightarrow> decode_struct set_seat_member (marshal_seat s) \<lparr>hs_ID = 0\<rparr> = Some \<lparr>hs_ID = seat_ID s\<rparr>"
  by (simp add: marshal_seat_def)

lemma int_seconds_range [simp]: "int_range (int_seconds d)"
proof -
  have "- (2 ^ 63) \<le> sint d" using sint_ge [of d] by simp
  then show ?thesis
    using int_seconds_le [of d]
    by (cases "sint d < 0") (auto simp: int_seconds_def trunc_div_def sgn_if int_range_def)
qed

section \<open>Client and server together\<close>

text \<open>
  The gateway passes a request on with its path and headers and adds the forwarding header
  \<open>fwd\<close>; \<open>remote\<close> is its own address.
\<close>

definition to_request :: "string \<Rightarrow> string \<Rightarrow> string \<Rightarrow> http_call \<Rightarrow> http_request" where
  "to_request base fwd remote hc =
     \<lparr>ht_method = hc_method hc, ht_path = drop (length base) (hc_url hc), ht_origin = [],
      ht_client = \<lparr>og_session = (case map_of (hc_headers hc) ''X-Session-Id'' of None \<Rightarrow> [] | Some v \<Rightarrow> v),
        og_forwarded = fwd, og_remote = remote\<rparr>, ht_body = hc_body hc\<rparr>"

definition over_http ::
  "string \<Rightarrow> string \<Rightarrow> string \<Rightarrow> (http_request \<Rightarrow> 's \<Rightarrow> 's \<times> reply option) \<Rightarrow> 's http_client" where
  "over_http base fwd remote handler hc s =
     (case handler (to_request base fwd remote hc) s of
        (s', Some (Reply resp)) \<Rightarrow> (s', Inr (rs_status resp, rs_body resp))
      | (s', _) \<Rightarrow> (s', Inl (Err ''no response'')))"

lemma over_http_Handler:
  assumes "mux R A rfc srv hub ce (to_request base fwd remote hc) (l, st) = ((l', st'), Some (Reply resp))"
    and "hc_method hc \<noteq> ''OPTIONS''"
  shows "\<exists>lg'. over_http base fwd remote (Handler R A rfc srv hub ce) hc (lg, l, st) =
    ((lg', l', st'), Inr (rs_status resp, rs_body resp))"
proof -
  have "ht_method (to_request base fwd remote hc) \<noteq> ''OPTIONS''" using assms(2) by (simp add: to_request_def)
  with assms(1) show ?thesis
    by (cases "ce_trace ce = []")
      (simp_all add: over_http_def Handler_def traceMiddleware_def corsMiddleware_def Let_def)
qed

lemma to_request_get [simp]:
  "route (ht_method (to_request base fwd remote (get_call (base @ path))))
     (ht_path (to_request base fwd remote (get_call (base @ path)))) = route ''GET'' path"
  "hc_method (get_call url) \<noteq> ''OPTIONS''"
  by (simp_all add: to_request_def get_call_def)

lemma get_routes [simp]: "route ''GET'' ''/api/event'' = R_event" "route ''GET'' ''/api/state'' = R_state"
  by (simp_all add: route_def only_def)

text \<open>The two reads of the harness get what the server has, and leave it as it is.\<close>

lemma getEvent_served:
  assumes "list_all (\<lambda>x. int_range (seat_ID x)) (srv_Seats srv)"
  shows "\<exists>lg'. getEvent (over_http (baseURL env) fwd remote (Handler R A rfc srv hub ce)) env (lg, l, st) =
    ((lg', l, st), Inr \<lparr>er_Seats = map (\<lambda>x. \<lparr>hs_ID = seat_ID x\<rparr>) (srv_Seats srv),
      er_HoldTTLSeconds = int_seconds (srv_HoldTTL srv)\<rparr>)"
proof -
  let ?hc = "get_call (baseURL env @ ''/api/event'')"
  have "list_all (\<lambda>x. decode_struct set_seat_member (marshal_seat x) \<lparr>hs_ID = 0\<rparr> = Some \<lparr>hs_ID = seat_ID x\<rparr>)
      (srv_Seats srv)"
    using assms decode_seat by (auto simp: list_all_iff)
  note seats = decode_elems_fresh [where f = "decode_struct set_seat_member" and g = marshal_seat
      and h = "\<lambda>x. \<lparr>hs_ID = seat_ID x\<rparr>", OF this]
  have "mux R A rfc srv hub ce (to_request (baseURL env) fwd remote ?hc) (l, st) =
      ((l, st), Some (Reply (handleEvent rfc srv)))"
    by (simp add: mux_def)
  from over_http_Handler [OF this] obtain lg' where
    "over_http (baseURL env) fwd remote (Handler R A rfc srv hub ce) ?hc (lg, l, st) =
      ((lg', l, st), Inr (rs_status (handleEvent rfc srv), rs_body (handleEvent rfc srv)))" by auto
  then show ?thesis
    by (cases "srv_Seats srv = []")
      (simp_all add: getEvent_def handleEvent_def marshal_seats_def writeJSON_def seats zero_event_response_def)
qed

lemma getState_served:
  assumes "BuildSnapshot R srv ce d = Some (Inr snap)" and "list_all wire_state (sn_Seats snap)"
  shows "\<exists>lg'. getState (over_http (baseURL env) fwd remote (Handler R A rfc srv hub ce)) env (lg, l, r, d) =
    ((lg', l, r, d), Inr \<lparr>hs_Type = sn_Type snap, hs_InstanceID = sn_InstanceID snap, hs_Seats = sn_Seats snap,
      hs_RedisHealthy = sn_RedisHealthy snap\<rparr>)"
proof -
  let ?hc = "get_call (baseURL env @ ''/api/state'')"
  let ?resp = "\<lparr>rs_status = 200, rs_headers = [(''Content-Type'', ''application/json'')],
    rs_body = Some (marshal_snapshot snap)\<rparr>"
  have "mux R A rfc srv hub ce (to_request (baseURL env) fwd remote ?hc) (l, r, d) =
      ((l, r, d), Some (Reply ?resp))"
    by (simp add: mux_def handleState_def assms(1))
  from over_http_Handler [OF this] obtain lg' where
    "over_http (baseURL env) fwd remote (Handler R A rfc srv hub ce) ?hc (lg, l, r, d) =
      ((lg', l, r, d), Inr (200, Some (marshal_snapshot snap)))" by auto
  then show ?thesis
    by (simp add: getState_def decode_snapshot [OF assms(2)])
qed

section \<open>Picking free seats\<close>

lemma pick_free_zero: "pick_free 0 taken ss out = out @ filter (\<lambda>s. \<not> taken s) (map hs_ID ss)"
  by (induction ss arbitrary: out) (simp_all add: Let_def)

lemma pick_free_take:
  "int (length out) < n \<Longrightarrow>
   pick_free n taken ss out = take (nat n) (out @ filter (\<lambda>s. \<not> taken s) (map hs_ID ss))"
proof (induction ss arbitrary: out)
  case (Cons s ss)
  show ?case
  proof (cases "int (length (out @ [hs_ID s])) = n")
    case True
    then have "nat n = length (out @ [hs_ID s])" by simp
    with True Cons show ?thesis by (simp add: Let_def)
  next
    case False
    with Cons.prems have "int (length (out @ [hs_ID s])) < n" by simp
    with False Cons.prems Cons.IH [OF this] Cons.IH [OF Cons.prems] show ?thesis by (simp add: Let_def)
  qed
qed simp

lemma taken_shown:
  "list_all known_status sts \<Longrightarrow> taken_seats sts s \<longleftrightarrow> shown sts s \<noteq> Free"
  by (induction sts) (auto simp: taken_seats_def shown_def known_status_def status_consts)

text \<open>
  Redis and Postgres answer and do not change during the calls (\<open>clk\<close> is the clock at each
  round trip), and the numbers of the server are Go integers.
\<close>

definition quiet :: "'r redis_api \<Rightarrow> server \<Rightarrow> 'r call_env \<Rightarrow> (nat \<Rightarrow> nat \<Rightarrow> int) \<Rightarrow> 'r \<Rightarrow> db \<Rightarrow> bool" where
  "quiet R srv ce clk r d \<longleftrightarrow> (\<forall>i. ce_trips ce i = Some (\<lambda>_. r, clk i)) \<and> canonical_holds R r \<and>
     wf_db d \<and> only_event (Event_ID (srv_Event srv)) d \<and> ce_pg ce = Pg_ok \<and> iterates ce \<and>
     list_all (\<lambda>x. int_range (seat_ID x)) (srv_Seats srv) \<and>
     list_all (\<lambda>b. int_range (bk_seat_id b)) (db_bookings d) \<and>
     (\<forall>i j s. int_range (unix_milli (clk i j + hold_left R r s * 1000000)))"

definition free_seats :: "'r redis_api \<Rightarrow> server \<Rightarrow> 'r \<times> db \<Rightarrow> seat_id list" where
  "free_seats R srv rd = filter (\<lambda>s. view R rd s = Free) (map seat_ID (srv_Seats srv))"

lemma snapshot_wire:
  assumes R: "redis R" and q: "quiet R srv ce clk r d" and snap: "BuildSnapshot R srv ce d = Some (Inr snap)"
  shows "list_all wire_state (sn_Seats snap)"
proof -
  have trips: "\<And>i. ce_trips ce i = Some (\<lambda>_. r, clk i)" and canon: "canonical_holds R r" and wf: "wf_db d"
    and pg: "ce_pg ce = Pg_ok" and it: "iterates ce"
    and ids: "\<forall>b \<in> set (db_bookings d). int_range (bk_seat_id b)"
    and ms: "\<And>i j s. int_range (unix_milli (clk i j + hold_left R r s * 1000000))"
    using q by (simp_all add: quiet_def list_all_iff)
  obtain booked where b: "BookedSeats Pg_ok (Event_ID (srv_Event srv)) d = Inr booked"
    by (simp add: BookedSeats_def)
  obtain held where h: "HeldSeats R (ce_trips ce) = Some (Inr held)" "distinct_keys held"
    "\<forall>s st. map_of held s = Some st \<longrightarrow> (\<exists>i j. held_entry R r (clk i j) s = Some st)"
    using redis.HeldSeats_static [OF R, where obs = "ce_trips ce" and clk = clk, OF trips canon] by blast
  have sts: "sn_Seats snap = snapshot_states booked (ce_booked_order ce booked) (ce_held_order ce held)"
    using snap b h(1) pg by (auto simp: BuildSnapshot_def Let_def)
  have perm: "set (ce_booked_order ce booked) = set booked" "set (ce_held_order ce held) = set held"
    using it by (auto simp: iterates_def dest: mset_eq_setD)
  have zero: "int_range 0" by (simp add: int_range_def)
  have "wire_state (booked_state (k, u))" if "(k, u) \<in> set booked" for k u
  proof -
    have "map_of booked k = Some u" using BookedSeats_lookup(1) [OF wf b] that by simp
    then obtain x where "find (\<lambda>x. bk_seat_id x = k) (event_bookings (Event_ID (srv_Event srv)) d) = Some x"
      using BookedSeats_lookup(2) [OF wf b, of k] by auto
    then have "x \<in> set (db_bookings d)" "bk_seat_id x = k"
      by (auto simp: find_Some_iff event_bookings_def dest: nth_mem)
    with ids zero show ?thesis by (auto simp: wire_state_def booked_state_def)
  qed
  moreover have "wire_state st" if "(k, st) \<in> set held" for k st
  proof -
    have "map_of held k = Some st" using h(2) that by simp
    then obtain i j where e: "held_entry R r (clk i j) k = Some st" using h(3) by blast
    from held_entry_SomeD [OF e] have k: "int_range k" "st_SeatID st = k" by simp_all
    have "st_ExpiresAtMs st = 0 \<or> st_ExpiresAtMs st = unix_milli (clk i j + hold_left R r k * 1000000)"
      using e k(1) by (auto simp: held_entry_eq)
    with k ms zero show ?thesis by (auto simp: wire_state_def)
  qed
  ultimately show ?thesis
    unfolding sts snapshot_states_def list_all_iff using perm by auto
qed

section \<open>Properties\<close>

text \<open>C26: the seats the load tests race for really are free: against a quiet backend, reached over its own
  HTTP handlers and JSON, \<open>availableSeats\<close> changes nothing and returns exactly the first
  \<open>n\<close> seats of the venue that are neither held nor sold, and fails exactly when there are fewer.\<close>

theorem available_seats_are_free:
  assumes "redis R" and "quiet R srv ce clk r d" and "0 < n"
  shows "\<exists>lg' res. availableSeats (over_http (baseURL env) fwd remote (Handler R A rfc srv hub ce)) env n
      (lg, l, r, d) = ((lg', l, r, d), res) \<and>
    (case res of Inl e \<Rightarrow> int (length (free_seats R srv (r, d))) < n
     | Inr out \<Rightarrow> out = take (nat n) (free_seats R srv (r, d)) \<and> int (length out) = n)"
proof -
  let ?client = "over_http (baseURL env) fwd remote (Handler R A rfc srv hub ce)"
  have q: "\<And>i. ce_trips ce i = Some (\<lambda>_. r, clk i)" "canonical_holds R r" "wf_db d"
    "only_event (Event_ID (srv_Event srv)) d" "ce_pg ce = Pg_ok" "iterates ce"
    "list_all (\<lambda>x. int_range (seat_ID x)) (srv_Seats srv)"
    using assms(2) by (simp_all add: quiet_def)
  obtain snap where s: "BuildSnapshot R srv ce d = Some (Inr snap)" "list_all known_status (sn_Seats snap)"
    "\<forall>s. int_range s \<longrightarrow> shown (sn_Seats snap) s = view R (r, d) s"
    using BuildSnapshot_live [OF assms(1) q(1-6)] by blast
  note w = snapshot_wire [OF assms(1,2) s(1)]
  obtain lg1 where ev: "getEvent ?client env (lg, l, r, d) = ((lg1, l, r, d),
      Inr \<lparr>er_Seats = map (\<lambda>x. \<lparr>hs_ID = seat_ID x\<rparr>) (srv_Seats srv), er_HoldTTLSeconds = int_seconds (srv_HoldTTL srv)\<rparr>)"
    using getEvent_served [OF q(7)] by blast
  obtain lg2 where st: "getState ?client env (lg1, l, r, d) = ((lg2, l, r, d), Inr \<lparr>hs_Type = sn_Type snap,
      hs_InstanceID = sn_InstanceID snap, hs_Seats = sn_Seats snap, hs_RedisHealthy = sn_RedisHealthy snap\<rparr>)"
    using getState_served [OF s(1) w] by blast
  have "filter (\<lambda>s. \<not> taken_seats (sn_Seats snap) s) (map seat_ID (srv_Seats srv)) = free_seats R srv (r, d)"
    unfolding free_seats_def using q(7) s(3)
    by (intro filter_cong) (auto simp: taken_shown [OF s(2)] list_all_iff)
  then have "pick_free n (taken_seats (sn_Seats snap)) (map (\<lambda>x. \<lparr>hs_ID = seat_ID x\<rparr>) (srv_Seats srv)) [] =
      take (nat n) (free_seats R srv (r, d))"
    using pick_free_take [of "[]" n] assms(3) by (simp add: comp_def)
  then show ?thesis
    using assms(3) by (auto simp: availableSeats_def ev st Let_def)
qed

lemma sample_seat_ids: "map seat_ID (srv_Seats sample_server) = [1, 2]"
  by (simp add: sample_server_def sample_db_def sample_seat_def)

lemma sample_quiet: "quiet mem_redis sample_server (sample_call held_redis) (\<lambda>_ _. 0) held_redis sample_db"
proof -
  have "int_range (unix_milli (hold_left mem_redis held_redis s * 1000000))" for s
    by (cases "s = 1") (simp_all add: hold_left_def mem_defs held_redis_def int_range_def unix_milli_def)
  then show ?thesis
    by (simp add: quiet_def) (simp add: sample_call_def sample_server_def sample_defs int_range_def)
qed

theorem available_seats_are_free_witness:
  "\<exists>lg'. availableSeats (over_http (baseURL (\<lambda>_. [])) [] [] (Handler mem_redis tb_api (\<lambda>_. []) sample_server
      (NewHub :: json hub) (sample_call held_redis))) (\<lambda>_. []) 1 ([], New 60, held_redis, sample_db) =
    ((lg', New 60, held_redis, sample_db), Inr [2])"
proof -
  have f: "free_seats mem_redis sample_server (held_redis, sample_db) = [2]"
    by (simp add: free_seats_def sample_seat_ids view_def)
  let ?run = "availableSeats (over_http (baseURL (\<lambda>_. [])) [] [] (Handler mem_redis tb_api (\<lambda>_. []) sample_server
      (NewHub :: json hub) (sample_call held_redis))) (\<lambda>_. []) 1 ([], New 60, held_redis, sample_db)"
  obtain lg' res where "?run = ((lg', New 60, held_redis, sample_db), res)"
    "case res of Inl e \<Rightarrow> int (length [2::int]) < 1 | Inr out \<Rightarrow> out = take (nat 1) [2] \<and> int (length out) = 1"
    using available_seats_are_free [OF mem.redis_axioms sample_quiet, of 1 "\<lambda>_. []" "[]" "[]" tb_api "\<lambda>_. []"
        "NewHub :: json hub" "[]" "New 60"] unfolding f by auto
  then show ?thesis by (cases res) auto
qed

text \<open>C27: a hold answered over HTTP is understood by the client as the service meant it: the body it sends
  is parsed to the same session and seat, and the body it gets back is decoded to the seat, the
  name of the outcome and, for a hold, the same expiry.\<close>

theorem hold_survives_http:
  assumes "u \<noteq> []" and "validSeats srv s" and "int_range s" and "int_range ms"
    and "allow A (ce_now ce) (''sess:'' @ u) l = (l', True)"
    and "Hold R (srv_Bookings srv) (ce_hold ce) (ce_now ce) s u r = (r', Inr (oc, ms))"
  shows "\<exists>lg' ar. post_hold (over_http (baseURL env) fwd remote (Handler R A rfc srv hub ce)) env u s (lg, l, r, d) =
      ((lg', l', r', d), (if oc = OutcomeHeld then 200 else 409), ar, None) \<and>
    ar_Status ar = outcome_string oc \<and> ar_SeatID ar = s \<and> ar_ExpiresAtMs ar = (if oc = OutcomeHeld then ms else 0)"
proof -
  let ?hc = "\<lparr>hc_method = ''POST'', hc_url = baseURL env @ ''/api/hold'',
    hc_headers = [(''Content-Type'', ''application/json''), (''X-Session-Id'', u)],
    hc_body = Some (JObj [(''seat_id'', JInt s)])\<rparr>"
  let ?req = "to_request (baseURL env) fwd remote ?hc"
  have rt: "route (ht_method ?req) (ht_path ?req) = R_hold"
    by (simp add: to_request_def route_def only_def)
  have key: "clientKey (ht_client ?req) = ''sess:'' @ u"
    using assms(1) by (simp add: to_request_def clientKey_def)
  have parse: "parseSeatRequest srv ?req = Inr (u, s)"
    using assms(1-3) by (simp add: parseSeatRequest_def to_request_def)
  have m: "mux R A rfc srv hub ce ?req (l, r, d) = ((l', r', d), Some (Reply (hold_response s ms oc)))"
    using assms(5,6) by (simp add: mux_def rt limited_def Middleware_def key handleHold_def parse)
  obtain lg' where send: "over_http (baseURL env) fwd remote (Handler R A rfc srv hub ce) ?hc (lg, l, r, d) =
      ((lg', l', r', d), Inr (rs_status (hold_response s ms oc), rs_body (hold_response s ms oc)))"
    using over_http_Handler [OF m] by auto
  have "oc \<in> {OutcomeHeld, OutcomeTaken, OutcomeSeatBooked}"
    using Hold_outcomes [OF assms(6)] by auto
  with assms(3,4) send show ?thesis
    by (auto simp: post_hold_def postSeat_def writeJSON_def conflict_json_def zero_action_def)
qed

lemma first_request_allowed: "\<exists>l'. allow tb_api 0 key (New 60) = (l', True)"
  by (simp add: allow_def get_def New_def tb_api_def tb_allow_def level_take_def level_at_def Let_def)

theorem hold_survives_http_witness:
  "\<exists>st ar. post_hold (over_http (baseURL (\<lambda>_. [])) [] [] (Handler mem_redis tb_api (\<lambda>_. []) sample_server
      (NewHub :: json hub) (sample_call mem_empty))) (\<lambda>_. []) ''ada'' 1 ([], New 60, mem_empty, sample_db) =
    (st, 200, ar, None) \<and> ar_Status ar = ''held'' \<and> ar_SeatID ar = 1"
proof -
  obtain r ms where h: "Hold mem_redis sample_service ok_hold 0 1 ''ada'' mem_empty = (r, Inr (OutcomeHeld, ms))"
    using sample_hold by blast
  have ms: "ms = unix_milli (time_add 0 (sv_holdTTL sample_service))"
    by (rule mem.Hold_wonD(6) [OF h])
  have "sint (120 * second) = 120000000000" by (simp add: second_def)
  then have "int_range ms"
    by (simp add: ms unix_milli_def time_add_def sample_service_def int_range_def)
  moreover obtain l' where "allow tb_api 0 (''sess:'' @ ''ada'') (New 60) = (l', True)"
    using first_request_allowed by blast
  moreover have "validSeats sample_server 1" "int_range 1"
    by (simp_all add: validSeats_def sample_server_def sample_db_def sample_seat_def int_range_def)
  moreover have "ce_now (sample_call mem_empty) = 0" "ce_hold (sample_call mem_empty) = ok_hold"
    "srv_Bookings sample_server = sample_service"
    by (simp_all add: sample_call_def sample_server_def)
  ultimately show ?thesis
    using hold_survives_http [of "''ada''" sample_server 1 ms tb_api "sample_call mem_empty" "New 60" l' mem_redis
        mem_empty r OutcomeHeld "\<lambda>_. []" "[]" "[]" "\<lambda>_. []" "NewHub :: json hub" "[]" sample_db] h
    by auto
qed

end
