(* ===== verification/Seat_Hook.thy ===== *)
theory Seat_Hook
  imports Seat_Client
begin

text \<open>
  \<open>frontend/lib/useSeatSocket.ts\<close>, the effect around the reducer of \<open>Seat_Client\<close>: it opens a
  websocket when the component is mounted, reconnects with growing delays when the connection is
  lost, and closes it when the component is unmounted. The handlers of the events are the steps of
  a transition system; what the browser does with a socket is the part of the WebSocket standard
  the hook relies on: a closed socket raises no further events, and \<open>close\<close> only starts to close.
\<close>

section \<open>The state of the hook\<close>

datatype ready_state = CONNECTING | OPEN | CLOSING | CLOSED

definition busy :: "ready_state \<Rightarrow> bool" where
  "busy s \<longleftrightarrow> s \<noteq> CLOSED"

text \<open>
  \<open>hk_sockets\<close> are the sockets ever made, a socket being its index; \<open>hk_timers\<close> the delays of the
  timeouts that are still pending; \<open>hk_retry\<close>, \<open>hk_closed\<close> and \<open>hk_ws\<close> the three refs.
  \<open>hk_mounts\<close> (how often the effect has run) and \<open>hk_mounted\<close> belong to React.
\<close>

record hook =
  hk_view :: socket_state
  hk_connected :: bool
  hk_ws :: "nat option"
  hk_retry :: nat
  hk_closed :: bool
  hk_sockets :: "ready_state list"
  hk_timers :: "nat list"
  hk_mounted :: bool
  hk_mounts :: nat

definition initial_hook :: hook where
  "initial_hook = \<lparr>hk_view = initial_socket, hk_connected = False, hk_ws = None, hk_retry = 0, hk_closed = False,
     hk_sockets = [], hk_timers = [], hk_mounted = False, hk_mounts = 0\<rparr>"

section \<open>The handlers\<close>

text \<open>\<open>ws.close()\<close>.\<close>

definition close_socket :: "nat \<Rightarrow> hook \<Rightarrow> hook" where
  "close_socket k h = (if hk_sockets h ! k = CONNECTING \<or> hk_sockets h ! k = OPEN
     then h\<lparr>hk_sockets := (hk_sockets h)[k := CLOSING]\<rparr> else h)"

definition connect_hook :: "hook \<Rightarrow> hook" where
  "connect_hook h = (if hk_closed h then h
     else h\<lparr>hk_ws := Some (length (hk_sockets h)), hk_sockets := hk_sockets h @ [CONNECTING]\<rparr>)"

definition on_open :: "hook \<Rightarrow> hook" where
  "on_open h = h\<lparr>hk_retry := 0, hk_connected := True\<rparr>"

text \<open>A frame is \<open>None\<close> where it is not JSON.\<close>

definition on_message :: "json option \<Rightarrow> hook \<Rightarrow> hook" where
  "on_message frame h = (case frame of None \<Rightarrow> h | Some msg \<Rightarrow> h\<lparr>hk_view := onmessage msg (hk_view h)\<rparr>)"

definition on_close :: "hook \<Rightarrow> hook" where
  "on_close h = (let h = h\<lparr>hk_connected := False\<rparr> in
     if hk_closed h then h
     else h\<lparr>hk_timers := hk_timers h @ [reconnect_delay (hk_retry h)], hk_retry := hk_retry h + 1\<rparr>)"

definition run_effect :: "hook \<Rightarrow> hook" where
  "run_effect h = connect_hook (h\<lparr>hk_closed := False\<rparr>)"

definition clean_up :: "hook \<Rightarrow> hook" where
  "clean_up h = (let h = h\<lparr>hk_closed := True\<rparr> in case hk_ws h of None \<Rightarrow> h | Some k \<Rightarrow> close_socket k h)"

text \<open>The \<open>i\<close>-th pending timeout fires.\<close>

definition fire :: "nat \<Rightarrow> hook \<Rightarrow> hook" where
  "fire i h = connect_hook (h\<lparr>hk_timers := take i (hk_timers h) @ drop (Suc i) (hk_timers h)\<rparr>)"

inductive hook_step :: "hook \<Rightarrow> hook \<Rightarrow> bool" where
  mount: "\<not> hk_mounted h \<Longrightarrow> hook_step h ((run_effect h)\<lparr>hk_mounted := True, hk_mounts := hk_mounts h + 1\<rparr>)"
| unmount: "hk_mounted h \<Longrightarrow> hook_step h ((clean_up h)\<lparr>hk_mounted := False\<rparr>)"
| opened: "k < length (hk_sockets h) \<Longrightarrow> hk_sockets h ! k = CONNECTING \<Longrightarrow>
    hook_step h (on_open (h\<lparr>hk_sockets := (hk_sockets h)[k := OPEN]\<rparr>))"
| message: "k < length (hk_sockets h) \<Longrightarrow> hk_sockets h ! k = OPEN \<Longrightarrow> hook_step h (on_message frame h)"
| error: "k < length (hk_sockets h) \<Longrightarrow> busy (hk_sockets h ! k) \<Longrightarrow> hook_step h (close_socket k h)"
| closed: "k < length (hk_sockets h) \<Longrightarrow> busy (hk_sockets h ! k) \<Longrightarrow>
    hook_step h (on_close (h\<lparr>hk_sockets := (hk_sockets h)[k := CLOSED]\<rparr>))"
| timeout: "i < length (hk_timers h) \<Longrightarrow> hook_step h (fire i h)"

inductive hook_reachable :: "hook \<Rightarrow> bool" where
  start: "hook_reachable initial_hook"
| step: "hook_reachable h \<Longrightarrow> hook_step h h' \<Longrightarrow> hook_reachable h'"

section \<open>Mounted once\<close>

lemma busy_simps [simp]: "busy CONNECTING" "busy OPEN" "busy CLOSING" "\<not> busy CLOSED"
  by (simp_all add: busy_def)

lemma reconnect_delay_bounds: "1000 \<le> reconnect_delay n \<and> reconnect_delay n \<le> 8000"
proof -
  have "(1::nat) \<le> 2 ^ n" by simp
  then show ?thesis unfolding reconnect_delay_def by linarith
qed

text \<open>The sockets that are not closed, and the timeouts that will make one.\<close>

definition attempts :: "hook \<Rightarrow> nat" where
  "attempts h = length (filter busy (hk_sockets h)) + length (hk_timers h)"

text \<open>
  While the component has been mounted once: every socket but the newest is closed, and either the
  newest is in use or a timeout will replace it, never both.
\<close>

definition single :: "ready_state list \<Rightarrow> ready_state \<Rightarrow> hook \<Rightarrow> bool" where
  "single old s h \<longleftrightarrow> hk_sockets h = old @ [s] \<and> filter busy old = [] \<and> hk_ws h = Some (length old) \<and>
     (busy s \<longrightarrow> hk_timers h = []) \<and> length (hk_timers h) \<le> 1 \<and>
     (hk_mounted h \<longrightarrow> busy s \<or> hk_timers h \<noteq> []) \<and> (hk_mounted h \<longleftrightarrow> \<not> hk_closed h) \<and>
     (\<not> hk_mounted h \<longrightarrow> s = CLOSING \<or> s = CLOSED) \<and> (hk_connected h \<longrightarrow> s = OPEN \<or> s = CLOSING)"

definition hook_inv :: "hook \<Rightarrow> bool" where
  "hook_inv h \<longleftrightarrow> list_all (\<lambda>d. 1000 \<le> d \<and> d \<le> 8000) (hk_timers h) \<and>
     (hk_mounts h = 0 \<longrightarrow> h = initial_hook) \<and> (hk_mounts h = 1 \<longrightarrow> (\<exists>old s. single old s h))"

text \<open>The only socket a handler can still be called for is the newest.\<close>

lemma single_busy:
  assumes "single old s h" and "k < length (hk_sockets h)" and "busy (hk_sockets h ! k)"
  shows "k = length old" "busy s"
proof -
  have "\<not> busy (old ! k)" if "k < length old"
    using assms(1) that nth_mem [of k old] by (auto simp: single_def filter_empty_conv)
  with assms show "k = length old" "busy s"
    by (auto simp: single_def nth_append split: if_splits)
qed

lemmas handler_defs = close_socket_def connect_hook_def on_open_def on_message_def on_close_def run_effect_def
  clean_up_def fire_def Let_def

lemma single_step:
  assumes "hook_step h h'" and "single old s h" and "hk_mounts h' = hk_mounts h"
  shows "\<exists>old s. single old s h'"
  using assms(1)
proof cases
  case unmount
  with assms(2) show ?thesis
    by (cases s; intro exI [of _ old] exI [of _ "if s = CLOSED then CLOSED else CLOSING"])
      (auto simp: single_def handler_defs)
next
  case (opened k)
  then have "k = length old" "s = CONNECTING" using single_busy [OF assms(2), of k] assms(2) by (auto simp: single_def)
  with opened assms(2) show ?thesis
    by (intro exI [of _ old] exI [of _ OPEN]) (auto simp: single_def handler_defs)
next
  case (message k frame)
  with assms(2) show ?thesis
    by (intro exI [of _ old] exI [of _ s]) (auto simp: single_def handler_defs split: option.splits)
next
  case (error k)
  note k = single_busy [OF assms(2) error(2,3)]
  with error assms(2) show ?thesis
    by (cases s; intro exI [of _ old] exI [of _ CLOSING]) (auto simp: single_def handler_defs)
next
  case (closed k)
  note k = single_busy [OF assms(2) closed(2,3)]
  with closed assms(2) show ?thesis
    by (intro exI [of _ old] exI [of _ CLOSED]) (auto simp: single_def handler_defs)
next
  case (timeout i)
  have t: "hk_timers h' = []" using timeout assms(2) by (cases "hk_timers h") (auto simp: single_def handler_defs)
  show ?thesis
  proof (cases "hk_mounted h")
    case True
    with timeout assms(2) t show ?thesis
      by (intro exI [of _ "old @ [s]"] exI [of _ CONNECTING]) (auto simp: single_def handler_defs)
  next
    case False
    with timeout assms(2) t show ?thesis
      by (intro exI [of _ old] exI [of _ s]) (auto simp: single_def handler_defs)
  qed
qed (use assms(3) in simp)

lemma initial_hook_simps [simp]: "hk_sockets initial_hook = []" "hk_timers initial_hook = []" "\<not> hk_mounted initial_hook"
  "hk_mounts initial_hook = 0" "\<not> hk_connected initial_hook"
  by (simp_all add: initial_hook_def)

lemma handlers_keep [simp]:
  "hk_mounts (close_socket k h) = hk_mounts h" "hk_mounts (connect_hook h) = hk_mounts h" "hk_mounts (on_open h) = hk_mounts h"
  "hk_mounts (on_message f h) = hk_mounts h" "hk_mounts (on_close h) = hk_mounts h" "hk_mounts (clean_up h) = hk_mounts h"
  "hk_mounts (fire i h) = hk_mounts h" "hk_mounts (run_effect h) = hk_mounts h"
  "hk_timers (close_socket k h) = hk_timers h" "hk_timers (connect_hook h) = hk_timers h" "hk_timers (on_open h) = hk_timers h"
  "hk_timers (on_message f h) = hk_timers h" "hk_timers (clean_up h) = hk_timers h" "hk_timers (run_effect h) = hk_timers h"
  by (simp_all add: handler_defs split: option.split)

lemma hook_step_delays:
  "hook_step h h' \<Longrightarrow> list_all (\<lambda>d. 1000 \<le> d \<and> d \<le> 8000) (hk_timers h) \<Longrightarrow>
   list_all (\<lambda>d. 1000 \<le> d \<and> d \<le> 8000) (hk_timers h')"
proof (induction rule: hook_step.induct)
  case (closed k h)
  then show ?case using reconnect_delay_bounds [of "hk_retry h"] by (simp add: on_close_def Let_def)
next
  case (timeout i h)
  then show ?case by (auto simp: fire_def list_all_iff dest: in_set_takeD in_set_dropD)
qed simp_all

lemma hook_step_mounts: "hook_step h h' \<Longrightarrow> hk_mounts h' = hk_mounts h \<or>
    \<not> hk_mounted h \<and> h' = (run_effect h)\<lparr>hk_mounted := True, hk_mounts := hk_mounts h + 1\<rparr>"
  by (induction rule: hook_step.induct) simp_all

text \<open>Until it is mounted again, an unmounted page makes no socket.\<close>

lemma unmounted_stays:
  assumes "hook_step\<^sup>*\<^sup>* h h'" and "\<not> hk_mounted h" "hk_closed h" and "hk_mounts h' = hk_mounts h"
  shows "length (hk_sockets h') = length (hk_sockets h) \<and> \<not> hk_mounted h' \<and> hk_closed h'"
  using assms
proof (induction rule: rtranclp_induct)
  case (step x y)
  have le: "hk_mounts h \<le> hk_mounts x" using step.hyps(1) 
    by (induction rule: rtranclp_induct) (auto dest: hook_step_mounts)
  then have m: "hk_mounts x = hk_mounts h" "hk_mounts y = hk_mounts x"
    using hook_step_mounts [OF step.hyps(2)] step.prems(3) by auto
  with step have x: "length (hk_sockets x) = length (hk_sockets h)" "\<not> hk_mounted x" "hk_closed x" by simp_all
  from step.hyps(2) m(2) x show ?case
    by cases (auto simp: handler_defs split: option.splits)
qed simp

lemma initial_only_mounts: "\<not> (hook_step initial_hook h' \<and> hk_mounts h' = 0)"
  by (auto elim!: hook_step.cases)

lemma hook_step_inv:
  assumes step: "hook_step h h'" and inv: "hook_inv h"
  shows "hook_inv h'"
proof -
  have "list_all (\<lambda>d. 1000 \<le> d \<and> d \<le> 8000) (hk_timers h')"
    using hook_step_delays [OF step] inv by (simp add: hook_inv_def)
  moreover have "hk_mounts h' \<noteq> 0"
    using hook_step_mounts [OF step] initial_only_mounts [of h'] step inv by (auto simp: hook_inv_def)
  moreover have "\<exists>old s. single old s h'" if m: "hk_mounts h' = 1"
  proof (cases "hk_mounts h' = hk_mounts h")
    case True
    with m inv single_step [OF step _ True] show ?thesis by (auto simp: hook_inv_def)
  next
    case False
    with hook_step_mounts [OF step] m inv have "h = initial_hook"
      "h' = (run_effect h)\<lparr>hk_mounted := True, hk_mounts := 1\<rparr>" by (auto simp: hook_inv_def)
    then show ?thesis
      by (intro exI [of _ "[]"] exI [of _ CONNECTING]) (simp add: single_def handler_defs initial_hook_def)
  qed
  ultimately show ?thesis by (simp add: hook_inv_def)
qed

lemma hook_reachable_inv: "hook_reachable h \<Longrightarrow> hook_inv h"
proof (induction rule: hook_reachable.induct)
  case start
  show ?case by (simp add: hook_inv_def)
qed (blast intro: hook_step_inv)

section \<open>Properties\<close>

text \<open>C28: a page that is mounted once never has two connections and never gives up: it has exactly one
  socket in use or one pending reconnect, whose delay is between one and eight seconds; it shows
  itself as connected only while that socket is open. Once it is unmounted no socket is open or opening; one
  may still be closing, or one timeout be pending, which the hook does not cancel, but whatever happens
  short of another mount, a timeout that fires included, no new socket is made.\<close>

theorem one_connection_per_page:
  assumes "hook_reachable h" and "hk_mounts h = 1"
  shows "(if hk_mounted h then attempts h = 1 else attempts h \<le> 1 \<and> set (hk_sockets h) \<subseteq> {CLOSING, CLOSED}) \<and>
    list_all (\<lambda>d. 1000 \<le> d \<and> d \<le> 8000) (hk_timers h) \<and>
    (if hk_connected h then last (hk_sockets h) \<in> {OPEN, CLOSING} else True) \<and>
    (\<forall>h'. \<not> hk_mounted h \<and> hook_step\<^sup>*\<^sup>* h h' \<and> hk_mounts h' = 1 \<longrightarrow> length (hk_sockets h') = length (hk_sockets h))"
proof -
  obtain old s where s: "single old s h" and d: "list_all (\<lambda>d. 1000 \<le> d \<and> d \<le> 8000) (hk_timers h)"
    using hook_reachable_inv [OF assms(1)] assms(2) by (auto simp: hook_inv_def)
  have "set old \<subseteq> {CLOSED}" using s by (auto simp: single_def filter_empty_conv busy_def)
  moreover have "hk_timers h = [] \<or> length (hk_timers h) = 1" using s by (cases "hk_timers h") (auto simp: single_def)
  moreover have "length (hk_sockets h') = length (hk_sockets h)" if "\<not> hk_mounted h" "hook_step\<^sup>*\<^sup>* h h'" "hk_mounts h' = 1" for h'
    using unmounted_stays [OF that(2)] that s assms(2) by (auto simp: single_def)
  ultimately show ?thesis using s d by (auto simp: single_def attempts_def)
qed

text \<open>Mounted, opened, lost, and connecting again.\<close>

definition reconnecting :: hook where
  "reconnecting = fire 0 (on_close ((on_open (run_effect initial_hook))\<lparr>hk_sockets := [CLOSED], hk_mounted := True, hk_mounts := 1\<rparr>))"

lemma reconnecting_reachable: "hook_reachable reconnecting"
proof -
  let ?h1 = "(run_effect initial_hook)\<lparr>hk_mounted := True, hk_mounts := 1\<rparr>"
  let ?h2 = "on_open (?h1\<lparr>hk_sockets := [OPEN]\<rparr>)"
  let ?h3 = "on_close (?h2\<lparr>hk_sockets := [CLOSED]\<rparr>)"
  have "hook_step initial_hook ?h1" using hook_step.mount [of initial_hook] by simp
  moreover have "hook_step ?h1 ?h2"
    using hook_step.opened [of 0 ?h1] by (simp add: handler_defs initial_hook_def)
  moreover have "hook_step ?h2 ?h3"
    using hook_step.closed [of 0 ?h2] by (simp add: handler_defs initial_hook_def)
  moreover have "hook_step ?h3 (fire 0 ?h3)"
    by (rule hook_step.timeout) (simp add: handler_defs initial_hook_def)
  moreover have "fire 0 ?h3 = reconnecting"
    by (simp add: reconnecting_def handler_defs initial_hook_def)
  ultimately show ?thesis by (metis hook_reachable.simps)
qed

theorem one_connection_per_page_witness: "attempts reconnecting = 1 \<and> hk_sockets reconnecting = [CLOSED, CONNECTING]"
proof -
  have "hk_mounts reconnecting = 1" "hk_mounted reconnecting" "hk_sockets reconnecting = [CLOSED, CONNECTING]"
    by (simp_all add: reconnecting_def handler_defs initial_hook_def)
  with one_connection_per_page [OF reconnecting_reachable] show ?thesis by simp
qed

text \<open>C39: the refs outlive an unmount, and the old socket raises its close event only after the next mount
  has reset \<open>closedRef\<close> (in development React mounts every component twice): the hook
  takes the close for a lost connection, shows the page as disconnected although its socket is
  open, and opens a second one.\<close>

theorem remount_doubles_connection:
  "\<exists>h h'. hook_reachable h \<and> OPEN \<in> set (hk_sockets h) \<and> \<not> hk_connected h \<and> hk_mounted h \<and>
    hook_step\<^sup>*\<^sup>* h h' \<and> length (filter (\<lambda>s. s = OPEN) (hk_sockets h')) = 2"
proof -
  let ?h1 = "(run_effect initial_hook)\<lparr>hk_mounted := True, hk_mounts := 1\<rparr>"
  let ?h2 = "(clean_up ?h1)\<lparr>hk_mounted := False\<rparr>"
  let ?h3 = "(run_effect ?h2)\<lparr>hk_mounted := True, hk_mounts := 2\<rparr>"
  let ?h4 = "on_open (?h3\<lparr>hk_sockets := [CLOSING, OPEN]\<rparr>)"
  let ?h5 = "on_close (?h4\<lparr>hk_sockets := [CLOSED, OPEN]\<rparr>)"
  let ?h6 = "fire 0 ?h5"
  let ?h7 = "on_open (?h6\<lparr>hk_sockets := [CLOSED, OPEN, OPEN]\<rparr>)"
  note defs = handler_defs initial_hook_def
  have s1: "hook_step initial_hook ?h1" using hook_step.mount [of initial_hook] by simp
  have s2: "hook_step ?h1 ?h2" by (rule hook_step.unmount) simp
  have s3: "hook_step ?h2 ?h3" using hook_step.mount [of ?h2] by (simp add: numeral_2_eq_2)
  have s4: "hook_step ?h3 ?h4" using hook_step.opened [of 1 ?h3] by (simp add: defs)
  have s5: "hook_step ?h4 ?h5" using hook_step.closed [of 0 ?h4] by (simp add: defs)
  have s6: "hook_step ?h5 ?h6" by (rule hook_step.timeout) (simp add: defs)
  have s7: "hook_step ?h6 ?h7" using hook_step.opened [of 2 ?h6] by (simp add: defs)
  have "hook_reachable ?h5"
    by (intro hook_reachable.step [OF _ s5] hook_reachable.step [OF _ s4] hook_reachable.step [OF _ s3]
        hook_reachable.step [OF _ s2] hook_reachable.step [OF _ s1] hook_reachable.start)
  moreover have "hook_step\<^sup>*\<^sup>* ?h5 ?h7" by (rule converse_rtranclp_into_rtranclp [of hook_step, OF s6], rule r_into_rtranclp [of hook_step, OF s7])
  moreover have "hk_sockets ?h5 = [CLOSED, OPEN]" "\<not> hk_connected ?h5" "hk_mounted ?h5" by (simp_all add: defs)
  moreover have "hk_sockets ?h7 = [CLOSED, OPEN, OPEN]" by (simp add: on_open_def)
  ultimately show ?thesis
    by (intro exI [of _ ?h5] exI [of _ ?h7]) simp
qed

end
