(* ===== verification/Cluster.thy ===== *)
theory Cluster
  imports Seat_Client Harness Ws_Client "HOL-Library.Sublist"
begin

text \<open>
  Any number of backend instances on one Redis: what one of them publishes is relayed by every
  one to its own websocket clients (\<open>backend/main.go\<close>, the two subscriptions of
  \<open>backend/locking/locking.go\<close>, \<open>backend/ws\<close>). An instance stands at a position of the stream of
  published messages and of the stream of expired keys; each of its two loops takes the next message
  when its broadcast of the last one has returned.
\<close>

section \<open>The cluster\<close>

text \<open>
  One backend instance: its service, how many published messages and expired keys its two
  subscriptions have consumed, and its hub and clients. \<open>bp_joined\<close> and \<open>bp_joined_expiries\<close>, where
  the streams stood when it subscribed, and \<open>bp_missed\<close>, whether its connection to Redis has lost
  a message, only record the history.
\<close>

record backend_proc =
  bp_service :: service
  bp_events :: nat
  bp_expiries :: nat
  bp_ws :: ws_world
  bp_joined :: nat
  bp_joined_expiries :: nat
  bp_missed :: bool

record 'r cluster =
  cl_redis :: 'r
  cl_db :: db
  cl_expired :: "string list"
  cl_backends :: "backend_proc list"

text \<open>The messages published on the channel of the seat events, oldest first.\<close>

definition published :: "'r redis_api \<Rightarrow> 'r \<Rightarrow> json list" where
  "published R r = map snd (filter (\<lambda>(ch, m). ch = eventChannel) (rd_log R r))"

text \<open>The two handlers \<open>main\<close> passes to the subscriptions, on one message.\<close>

definition handle_event :: "nat list \<Rightarrow> json \<Rightarrow> ws_world \<Rightarrow> ws_world" where
  "handle_event order m w = (case unmarshal_event m of
     None \<Rightarrow> w | Some ev \<Rightarrow> broadcast_begin Events_loop (marshal_event ev) order w)"

definition handle_expiry :: "nat list \<Rightarrow> string \<Rightarrow> string \<Rightarrow> ws_world \<Rightarrow> ws_world" where
  "handle_expiry order instanceID key w = (case seatIDFromKey key holdPrefix of
     (seatID, ok) \<Rightarrow>
       if ok then broadcast_begin Expiry_loop (marshal_event (freed_event instanceID seatID)) order w else w)"

definition take_event :: "'r redis_api \<Rightarrow> 'r \<Rightarrow> nat list \<Rightarrow> backend_proc \<Rightarrow> backend_proc" where
  "take_event R r order p =
     p\<lparr>bp_ws := handle_event order (published R r ! bp_events p) (bp_ws p), bp_events := Suc (bp_events p)\<rparr>"

definition take_expiry :: "string list \<Rightarrow> nat list \<Rightarrow> backend_proc \<Rightarrow> backend_proc" where
  "take_expiry ks order p =
     p\<lparr>bp_ws := handle_expiry order (sv_instanceID (bp_service p)) (ks ! bp_expiries p) (bp_ws p),
       bp_expiries := Suc (bp_expiries p)\<rparr>"

text \<open>A loop is ready for its next message when it is not in \<open>Broadcast\<close>; \<open>order\<close> is the order in which Go
  will iterate over the map of clients.\<close>

definition ready :: "caster \<Rightarrow> nat list \<Rightarrow> backend_proc \<Rightarrow> bool" where
  "ready g order p \<longleftrightarrow> ww_casts (bp_ws p) g = Idle \<and> mset order = mset (hb_clients (ww_hub (bp_ws p)))"

definition new_backend :: "'r redis_api \<Rightarrow> service \<Rightarrow> 'r cluster \<Rightarrow> backend_proc" where
  "new_backend R sv w = \<lparr>bp_service = sv, bp_events = length (published R (cl_redis w)),
     bp_expiries = length (cl_expired w), bp_ws = ws_start, bp_joined = length (published R (cl_redis w)),
     bp_joined_expiries = length (cl_expired w), bp_missed = False\<rparr>"

definition set_backend :: "nat \<Rightarrow> backend_proc \<Rightarrow> 'r cluster \<Rightarrow> 'r cluster" where
  "set_backend i p w = w\<lparr>cl_backends := (cl_backends w)[i := p]\<rparr>"

text \<open>
  The steps. What requests, expiries and other programs do to Redis and Postgres is left open in
  \<open>environment\<close>: all that is asked is that a message once published stays published. A lost
  connection to Redis skips messages.
\<close>

inductive cluster_step :: "'r redis_api \<Rightarrow> string \<Rightarrow> 'r cluster \<Rightarrow> 'r cluster \<Rightarrow> bool" for R allowedOrigin where
  environment: "rd_log R r' = rd_log R (cl_redis w) @ new \<Longrightarrow>
    cluster_step R allowedOrigin w (w\<lparr>cl_redis := r', cl_db := d', cl_expired := cl_expired w @ ks\<rparr>)"
| start_backend: "cluster_step R allowedOrigin w (w\<lparr>cl_backends := cl_backends w @ [new_backend R sv w]\<rparr>)"
| event: "i < length (cl_backends w) \<Longrightarrow> p = cl_backends w ! i \<Longrightarrow> bp_events p < length (published R (cl_redis w)) \<Longrightarrow>
    ready Events_loop order p \<Longrightarrow>
    cluster_step R allowedOrigin w (set_backend i (take_event R (cl_redis w) order p) w)"
| expiry: "i < length (cl_backends w) \<Longrightarrow> p = cl_backends w ! i \<Longrightarrow> bp_expiries p < length (cl_expired w) \<Longrightarrow>
    ready Expiry_loop order p \<Longrightarrow>
    cluster_step R allowedOrigin w (set_backend i (take_expiry (cl_expired w) order p) w)"
| event_lost: "i < length (cl_backends w) \<Longrightarrow> p = cl_backends w ! i \<Longrightarrow> bp_events p < length (published R (cl_redis w)) \<Longrightarrow>
    cluster_step R allowedOrigin w (set_backend i (p\<lparr>bp_events := Suc (bp_events p), bp_missed := True\<rparr>) w)"
| expiry_lost: "i < length (cl_backends w) \<Longrightarrow> p = cl_backends w ! i \<Longrightarrow> bp_expiries p < length (cl_expired w) \<Longrightarrow>
    cluster_step R allowedOrigin w (set_backend i (p\<lparr>bp_expiries := Suc (bp_expiries p), bp_missed := True\<rparr>) w)"
| goroutine: "i < length (cl_backends w) \<Longrightarrow> p = cl_backends w ! i \<Longrightarrow> inner_step allowedOrigin (bp_ws p) ws' \<Longrightarrow>
    cluster_step R allowedOrigin w (set_backend i (p\<lparr>bp_ws := ws'\<rparr>) w)"

inductive cluster_reachable :: "'r redis_api \<Rightarrow> string \<Rightarrow> 'r cluster \<Rightarrow> bool" for R allowedOrigin where
  start: "cl_backends w = [] \<Longrightarrow> cluster_reachable R allowedOrigin w"
| step: "cluster_reachable R allowedOrigin w \<Longrightarrow> cluster_step R allowedOrigin w w' \<Longrightarrow> cluster_reachable R allowedOrigin w'"

section \<open>What an instance has relayed\<close>

definition rebroadcast :: "json list \<Rightarrow> json list" where
  "rebroadcast ms = map marshal_event (List.map_filter unmarshal_event ms)"

definition frees :: "string \<Rightarrow> string list \<Rightarrow> json list" where
  "frees inst ks = map (marshal_event \<circ> freed_event inst) (freed_by ks)"

text \<open>The part of a stream between the positions an instance started from and has reached.\<close>

definition stretch :: "nat \<Rightarrow> nat \<Rightarrow> 'a list \<Rightarrow> 'a list" where
  "stretch a b xs = drop a (take b xs)"

lemma stretch_append [simp]: "b \<le> length xs \<Longrightarrow> stretch a b (xs @ ys) = stretch a b xs"
  by (simp add: stretch_def)

lemma stretch_Suc: "a \<le> b \<Longrightarrow> b < length xs \<Longrightarrow> stretch a (Suc b) xs = stretch a b xs @ [xs ! b]"
  by (simp add: stretch_def take_Suc_conv_app_nth)

lemma stretch_split: "b \<le> b' \<Longrightarrow> b' \<le> length xs \<Longrightarrow> a \<le> b \<Longrightarrow>
    stretch a b' xs = stretch a b xs @ stretch b b' xs"
  using arg_cong [OF append_take_drop_id [of b "take b' xs"], of "drop a"]
  by (simp add: stretch_def min_def)

lemma stretch_same [simp]: "stretch a a xs = []"
  by (simp add: stretch_def)

lemma rebroadcast_simps [simp]:
  "rebroadcast [] = []" "rebroadcast (ms @ ms') = rebroadcast ms @ rebroadcast ms'"
  "rebroadcast [m] = (case unmarshal_event m of None \<Rightarrow> [] | Some ev \<Rightarrow> [marshal_event ev])"
  by (auto simp: rebroadcast_def List.map_filter_def split: option.splits)

lemma frees_simps [simp]:
  "frees inst [] = []" "frees inst (ks @ ks') = frees inst ks @ frees inst ks'"
  "frees inst [k] = (case seatIDFromKey k holdPrefix of (s, ok) \<Rightarrow> if ok then [marshal_event (freed_event inst s)] else [])"
  by (auto simp: frees_def freed_by_def split: prod.splits)

text \<open>A log that follows a stream, with gaps only where messages were lost.\<close>

definition relayed :: "json list \<Rightarrow> bool \<Rightarrow> json list \<Rightarrow> bool" where
  "relayed lg gaps es \<longleftrightarrow> subseq lg es \<and> (\<not> gaps \<longrightarrow> lg = es)"

lemma relayed_append:
  assumes "relayed lg gaps es"
  shows "relayed (lg @ xs) gaps (es @ xs)" "relayed lg True (es @ xs)"
proof -
  have s: "subseq lg es" "\<not> gaps \<longrightarrow> lg = es" using assms by (simp_all add: relayed_def)
  then show "relayed (lg @ xs) gaps (es @ xs)" by (simp add: relayed_def)
  show "relayed lg True (es @ xs)" using list_emb_append_mono [OF s(1), of "[]" xs] by (simp add: relayed_def)
qed

lemma relayed_gaps: "relayed lg gaps es \<Longrightarrow> relayed lg True es"
  by (simp add: relayed_def)

text \<open>What has reached an instance so far, in the form in which it relays it.\<close>

definition events_of :: "'r redis_api \<Rightarrow> 'r \<Rightarrow> backend_proc \<Rightarrow> json list" where
  "events_of R r p = rebroadcast (stretch (bp_joined p) (bp_events p) (published R r))"

definition expiries_of :: "string list \<Rightarrow> backend_proc \<Rightarrow> json list" where
  "expiries_of ks p = frees (sv_instanceID (bp_service p)) (stretch (bp_joined_expiries p) (bp_expiries p) ks)"

definition proc_ok :: "'r redis_api \<Rightarrow> string \<Rightarrow> 'r \<Rightarrow> string list \<Rightarrow> backend_proc \<Rightarrow> bool" where
  "proc_ok R allowedOrigin r ks p \<longleftrightarrow> ws_reachable allowedOrigin (bp_ws p) \<and>
     bp_joined p \<le> bp_events p \<and> bp_events p \<le> length (published R r) \<and>
     bp_joined_expiries p \<le> bp_expiries p \<and> bp_expiries p \<le> length ks \<and>
     relayed (ww_log (bp_ws p) Events_loop) (bp_missed p) (events_of R r p) \<and>
     relayed (ww_log (bp_ws p) Expiry_loop) (bp_missed p) (expiries_of ks p)"

definition cluster_inv :: "'r redis_api \<Rightarrow> string \<Rightarrow> 'r cluster \<Rightarrow> bool" where
  "cluster_inv R allowedOrigin w \<longleftrightarrow>
     (\<forall>p \<in> set (cl_backends w). proc_ok R allowedOrigin (cl_redis w) (cl_expired w) p)"

lemma published_append:
  "rd_log R r' = rd_log R r @ new \<Longrightarrow> published R r' = published R r @ map snd (filter (\<lambda>(ch, m). ch = eventChannel) new)"
  by (simp add: published_def)

lemma handle_event_ws:
  assumes "ws_reachable allowed (bp_ws p)" and "ready Events_loop order p"
  shows "ws_reachable allowed (handle_event order m (bp_ws p))"
    "ww_log (handle_event order m (bp_ws p)) =
      (ww_log (bp_ws p))(Events_loop := ww_log (bp_ws p) Events_loop @ rebroadcast [m])"
  using assms begin_live(5) [OF ws_reachable_inv [OF assms(1)]]
  by (auto simp: handle_event_def ready_def split: option.split intro: ws_reachable.step ws_step.begin_cast)

lemma handle_expiry_ws:
  assumes "ws_reachable allowed (bp_ws p)" and "ready Expiry_loop order p"
  shows "ws_reachable allowed (handle_expiry order inst k (bp_ws p))"
    "ww_log (handle_expiry order inst k (bp_ws p)) =
      (ww_log (bp_ws p))(Expiry_loop := ww_log (bp_ws p) Expiry_loop @ frees inst [k])"
  using assms begin_live(5) [OF ws_reachable_inv [OF assms(1)]]
  by (auto simp: handle_expiry_def ready_def split: prod.split intro: ws_reachable.step ws_step.begin_cast)

lemma proc_ok_environment:
  "proc_ok R allowed r ks p \<Longrightarrow> rd_log R r' = rd_log R r @ new \<Longrightarrow> proc_ok R allowed r' (ks @ ks') p"
  by (auto simp: proc_ok_def published_append events_of_def expiries_of_def)

lemma proc_ok_event:
  assumes ok: "proc_ok R allowed r ks p" and more: "bp_events p < length (published R r)"
  shows "ready Events_loop order p \<Longrightarrow> proc_ok R allowed r ks (take_event R r order p)"
    "proc_ok R allowed r ks (p\<lparr>bp_events := Suc (bp_events p), bp_missed := True\<rparr>)"
proof -
  let ?x = "rebroadcast [published R r ! bp_events p]"
  have le: "bp_joined p \<le> bp_events p" and ws: "ws_reachable allowed (bp_ws p)"
    and lg: "relayed (ww_log (bp_ws p) Events_loop) (bp_missed p) (events_of R r p)"
      "relayed (ww_log (bp_ws p) Expiry_loop) (bp_missed p) (expiries_of ks p)"
    using ok by (simp_all add: proc_ok_def)
  have ev: "events_of R r q = events_of R r p @ ?x"
    if "bp_joined q = bp_joined p" "bp_events q = Suc (bp_events p)" for q
    unfolding events_of_def that stretch_Suc [OF le more] rebroadcast_simps(2) ..
  have ex: "expiries_of ks q = expiries_of ks p"
    if "bp_service q = bp_service p" "bp_joined_expiries q = bp_joined_expiries p" "bp_expiries q = bp_expiries p" for q
    by (simp add: expiries_of_def that)
  show "proc_ok R allowed r ks (take_event R r order p)" if ready: "ready Events_loop order p"
    using ok more relayed_append(1) [OF lg(1), of ?x] handle_event_ws [OF ws ready, of "published R r ! bp_events p"]
      ev [of "take_event R r order p"] ex [of "take_event R r order p"]
    by (simp add: proc_ok_def take_event_def del: rebroadcast_simps(3))
  show "proc_ok R allowed r ks (p\<lparr>bp_events := Suc (bp_events p), bp_missed := True\<rparr>)"
    using ok more relayed_append(2) [OF lg(1), of ?x] relayed_gaps [OF lg(2)]
      ev [of "p\<lparr>bp_events := Suc (bp_events p), bp_missed := True\<rparr>"]
      ex [of "p\<lparr>bp_events := Suc (bp_events p), bp_missed := True\<rparr>"]
    by (simp add: proc_ok_def del: rebroadcast_simps(3))
qed

lemma proc_ok_expiry:
  assumes ok: "proc_ok R allowed r ks p" and more: "bp_expiries p < length ks"
  shows "ready Expiry_loop order p \<Longrightarrow> proc_ok R allowed r ks (take_expiry ks order p)"
    "proc_ok R allowed r ks (p\<lparr>bp_expiries := Suc (bp_expiries p), bp_missed := True\<rparr>)"
proof -
  let ?x = "frees (sv_instanceID (bp_service p)) [ks ! bp_expiries p]"
  have le: "bp_joined_expiries p \<le> bp_expiries p" and ws: "ws_reachable allowed (bp_ws p)"
    and lg: "relayed (ww_log (bp_ws p) Events_loop) (bp_missed p) (events_of R r p)"
      "relayed (ww_log (bp_ws p) Expiry_loop) (bp_missed p) (expiries_of ks p)"
    using ok by (simp_all add: proc_ok_def)
  have ex: "expiries_of ks q = expiries_of ks p @ ?x" if "bp_service q = bp_service p"
    "bp_joined_expiries q = bp_joined_expiries p" "bp_expiries q = Suc (bp_expiries p)" for q
    unfolding expiries_of_def that stretch_Suc [OF le more] frees_simps(2) ..
  have ev: "events_of R r q = events_of R r p" if "bp_joined q = bp_joined p" "bp_events q = bp_events p" for q
    by (simp add: events_of_def that)
  show "proc_ok R allowed r ks (take_expiry ks order p)" if ready: "ready Expiry_loop order p"
    using ok more relayed_append(1) [OF lg(2), of ?x]
      handle_expiry_ws [OF ws ready, of "sv_instanceID (bp_service p)" "ks ! bp_expiries p"]
      ev [of "take_expiry ks order p"] ex [of "take_expiry ks order p"]
    by (simp add: proc_ok_def take_expiry_def del: frees_simps(3))
  show "proc_ok R allowed r ks (p\<lparr>bp_expiries := Suc (bp_expiries p), bp_missed := True\<rparr>)"
    using ok more relayed_append(2) [OF lg(2), of ?x] relayed_gaps [OF lg(1)]
      ev [of "p\<lparr>bp_expiries := Suc (bp_expiries p), bp_missed := True\<rparr>"]
      ex [of "p\<lparr>bp_expiries := Suc (bp_expiries p), bp_missed := True\<rparr>"]
    by (simp add: proc_ok_def del: frees_simps(3))
qed

lemma cluster_inv_set:
  "cluster_inv R allowed w \<Longrightarrow> proc_ok R allowed (cl_redis w) (cl_expired w) p \<Longrightarrow> cluster_inv R allowed (set_backend i p w)"
  by (auto simp: cluster_inv_def set_backend_def dest: set_update_subset_insert [THEN subsetD])

lemma cluster_step_inv: "cluster_step R allowed w w' \<Longrightarrow> cluster_inv R allowed w \<Longrightarrow> cluster_inv R allowed w'"
proof (induction rule: cluster_step.induct)
  case (environment r' w new d' ks)
  then show ?case by (auto simp: cluster_inv_def intro: proc_ok_environment)
next
  case (start_backend w sv)
  have "proc_ok R allowed (cl_redis w) (cl_expired w) (new_backend R sv w)"
    by (simp add: proc_ok_def new_backend_def ws_reachable.start events_of_def expiries_of_def)
      (simp add: ws_start_def relayed_def)
  with start_backend show ?case by (simp add: cluster_inv_def)
next
  case (goroutine i w p ws')
  then have ok: "proc_ok R allowed (cl_redis w) (cl_expired w) p" by (simp add: cluster_inv_def)
  then have "ws_reachable allowed ws'" using goroutine(3)
    by (auto simp: proc_ok_def inner_step_def intro: ws_reachable.step)
  with ok goroutine(3) have "proc_ok R allowed (cl_redis w) (cl_expired w) (p\<lparr>bp_ws := ws'\<rparr>)"
    by (simp add: proc_ok_def events_of_def expiries_of_def inner_step_def)
  with goroutine show ?case by (blast intro: cluster_inv_set)
next
  case (event i w p order)
  then have "proc_ok R allowed (cl_redis w) (cl_expired w) p" by (simp add: cluster_inv_def)
  with event show ?case by (blast intro: cluster_inv_set proc_ok_event)
next
  case (expiry i w p order)
  then have "proc_ok R allowed (cl_redis w) (cl_expired w) p" by (simp add: cluster_inv_def)
  with expiry show ?case by (blast intro: cluster_inv_set proc_ok_expiry)
next
  case (event_lost i w p)
  then have "proc_ok R allowed (cl_redis w) (cl_expired w) p" by (simp add: cluster_inv_def)
  with event_lost show ?case by (blast intro: cluster_inv_set proc_ok_event)
next
  case (expiry_lost i w p)
  then have "proc_ok R allowed (cl_redis w) (cl_expired w) p" by (simp add: cluster_inv_def)
  with expiry_lost show ?case by (blast intro: cluster_inv_set proc_ok_expiry)
qed

lemma cluster_reachable_inv: "cluster_reachable R allowed w \<Longrightarrow> cluster_inv R allowed w"
proof (induction rule: cluster_reachable.induct)
  case (start w)
  then show ?case by (simp add: cluster_inv_def)
qed (blast intro: cluster_step_inv)

section \<open>What the system knows and what a browser shows\<close>

definition cluster_view :: "'r redis_api \<Rightarrow> 'r cluster \<Rightarrow> seat_id \<Rightarrow> seat_view" where
  "cluster_view R w = view R (cl_redis w, cl_db w)"

text \<open>The JSON of a queued item, and what a browser that read all written frames shows.\<close>

fun payload :: "item \<Rightarrow> json" where
  "payload (Snap j) = j"
| "payload (Delta j) = j"

lemma payloads: "map payload (map Delta ms) = ms"
  by (induction ms) simp_all

definition shown_by :: "nat \<Rightarrow> socket_state \<Rightarrow> ws_world \<Rightarrow> seat_id \<Rightarrow> seat_view" where
  "shown_by c st w = browser_view (fold onmessage (map payload (texts (pr_wire (fst (ww_peers w ! c))))) st)"

text \<open>
  The end of \<open>Serve\<close> for client \<open>c\<close> of instance \<open>i\<close>, once \<open>BuildSnapshot\<close> has returned. The client is
  registered and its pumps run by then, so the build and this step have other steps between them.
\<close>

definition serve_snapshot :: "nat \<Rightarrow> nat \<Rightarrow> (go_error, snapshot) result \<Rightarrow> 'r cluster \<Rightarrow> 'r cluster" where
  "serve_snapshot i c res w = (let p = cl_backends w ! i in
     set_backend i (p\<lparr>bp_ws := put_client c
       (Serve_snapshot (map_sum id (Snap \<circ> marshal_snapshot) res) (get_client c (bp_ws p))) (bp_ws p)\<rparr>) w)"

definition awaits_snapshot :: "nat \<Rightarrow> ws_world \<Rightarrow> bool" where
  "awaits_snapshot c w \<longleftrightarrow> c \<in> set (hb_clients (ww_hub w)) \<and> c < length (ww_peers w) \<and>
     pr_serving (fst (ww_peers w ! c)) \<and> \<not> full (hb_chans (ww_hub w) ! c)"

lemma awaits_served:
  fixes j :: json
  assumes "ws_inv w" and "awaits_snapshot c w"
  defines "w' \<equiv> put_client c (Serve_snapshot (map_sum id Snap (Inr j)) (get_client c w)) w"
  shows "c < length (ww_peers w')" "\<not> pr_serving (fst (ww_peers w' ! c))"
    "sent c w' = sent c w @ [Snap j]" "ww_log w' = ww_log w" "ww_casts w' = ww_casts w"
    "live c w' = live c w"
proof -
  have "\<not> ch_closed (hb_chans (ww_hub w) ! c)" "c < length (hb_chans (ww_hub w))" "c < length (ww_peers w)"
    "length (ch_buf (hb_chans (ww_hub w) ! c)) < sendBufferSize"
    using assms(1,2) by (auto simp: ws_inv_def wf_hub_def awaits_snapshot_def full_def)
  then show "c < length (ww_peers w')" "\<not> pr_serving (fst (ww_peers w' ! c))"
    "sent c w' = sent c w @ [Snap j]" "ww_log w' = ww_log w" "ww_casts w' = ww_casts w" "live c w' = live c w"
    by (simp_all add: w'_def) (simp_all add: put_client_def get_client_def Serve_snapshot_def try_send_def sent_def sent_to_def
        live_def found_stuck_def)
qed

lemma served_alive:
  fixes j :: json
  assumes inv: "ws_inv w" and waits: "awaits_snapshot c w" and al: "alive c w"
  defines "w' \<equiv> put_client c (Serve_snapshot (map_sum id Snap (Inr j)) (get_client c w)) w"
  shows "ws_inv w'" "alive c w'"
proof -
  show "ws_inv w'"
    using waits unfolding w'_def
    by (intro ws_step_inv [of "[]", OF ws_step.serve inv]) (simp_all add: awaits_snapshot_def)
  have "\<not> ch_closed (hb_chans (ww_hub w) ! c)" "length (ch_buf (hb_chans (ww_hub w) ! c)) < sendBufferSize"
    using inv waits by (auto simp: ws_inv_def wf_hub_def awaits_snapshot_def full_def)
  with waits al show "alive c w'"
    by (simp add: w'_def alive_def live_def found_stuck_def put_client_def get_client_def Serve_snapshot_def try_send_def awaits_snapshot_def)
qed

section \<open>The goroutines of one instance\<close>

lemma set_backend_simps [simp]:
  "cl_redis (set_backend i p w) = cl_redis w" "cl_db (set_backend i p w) = cl_db w"
  "cl_expired (set_backend i p w) = cl_expired w"
  "length (cl_backends (set_backend i p w)) = length (cl_backends w)"
  "i < length (cl_backends w) \<Longrightarrow> cl_backends (set_backend i p w) ! i = p"
  by (simp_all add: set_backend_def)

text \<open>What they do among themselves is a run of the cluster.\<close>

lemma inner_lift:
  assumes S: "\<And>w ws. i < length (cl_backends w) \<Longrightarrow> inner_step allowed (bp_ws (cl_backends w ! i)) ws \<Longrightarrow>
      S w (set_backend i ((cl_backends w ! i)\<lparr>bp_ws := ws\<rparr>) w)"
    and i: "i < length (cl_backends w)" and run: "(inner_step allowed)\<^sup>*\<^sup>* (bp_ws (cl_backends w ! i)) ws"
  shows "S\<^sup>*\<^sup>* w (set_backend i ((cl_backends w ! i)\<lparr>bp_ws := ws\<rparr>) w)"
  using run
proof (induction rule: rtranclp_induct)
  case base
  then show ?case by (simp add: set_backend_def)
next
  case (step ws1 ws2)
  let ?w = "\<lambda>ws. set_backend i ((cl_backends w ! i)\<lparr>bp_ws := ws\<rparr>) w"
  have "S (?w ws1) (set_backend i ((cl_backends (?w ws1) ! i)\<lparr>bp_ws := ws2\<rparr>) (?w ws1))"
    using i step.hyps(2) by (intro S) simp_all
  then have "S (?w ws1) (?w ws2)" using i by (simp add: set_backend_def)
  with step.IH show ?case by (rule rtranclp.rtrancl_into_rtrancl)
qed

lemma inner_reachable:
  assumes reach: "cluster_reachable R allowed w" and i: "i < length (cl_backends w)"
    and run: "(inner_step allowed)\<^sup>*\<^sup>* (bp_ws (cl_backends w ! i)) ws"
  shows "cluster_reachable R allowed (set_backend i ((cl_backends w ! i)\<lparr>bp_ws := ws\<rparr>) w)"
proof -
  have "(cluster_step R allowed)\<^sup>*\<^sup>* w (set_backend i ((cl_backends w ! i)\<lparr>bp_ws := ws\<rparr>) w)"
    using i run by (rule inner_lift [where allowed = allowed, rotated]) (rule cluster_step.goroutine [OF _ refl])
  then show ?thesis by (induction rule: rtranclp_induct) (blast intro: reach cluster_reachable.step)+
qed

end
