(* ===== verification/Paced.thy ===== *)
theory Paced
  imports Cluster
begin

text \<open>
  Runs of the cluster in which the two streams of an instance do not overtake each other for one of its
  clients: seats are held, booked, and run out, on any instance, while the messages are on their
  way. What a client has been sent and what is still to come always add up to the seats as they are.
\<close>

section \<open>What is on its way to a client\<close>

definition events_to :: "'r redis_api \<Rightarrow> nat \<Rightarrow> nat \<Rightarrow> 'r cluster \<Rightarrow> json list" where
  "events_to R i c w = (let p = cl_backends w ! i in
     owed Events_loop c (bp_ws p) @ rebroadcast (drop (bp_events p) (published R (cl_redis w))))"

definition expiries_to :: "nat \<Rightarrow> nat \<Rightarrow> 'r cluster \<Rightarrow> json list" where
  "expiries_to i c w = (let p = cl_backends w ! i in
     owed Expiry_loop c (bp_ws p) @ frees (sv_instanceID (bp_service p)) (drop (bp_expiries p) (cl_expired w)))"

text \<open>The seat a message is about.\<close>

definition about :: "json \<Rightarrow> seat_id option" where
  "about m = map_option ev_SeatID (unmarshal_event m)"

definition mentions :: "seat_id \<Rightarrow> json list \<Rightarrow> bool" where
  "mentions s ms \<longleftrightarrow> (\<exists>m \<in> set ms. about m = Some s)"

lemma about_event: "event_ok ev \<Longrightarrow> about (marshal_event ev) = Some (ev_SeatID ev)"
  by (simp add: about_def unmarshal_marshal_event)

section \<open>The runs\<close>

text \<open>
  Requests on any instance; time that passes in Redis and the keys that run out with it; the two
  loops of instance \<open>i\<close> and its goroutines; and whatever happens elsewhere. A seat is not held again
  while its last expiry is still on its way to client \<open>c\<close>, and a hold does not run out before the
  client has been told of it. The numbers are Go integers.
\<close>

inductive paced_step :: "'r redis_api \<Rightarrow> string \<Rightarrow> nat \<Rightarrow> nat \<Rightarrow> 'r cluster \<Rightarrow> 'r cluster \<Rightarrow> bool"
  for R allowedOrigin i c where
  hold: "j < length (cl_backends w) \<Longrightarrow> sv = bp_service (cl_backends w ! j) \<Longrightarrow> hold_clean nets \<Longrightarrow>
    hn_publish nets = Answered 0 \<Longrightarrow> 0 < int_seconds (sv_holdTTL sv) \<Longrightarrow> int_range s \<Longrightarrow>
    int_range (unix_milli (time_add now (sv_holdTTL sv))) \<Longrightarrow> \<not> mentions s (expiries_to i c w) \<Longrightarrow>
    Hold R sv nets now s u (cl_redis w) = (r', res) \<Longrightarrow>
    paced_step R allowedOrigin i c w (w\<lparr>cl_redis := r'\<rparr>)"
| confirm: "j < length (cl_backends w) \<Longrightarrow> sv = bp_service (cl_backends w ! j) \<Longrightarrow> confirm_clean nets \<Longrightarrow>
    cn_publish nets = Answered 0 \<Longrightarrow> insertable (cl_db w) s (sv_eventID sv) \<Longrightarrow> int_range s \<Longrightarrow>
    Confirm R sv nets s u (cl_redis w, cl_db w) = ((r', d'), res) \<Longrightarrow>
    paced_step R allowedOrigin i c w (w\<lparr>cl_redis := r', cl_db := d'\<rparr>)"
| elapse: "r' = rd_elapse R (cl_redis w) ms \<Longrightarrow>
    set ks = {k. rd_get R (cl_redis w) k \<noteq> None \<and> rd_get R r' k = None} \<Longrightarrow>
    \<forall>s \<in> set (freed_by ks). \<not> mentions s (events_to R i c w) \<Longrightarrow>
    paced_step R allowedOrigin i c w (w\<lparr>cl_redis := r', cl_expired := cl_expired w @ ks\<rparr>)"
| event: "p = cl_backends w ! i \<Longrightarrow> bp_events p < length (published R (cl_redis w)) \<Longrightarrow> ready Events_loop order p \<Longrightarrow>
    paced_step R allowedOrigin i c w (set_backend i (take_event R (cl_redis w) order p) w)"
| expiry: "p = cl_backends w ! i \<Longrightarrow> bp_expiries p < length (cl_expired w) \<Longrightarrow> ready Expiry_loop order p \<Longrightarrow>
    paced_step R allowedOrigin i c w (set_backend i (take_expiry (cl_expired w) order p) w)"
| goroutine: "p = cl_backends w ! i \<Longrightarrow> inner_step allowedOrigin (bp_ws p) ws' \<Longrightarrow>
    paced_step R allowedOrigin i c w (set_backend i (p\<lparr>bp_ws := ws'\<rparr>) w)"
| elsewhere: "cluster_step R allowedOrigin w w' \<Longrightarrow> cl_redis w' = cl_redis w \<Longrightarrow> cl_db w' = cl_db w \<Longrightarrow>
    cl_expired w' = cl_expired w \<Longrightarrow> length (cl_backends w) \<le> length (cl_backends w') \<Longrightarrow>
    cl_backends w' ! i = cl_backends w ! i \<Longrightarrow> paced_step R allowedOrigin i c w w'"

text \<open>What every state of such a run satisfies.\<close>

definition sound :: "'r redis_api \<Rightarrow> nat \<Rightarrow> 'r cluster \<Rightarrow> bool" where
  "sound R i w \<longleftrightarrow> i < length (cl_backends w) \<and> ws_inv (bp_ws (cl_backends w ! i)) \<and>
     bp_events (cl_backends w ! i) \<le> length (published R (cl_redis w)) \<and>
     bp_expiries (cl_backends w ! i) \<le> length (cl_expired w) \<and>
     coherent R (cl_redis w, cl_db w) \<and> canonical_holds R (cl_redis w)"

lemma reachable_sound:
  assumes "cluster_reachable R allowed w" and "i < length (cl_backends w)"
    and "coherent R (cl_redis w, cl_db w)" and "canonical_holds R (cl_redis w)"
  shows "sound R i w"
proof -
  have "proc_ok R allowed (cl_redis w) (cl_expired w) (cl_backends w ! i)"
    using cluster_reachable_inv [OF assms(1)] assms(2) by (simp add: cluster_inv_def)
  then show ?thesis using assms by (auto simp: sound_def proc_ok_def intro: ws_reachable_inv)
qed

section \<open>The holds in Redis\<close>

text \<open>Requests on seats within the range, and expiry, leave only well-formed hold keys.\<close>

lemma canonical_holds_subset:
  "canonical_holds R r \<Longrightarrow> (\<And>k. rd_get R r' k \<noteq> None \<Longrightarrow> has_prefix k holdPrefix \<Longrightarrow>
     rd_get R r k \<noteq> None \<or> (\<exists>s. int_range s \<and> k = holdKey s)) \<Longrightarrow> canonical_holds R r'"
  unfolding canonical_holds_def by blast

context redis
begin

lemma Publish_get: "rd_get R (fst (Publish R net ev r)) = rd_get R r"
  unfolding Publish_def by (rule redis_call_inv) (simp_all add: publish_laws)

lemma Hold_canonical:
  assumes "canonical_holds R r" and "hold_clean nets" and "0 < int_seconds (sv_holdTTL sv)" and "int_range s"
  shows "canonical_holds R (fst (Hold R sv nets now s u r))"
proof -
  consider (booked) "seat_marker R r s \<noteq> None"
    | (held) "seat_marker R r s = None" "seat_holder R r s \<noteq> None"
    | (free) "seat_marker R r s = None" "seat_holder R r s = None" by blast
  then show ?thesis
  proof cases
    case booked
    with assms(1,2) show ?thesis by (simp add: Hold_def hold_clean_def TryHold_booked lock_defs)
  next
    case held
    with assms(1-3) show ?thesis by (simp add: Hold_def hold_clean_def TryHold_held lock_defs)
  next
    case free
    have "rd_get R (grabbed R s u (sv_holdTTL sv) r) = (rd_get R r)(holdKey s := Some u)"
      using holdScript_free [OF free assms(3), of u] int_seconds_le [of "sv_holdTTL sv"]
      by (auto simp: grabbed_def max_ex_def)
    then have "rd_get R (fst (Hold R sv nets now s u r)) = (rd_get R r)(holdKey s := Some u)"
      using free assms(2,3) by (simp add: Hold_def hold_clean_def TryHold_free split_beta Let_def Publish_get)
    with assms(4) show ?thesis by (intro canonical_holds_subset [OF assms(1)]) (auto split: if_splits)
  qed
qed

lemma Confirm_canonical:
  assumes "canonical_holds R r" and "confirm_clean nets" and "insertable d s (sv_eventID sv)" and "coherent R (r, d)"
  shows "canonical_holds R (fst (fst (Confirm R sv nets s u (r, d))))"
proof (cases "seat_holder R r s = Some u")
  case True
  then have free: "booking_owner d s = None"
    using coherentD(2) [OF assms(4), of s] by (cases "booking_owner d s") auto
  have "rd_get R (marked R s u r) = (rd_get R r)(holdKey s := None, bookedKey s := Some u)"
    by (simp add: marked_def bookScript_def set_laws del_laws)
  then have "rd_get R (fst (fst (Confirm R sv nets s u (r, d)))) = (rd_get R r)(holdKey s := None, bookedKey s := Some u)"
    using assms(2) Confirm_holder [OF True free assms(3), of nets 0]
    by (simp add: confirm_clean_def MarkBooked_state Publish_get)
  then show ?thesis by (intro canonical_holds_subset [OF assms(1)]) (auto split: if_splits)
next
  case False
  with assms(1) show ?thesis by (simp add: Confirm_not_holder)
qed

lemma elapse_canonical: "canonical_holds R r \<Longrightarrow> canonical_holds R (rd_elapse R r ms)"
  by (rule canonical_holds_subset) (auto simp: elapse_get split: if_splits)

end

section \<open>News of the seats\<close>

text \<open>Messages, each with the seat it is about and what it tells of it.\<close>

type_synonym tidings = "(json \<times> seat_id \<times> seat_view) list"

definition seats_in :: "tidings \<Rightarrow> seat_id set" where
  "seats_in ts = (fst \<circ> snd) ` set ts"

definition labels :: "tidings \<Rightarrow> bool" where
  "labels ts \<longleftrightarrow> (\<forall>(m, s, v) \<in> set ts. tells (m, s, v) \<and> about m = Some s)"

definition frees_only :: "tidings \<Rightarrow> bool" where
  "frees_only ts \<longleftrightarrow> (\<forall>(m, s, v) \<in> set ts. v = Free)"

lemma seats_in_simps [simp]:
  "seats_in [] = {}" "seats_in (t # ts) = insert (fst (snd t)) (seats_in ts)" "seats_in (ts @ us) = seats_in ts \<union> seats_in us"
  by (auto simp: seats_in_def)

lemma labels_simps [simp]: "labels []" "labels (ts @ us) \<longleftrightarrow> labels ts \<and> labels us"
  by (simp_all add: labels_def ball_Un)

lemma frees_only_simps [simp]: "frees_only []" "frees_only (ts @ us) \<longleftrightarrow> frees_only ts \<and> frees_only us"
  by (simp_all add: frees_only_def ball_Un)

lemma labels_tell: "labels ts \<Longrightarrow> list_all tells ts"
  by (auto simp: labels_def list_all_iff)

lemma mentions_labels: "labels ts \<Longrightarrow> mentions s (map fst ts) \<longleftrightarrow> s \<in> seats_in ts"
  by (force simp: labels_def mentions_def seats_in_def)

lemma mentions_append [simp]: "mentions s (ms @ ms') \<longleftrightarrow> mentions s ms \<or> mentions s ms'"
  by (auto simp: mentions_def)

lemma overwrite_none: "s \<notin> seats_in ts \<Longrightarrow> overwrite ts f s = f s"
  by (induction ts arbitrary: f) auto

lemma overwrite_cong: "f s = g s \<Longrightarrow> overwrite ts f s = overwrite ts g s"
  by (simp add: overwrite_lookup split: option.split)

lemma overwrite_known: "s \<in> seats_in ts \<Longrightarrow> overwrite ts f s = overwrite ts g s"
proof (induction ts arbitrary: f g)
  case (Cons t ts)
  then show ?case by (cases "s \<in> seats_in ts"; cases t) (auto simp: overwrite_none)
qed simp

text \<open>News of different seats commute.\<close>

lemma overwrite_commute:
  "s \<notin> seats_in ts \<or> s \<notin> seats_in us \<Longrightarrow> overwrite ts (overwrite us f) s = overwrite us (overwrite ts f) s"
  by (elim disjE)
    (simp_all add: overwrite_none overwrite_cong [of "overwrite us f" s f] overwrite_cong [of "overwrite ts f" s f])

lemma frees_only_Free: "frees_only ts \<Longrightarrow> s \<in> seats_in ts \<Longrightarrow> overwrite ts f s = Free"
proof (induction ts arbitrary: f)
  case (Cons t ts)
  then show ?case by (cases "s \<in> seats_in ts"; cases t) (auto simp: frees_only_def overwrite_none)
qed simp

section \<open>A step, seen from one client\<close>

text \<open>What the backend publishes is relayed as it is.\<close>

definition relayed_as_is :: "json \<Rightarrow> bool" where
  "relayed_as_is m \<longleftrightarrow> rebroadcast [m] = [m]"

lemma rebroadcast_as_is: "list_all relayed_as_is ms \<Longrightarrow> rebroadcast ms = ms"
proof (induction ms)
  case (Cons m ms)
  then show ?case
    using rebroadcast_simps(2) [of "[m]" ms] by (simp add: relayed_as_is_def del: rebroadcast_simps)
qed simp

lemma event_as_is: "event_ok ev \<Longrightarrow> relayed_as_is (marshal_event ev)"
  by (simp add: relayed_as_is_def unmarshal_marshal_event)

text \<open>
  A client stays with its instance, and is sent the messages \<open>ms\<close> unless its snapshot is what it is sent.
  Then: the new messages of a step and what they tell, and the messages that pass the client in it. News about
  a seat that is taken may come while an expiry is under way; news of a free seat may not.
\<close>

definition follows :: "nat \<Rightarrow> ws_world \<Rightarrow> ws_world \<Rightarrow> json list \<Rightarrow> bool" where
  "follows c w w' ms \<longleftrightarrow> (c < length (ww_peers w) \<longrightarrow> c < length (ww_peers w') \<and> (serving c w' \<longrightarrow> serving c w) \<and>
     (live c w' \<and> (serving c w \<longrightarrow> serving c w') \<longrightarrow> live c w \<and> sent c w' = sent c w @ map Delta ms))"

definition carries ::
  "'r redis_api \<Rightarrow> nat \<Rightarrow> nat \<Rightarrow> 'r cluster \<Rightarrow> 'r cluster \<Rightarrow> tidings \<Rightarrow> tidings \<Rightarrow> json list \<Rightarrow> json list \<Rightarrow> bool" where
  "carries R i c w w' es fs gone_es gone_fs \<longleftrightarrow>
     events_to R i c w @ map fst es = gone_es @ events_to R i c w' \<and>
     expiries_to i c w @ map fst fs = gone_fs @ expiries_to i c w' \<and>
     (gone_es = [] \<or> gone_fs = []) \<and> labels es \<and> labels fs \<and> frees_only fs \<and> (es = [] \<or> fs = []) \<and>
     (\<forall>s \<in> seats_in es. \<not> mentions s (expiries_to i c w) \<or> int_range s \<and> cluster_view R w s \<noteq> Free) \<and>
     (\<forall>s \<in> seats_in fs. \<not> mentions s (events_to R i c w)) \<and>
     cluster_view R w' = overwrite fs (overwrite es (cluster_view R w)) \<and>
     follows c (bp_ws (cl_backends w ! i)) (bp_ws (cl_backends w' ! i)) (gone_es @ gone_fs)"

lemma carries_news:
  assumes same: "cl_backends w' ! i = cl_backends w ! i" "sound R i w"
    and pub: "published R (cl_redis w') = published R (cl_redis w) @ map fst es"
    and exp: "cl_expired w' = cl_expired w @ ks" "frees (sv_instanceID (bp_service (cl_backends w ! i))) ks = map fst fs"
    and ok: "labels es" "labels fs" "frees_only fs" "es = [] \<or> fs = []" "list_all relayed_as_is (map fst es)"
    and guard: "\<And>s. s \<in> seats_in es \<Longrightarrow> \<not> mentions s (expiries_to i c w) \<or> int_range s \<and> cluster_view R w s \<noteq> Free"
      "\<And>s. s \<in> seats_in fs \<Longrightarrow> \<not> mentions s (events_to R i c w)"
    and view: "cluster_view R w' = overwrite fs (overwrite es (cluster_view R w))"
  shows "carries R i c w w' es fs [] []"
proof -
  have le: "bp_events (cl_backends w ! i) \<le> length (published R (cl_redis w))" "bp_expiries (cl_backends w ! i) \<le> length (cl_expired w)"
    using same(2) by (simp_all add: sound_def)
  have "events_to R i c w' = events_to R i c w @ map fst es"
    using le(1) rebroadcast_as_is [OF ok(5)] by (simp add: events_to_def same(1) pub Let_def)
  moreover have "expiries_to i c w' = expiries_to i c w @ map fst fs"
    using le(2) exp(2) by (simp add: expiries_to_def same(1) exp(1) Let_def)
  ultimately show ?thesis using ok guard view by (simp add: carries_def follows_def same(1))
qed

lemma carries_passes:
  assumes i: "i < length (cl_backends w)" and p: "p = cl_backends w ! i" "bp_service p' = bp_service p"
    and pass: "passes c (bp_ws p) (bp_ws p') new gone"
    and ev: "rebroadcast (drop (bp_events p) (published R (cl_redis w))) =
      new Events_loop @ rebroadcast (drop (bp_events p') (published R (cl_redis w)))"
    and ex: "frees (sv_instanceID (bp_service p)) (drop (bp_expiries p) (cl_expired w)) =
      new Expiry_loop @ frees (sv_instanceID (bp_service p)) (drop (bp_expiries p') (cl_expired w))"
    and served: "c < length (ww_peers (bp_ws p)) \<Longrightarrow>
      c < length (ww_peers (bp_ws p')) \<and> (serving c (bp_ws p') \<longrightarrow> serving c (bp_ws p))"
  shows "carries R i c w (set_backend i p' w) [] [] (gone Events_loop) (gone Expiry_loop)"
proof -
  have o: "owed g c (bp_ws p) @ new g = gone g @ owed g c (bp_ws p')" for g using pass by (simp add: passes_def)
  have "events_to R i c w = gone Events_loop @ events_to R i c (set_backend i p' w)"
    using o [of Events_loop] ev i by (simp add: events_to_def Let_def flip: p(1) append_assoc)
  moreover have "expiries_to i c w = gone Expiry_loop @ expiries_to i c (set_backend i p' w)"
    using o [of Expiry_loop] ex i p(2) by (simp add: expiries_to_def Let_def flip: p(1) append_assoc)
  moreover have "cluster_view R (set_backend i p' w) = cluster_view R w" by (simp add: cluster_view_def)
  ultimately show ?thesis using pass served i by (auto simp: carries_def follows_def passes_def simp flip: p(1))
qed

text \<open>A loop that takes its next message: the broadcast begins, or there is nothing to broadcast.\<close>

lemma begin_passes:
  assumes "ws_inv w" and "ww_casts w g = Idle" and "mset order = mset (hb_clients (ww_hub w))"
    and "w' = w \<and> ms = [] \<or> (\<exists>m. w' = broadcast_begin g m order w \<and> ms = [m])"
  obtains new gone where "passes c w w' new gone" "new g = ms" "\<And>a. a \<noteq> g \<Longrightarrow> new a = []" "ws_inv w'"
    "c < length (ww_peers w) \<Longrightarrow> c < length (ww_peers w') \<and> (serving c w' \<longrightarrow> serving c w)"
  using assms(4)
proof (elim disjE exE conjE)
  assume "w' = w" "ms = []"
  then have "passes c w w' (\<lambda>g. []) (\<lambda>g. [])" by (intro passes_same) simp_all
  with assms(1) \<open>w' = w\<close> \<open>ms = []\<close> show thesis by (intro that [of "\<lambda>g. []" "\<lambda>g. []"]) simp_all
next
  fix m assume w': "w' = broadcast_begin g m order w" and ms: "ms = [m]"
  have step: "ws_step [] w w'" unfolding w' by (rule ws_step.begin_cast [OF assms(2,3)])
  obtain new gone where p: "passes c w w' new gone" using step_passes [OF step assms(1)] by blast
  have "ww_log w' = (ww_log w)(g := ww_log w g @ [m])" unfolding w' by (rule begin_live(5) [OF assms(1,2)])
  moreover have "ww_log w' a = ww_log w a @ new a" for a using p by (simp add: passes_def)
  ultimately have "(if a = g then ww_log w g @ [m] else ww_log w a) = ww_log w a @ new a" for a by (metis fun_upd_apply)
  then have "new g = ms" "\<forall>a. a \<noteq> g \<longrightarrow> new a = []" using ms by (metis same_append_eq, metis append_self_conv)
  with p step_served [OF step assms(1)] ws_step_inv [OF step assms(1)] show thesis by (intro that [of new gone]) simp_all
qed

lemma event_carries:
  assumes i: "i < length (cl_backends w)" and inv: "ws_inv (bp_ws p)" and p: "p = cl_backends w ! i" and more: "bp_events p < length (published R (cl_redis w))"
    and ready: "ready Events_loop order p"
  shows "ws_inv (bp_ws (take_event R (cl_redis w) order p)) \<and>
    (\<exists>ge gf. carries R i c w (set_backend i (take_event R (cl_redis w) order p) w) [] [] ge gf)"
proof -
  let ?p = "take_event R (cl_redis w) order p" and ?m = "published R (cl_redis w) ! bp_events p"
  note r = ready [unfolded ready_def, THEN conjunct1] ready [unfolded ready_def, THEN conjunct2]
  have t: "bp_ws ?p = handle_event order ?m (bp_ws p)" "bp_events ?p = Suc (bp_events p)" "bp_expiries ?p = bp_expiries p"
    "bp_service ?p = bp_service p" by (simp_all add: take_event_def)
  have d: "bp_ws ?p = bp_ws p \<and> rebroadcast [?m] = [] \<or>
      (\<exists>m. bp_ws ?p = broadcast_begin Events_loop m order (bp_ws p) \<and> rebroadcast [?m] = [m])"
    by (auto simp: t handle_event_def split: option.split)
  show ?thesis
  proof (rule begin_passes [OF inv r d])
    fix new gone
    assume n: "passes c (bp_ws p) (bp_ws ?p) new gone" "new Events_loop = rebroadcast [?m]"
      "\<And>a. a \<noteq> Events_loop \<Longrightarrow> new a = []" "ws_inv (bp_ws ?p)"
      and served: "c < length (ww_peers (bp_ws p)) \<Longrightarrow>
        c < length (ww_peers (bp_ws ?p)) \<and> (serving c (bp_ws ?p) \<longrightarrow> serving c (bp_ws p))"
    have es: "rebroadcast (drop (bp_events p) (published R (cl_redis w))) =
        new Events_loop @ rebroadcast (drop (bp_events ?p) (published R (cl_redis w)))"
      unfolding n(2) t(2) rebroadcast_simps(2) [symmetric] using more by (simp add: Cons_nth_drop_Suc del: rebroadcast_simps)
    have fs: "frees (sv_instanceID (bp_service p)) (drop (bp_expiries p) (cl_expired w)) =
        new Expiry_loop @ frees (sv_instanceID (bp_service p)) (drop (bp_expiries ?p) (cl_expired w))"
      unfolding t(3) by (simp add: n(3))
    have "carries R i c w (set_backend i ?p w) [] [] (gone Events_loop) (gone Expiry_loop)"
      by (rule carries_passes [OF i p t(4) n(1) es fs served])
    with n(4) show ?thesis by blast
  qed
qed

lemma expiry_carries:
  assumes i: "i < length (cl_backends w)" and inv: "ws_inv (bp_ws p)" and p: "p = cl_backends w ! i" and more: "bp_expiries p < length (cl_expired w)"
    and ready: "ready Expiry_loop order p"
  shows "ws_inv (bp_ws (take_expiry (cl_expired w) order p)) \<and>
    (\<exists>ge gf. carries R i c w (set_backend i (take_expiry (cl_expired w) order p) w) [] [] ge gf)"
proof -
  let ?p = "take_expiry (cl_expired w) order p" and ?k = "cl_expired w ! bp_expiries p"
  let ?inst = "sv_instanceID (bp_service p)"
  note r = ready [unfolded ready_def, THEN conjunct1] ready [unfolded ready_def, THEN conjunct2]
  have t: "bp_ws ?p = handle_expiry order ?inst ?k (bp_ws p)" "bp_events ?p = bp_events p" "bp_expiries ?p = Suc (bp_expiries p)"
    "bp_service ?p = bp_service p" by (simp_all add: take_expiry_def)
  have d: "bp_ws ?p = bp_ws p \<and> frees ?inst [?k] = [] \<or>
      (\<exists>m. bp_ws ?p = broadcast_begin Expiry_loop m order (bp_ws p) \<and> frees ?inst [?k] = [m])"
    by (auto simp: t handle_expiry_def split: prod.split)
  show ?thesis
  proof (rule begin_passes [OF inv r d])
    fix new gone
    assume n: "passes c (bp_ws p) (bp_ws ?p) new gone" "new Expiry_loop = frees ?inst [?k]"
      "\<And>a. a \<noteq> Expiry_loop \<Longrightarrow> new a = []" "ws_inv (bp_ws ?p)"
      and served: "c < length (ww_peers (bp_ws p)) \<Longrightarrow>
        c < length (ww_peers (bp_ws ?p)) \<and> (serving c (bp_ws ?p) \<longrightarrow> serving c (bp_ws p))"
    have es: "rebroadcast (drop (bp_events p) (published R (cl_redis w))) =
        new Events_loop @ rebroadcast (drop (bp_events ?p) (published R (cl_redis w)))"
      unfolding t(2) by (simp add: n(3))
    have fs: "frees ?inst (drop (bp_expiries p) (cl_expired w)) =
        new Expiry_loop @ frees ?inst (drop (bp_expiries ?p) (cl_expired w))"
      unfolding n(2) t(3) frees_simps(2) [symmetric] using more by (simp add: Cons_nth_drop_Suc del: frees_simps)
    have "carries R i c w (set_backend i ?p w) [] [] (gone Events_loop) (gone Expiry_loop)"
      by (rule carries_passes [OF i p t(4) n(1) es fs served])
    with n(4) show ?thesis by blast
  qed
qed

lemma goroutine_carries:
  assumes i: "i < length (cl_backends w)" and inv: "ws_inv (bp_ws p)" and p: "p = cl_backends w ! i"
    and step: "inner_step allowed (bp_ws p) ws"
  shows "ws_inv ws \<and>
    (\<exists>ge gf. carries R i c w (set_backend i (p\<lparr>bp_ws := ws\<rparr>) w) [] [] ge gf)"
proof -
  have s: "ws_step allowed (bp_ws p) ws" "ww_log ws = ww_log (bp_ws p)" using step by (simp_all add: inner_step_def)
  obtain new gone where n: "passes c (bp_ws p) ws new gone" using step_passes [OF s(1) inv] by blast
  then have "new = (\<lambda>g. [])" using s(2) by (auto simp: passes_def)
  then have "carries R i c w (set_backend i (p\<lparr>bp_ws := ws\<rparr>) w) [] [] (gone Events_loop) (gone Expiry_loop)"
    using n step_served [OF s(1) inv, of c] by (intro carries_passes [OF i p]) simp_all
  with ws_step_inv [OF s(1) inv] show ?thesis by blast
qed

lemma published_news: "rd_log R r' = rd_log R r @ map (Pair eventChannel \<circ> fst) (ts :: tidings) \<Longrightarrow>
    published R r' = published R r @ map fst ts"
  by (simp add: published_def comp_def)

lemma hold_news_labels:
  assumes "int_range s" and "int_range (unix_milli (time_add now (sv_holdTTL sv)))"
  shows "labels (hold_news R sv now s u r)" "list_all relayed_as_is (map fst (hold_news R sv now s u r))"
    "seats_in (hold_news R sv now s u r) \<subseteq> {s}"
proof -
  have ok: "event_ok (held_event sv s u (unix_milli (time_add now (sv_holdTTL sv))))"
    using assms by (simp add: event_ok_def held_event_def)
  show "list_all relayed_as_is (map fst (hold_news R sv now s u r))" "seats_in (hold_news R sv now s u r) \<subseteq> {s}"
    using event_as_is [OF ok] by (simp_all add: hold_news_def)
  show "labels (hold_news R sv now s u r)"
    using news_tell(1) [of R sv now s u r] about_event [OF ok]
    by (auto simp: labels_def hold_news_def held_event_def split: if_splits)
qed

lemma confirm_news_labels:
  assumes "int_range s"
  shows "labels (confirm_news R sv s u r)" "list_all relayed_as_is (map fst (confirm_news R sv s u r))"
    "x \<in> seats_in (confirm_news R sv s u r) \<Longrightarrow> x = s \<and> seat_holder R r s = Some u"
proof -
  have ok: "event_ok (booked_event sv s u)"
    using assms by (simp add: event_ok_def booked_event_def int_range_def)
  show "list_all relayed_as_is (map fst (confirm_news R sv s u r))"
    "x \<in> seats_in (confirm_news R sv s u r) \<Longrightarrow> x = s \<and> seat_holder R r s = Some u"
    using event_as_is [OF ok] by (auto simp: confirm_news_def split: if_splits)
  show "labels (confirm_news R sv s u r)"
    using news_tell(2) [of R sv s u r] about_event [OF ok]
    by (auto simp: labels_def confirm_news_def booked_event_def split: if_splits)
qed

text \<open>What becomes known when holds run out.\<close>

definition freed_news :: "string \<Rightarrow> string list \<Rightarrow> tidings" where
  "freed_news inst ks = map (\<lambda>s. (marshal_event (freed_event inst s), s, Free)) (freed_by ks)"

lemma freed_news_simps:
  "frees_only (freed_news inst ks)" "seats_in (freed_news inst ks) = set (freed_by ks)"
  "map fst (freed_news inst ks) = frees inst ks"
  "overwrite (freed_news inst ks) f s = (if s \<in> set (freed_by ks) then Free else f s)"
proof -
  show f: "frees_only (freed_news inst ks)" and m: "seats_in (freed_news inst ks) = set (freed_by ks)"
    and "map fst (freed_news inst ks) = frees inst ks"
    by (auto simp: frees_only_def freed_news_def seats_in_def frees_def image_image comp_def)
  show "overwrite (freed_news inst ks) f s = (if s \<in> set (freed_by ks) then Free else f s)"
    using frees_only_Free [OF f] overwrite_none [of s "freed_news inst ks"] by (simp add: m)
qed

lemma freed_news_labels:
  assumes "\<And>s. s \<in> set (freed_by ks) \<Longrightarrow> int_range s"
  shows "labels (freed_news inst ks)"
proof -
  have "about (marshal_event (freed_event inst s)) = Some s" if "s \<in> set (freed_by ks)" for s
    using about_event [of "freed_event inst s"] assms [OF that] by (simp add: event_ok_def freed_event_def int_range_def)
  then show ?thesis by (auto simp: labels_def freed_news_def tells_def onmessage_freed)
qed

lemma hold_carries:
  assumes R: "redis R" and ok: "sound R i w" and nets: "hold_clean nets" "hn_publish nets = Answered 0"
    and ttl: "0 < int_seconds (sv_holdTTL sv)" and s: "int_range s" "int_range (unix_milli (time_add now (sv_holdTTL sv)))"
    and free: "\<not> mentions s (expiries_to i c w)" and run: "Hold R sv nets now s u (cl_redis w) = (r', res)"
  shows "sound R i (w\<lparr>cl_redis := r'\<rparr>) \<and> (\<exists>es. carries R i c w (w\<lparr>cl_redis := r'\<rparr>) es [] [] [])"
proof -
  have co: "coherent R (cl_redis w, cl_db w)" and canon: "canonical_holds R (cl_redis w)" using ok by (simp_all add: sound_def)
  note h = Hold_news [OF R co nets ttl run]
  note l = hold_news_labels [OF s, where R = R and u = u and r = "cl_redis w"]
  have "carries R i c w (w\<lparr>cl_redis := r'\<rparr>) (hold_news R sv now s u (cl_redis w)) [] [] []"
    by (rule carries_news [OF _ ok, where ks = "[]"])
      (use h(2) free l published_news [OF h(1)] in \<open>auto simp: cluster_view_def\<close>)
  moreover have "canonical_holds R r'"
    using redis.Hold_canonical [OF R canon nets(1) ttl s(1), of now u] by (simp add: run)
  then have "sound R i (w\<lparr>cl_redis := r'\<rparr>)" using ok h(3) published_news [OF h(1)] by (simp add: sound_def)
  ultimately show ?thesis by blast
qed

lemma confirm_carries:
  assumes R: "redis R" and ok: "sound R i w" and nets: "confirm_clean nets" "cn_publish nets = Answered 0"
    and ins: "insertable (cl_db w) s (sv_eventID sv)" and s: "int_range s"
    and run: "Confirm R sv nets s u (cl_redis w, cl_db w) = ((r', d'), res)"
  shows "sound R i (w\<lparr>cl_redis := r', cl_db := d'\<rparr>) \<and>
    (\<exists>es. carries R i c w (w\<lparr>cl_redis := r', cl_db := d'\<rparr>) es [] [] [])"
proof -
  have co: "coherent R (cl_redis w, cl_db w)" and canon: "canonical_holds R (cl_redis w)" using ok by (simp_all add: sound_def)
  let ?es = "confirm_news R sv s u (cl_redis w)"
  note h = Confirm_news [OF R co nets ins run]
  note l = confirm_news_labels [OF s, where R = R and sv = sv and u = u and r = "cl_redis w"]
  have taken: "int_range x \<and> cluster_view R w x \<noteq> Free" if "x \<in> seats_in ?es" for x
    using l(3) [OF that] s coherentD(2) [OF co, of s] by (auto simp: cluster_view_def view_def split: option.split)
  have "carries R i c w (w\<lparr>cl_redis := r', cl_db := d'\<rparr>) ?es [] [] []"
    by (rule carries_news [OF _ ok, where ks = "[]"])
      (use h(2) taken l(1,2) published_news [OF h(1)] in \<open>simp_all add: cluster_view_def\<close>)
  moreover have "canonical_holds R r'"
    using redis.Confirm_canonical [OF R canon nets(1) ins co, of u] by (simp add: run)
  then have "sound R i (w\<lparr>cl_redis := r', cl_db := d'\<rparr>)"
    using ok h(3) published_news [OF h(1)] by (simp add: sound_def)
  ultimately show ?thesis by blast
qed

lemma elapse_carries:
  assumes R: "redis R" and ok: "sound R i w" and r': "r' = rd_elapse R (cl_redis w) ms"
    and ks: "set ks = {k. rd_get R (cl_redis w) k \<noteq> None \<and> rd_get R r' k = None}"
    and told: "\<forall>s \<in> set (freed_by ks). \<not> mentions s (events_to R i c w)"
  shows "sound R i (w\<lparr>cl_redis := r', cl_expired := cl_expired w @ ks\<rparr>) \<and>
    (\<exists>fs. carries R i c w (w\<lparr>cl_redis := r', cl_expired := cl_expired w @ ks\<rparr>) [] fs [] [])"
proof -
  have co: "coherent R (cl_redis w, cl_db w)" and canon: "canonical_holds R (cl_redis w)" using ok by (simp_all add: sound_def)
  let ?fs = "freed_news (sv_instanceID (bp_service (cl_backends w ! i))) ks"
  note v = view_elapse [OF R co canon ks [unfolded r']]
  have log: "published R r' = published R (cl_redis w)"
    by (simp add: published_def r' redis.elapse_log [OF R])
  have "carries R i c w (w\<lparr>cl_redis := r', cl_expired := cl_expired w @ ks\<rparr>) [] ?fs [] []"
    by (rule carries_news [OF _ ok, where ks = ks])
      (use told log freed_news_labels [OF v(2)] in
        \<open>auto simp: cluster_view_def freed_news_simps v(1) r' fun_eq_iff\<close>)
  moreover have "sound R i (w\<lparr>cl_redis := r', cl_expired := cl_expired w @ ks\<rparr>)"
    using ok log redis.elapse_refines(2) [OF R co, of ms] redis.elapse_canonical [OF R canon, of ms]
    by (simp add: sound_def r')
  ultimately show ?thesis by blast
qed

lemma paced_step_carries:
  assumes R: "redis R" and ok: "sound R i w" and step: "paced_step R allowed i c w w'"
  shows "sound R i w' \<and> (\<exists>es fs ge gf. carries R i c w w' es fs ge gf)"
proof -
  have i: "i < length (cl_backends w)" using ok by (simp add: sound_def)
  have inv: "p = cl_backends w ! i \<Longrightarrow> ws_inv (bp_ws p)" for p using ok by (simp add: sound_def)
  from step show ?thesis
  proof cases
    case (hold j sv nets s now u r' res)
    with hold_carries [OF R ok hold(4-10)] show ?thesis by blast
  next
    case (confirm j sv nets s u r' d' res)
    with confirm_carries [OF R ok confirm(4-8), of c] show ?thesis by blast
  next
    case (elapse r' ms ks)
    with elapse_carries [OF R ok elapse(2-4)] show ?thesis by blast
  next
    case (event p order)
    with event_carries [OF i inv event(2-4), of c] ok show ?thesis by (auto simp: sound_def take_event_def)
  next
    case (expiry p order)
    with expiry_carries [OF i inv expiry(2-4), of R c] ok show ?thesis by (auto simp: sound_def take_expiry_def)
  next
    case (goroutine p ws')
    with goroutine_carries [OF i inv goroutine(2,3), of R c] ok show ?thesis by (auto simp: sound_def)
  next
    case elsewhere
    have "carries R i c w w' [] [] [] []"
      by (rule carries_news [OF _ ok, where ks = "[]"]) (use elsewhere in \<open>simp_all add: cluster_view_def\<close>)
    moreover have "sound R i w'" using ok elsewhere by (simp add: sound_def)
    ultimately show ?thesis by blast
  qed
qed

end
