(* ===== verification/Follow.thy ===== *)
theory Follow
  imports Paced
begin

text \<open>
  What a client shows follows the seats along a run: the news still to come, laid over what it shows,
  give the seats as they are. When nothing is left to come it shows them. And a backlog of both
  streams can always be worked off.
\<close>

section \<open>Runs\<close>

lemma paced_run:
  assumes R: "redis R" and run: "(paced_step R allowed i c)\<^sup>*\<^sup>* w w'" and w: "sound R i w" "P w"
    and P: "\<And>x y es fs ge gf. carries R i c x y es fs ge gf \<Longrightarrow> P x \<Longrightarrow> P y"
  shows "sound R i w' \<and> P w'"
  using run
proof (induction rule: rtranclp_induct)
  case (step x y)
  then have "sound R i y" "\<exists>es fs ge gf. carries R i c x y es fs ge gf"
    using paced_step_carries [OF R _ step.hyps(2)] by blast+
  with step.IH P show ?case by blast
qed (use w in simp)

text \<open>A client that has its snapshot has it for good.\<close>

abbreviation served :: "nat \<Rightarrow> ws_world \<Rightarrow> bool" where
  "served c w \<equiv> c < length (ww_peers w) \<and> \<not> serving c w"

abbreviation ws_at :: "nat \<Rightarrow> 'r cluster \<Rightarrow> ws_world" where
  "ws_at i w \<equiv> bp_ws (cl_backends w ! i)"

lemma carries_stays:
  assumes "carries R i c w w' es fs ge gf" and "c < length (ww_peers (ws_at i w))"
  shows "c < length (ww_peers (ws_at i w'))" "serving c (ws_at i w') \<Longrightarrow> serving c (ws_at i w)"
    "live c (ws_at i w') \<Longrightarrow> (serving c (ws_at i w) \<Longrightarrow> serving c (ws_at i w')) \<Longrightarrow>
       live c (ws_at i w) \<and> sent c (ws_at i w') = sent c (ws_at i w) @ map Delta (ge @ gf)"
  using assms by (simp_all add: carries_def follows_def)

lemma served_step: "carries R i c w w' es fs ge gf \<Longrightarrow> served c (ws_at i w) \<Longrightarrow> served c (ws_at i w')"
  using carries_stays(1,2) by blast

text \<open>What a view says of a seat lacks only what is still to come.\<close>

definition tracks :: "'r redis_api \<Rightarrow> nat \<Rightarrow> nat \<Rightarrow> seat_id \<Rightarrow> (seat_id \<Rightarrow> seat_view) \<Rightarrow> 'r cluster \<Rightarrow> bool" where
  "tracks R i c s V w \<longleftrightarrow> (\<exists>es fs. labels es \<and> labels fs \<and> frees_only fs \<and> (s \<notin> seats_in es \<or> s \<notin> seats_in fs) \<and>
     map fst es = events_to R i c w \<and> map fst fs = expiries_to i c w \<and>
     cluster_view R w s = overwrite es (overwrite fs V) s)"

lemma map_fst_split: "map fst ts = ms @ ms' \<Longrightarrow> \<exists>us us'. ts = us @ us' \<and> map fst us = ms \<and> map fst us' = ms'"
  by (auto simp: map_eq_append_conv)

lemma tracks_step:
  assumes "tracks R i c s V w" and c: "carries R i c w w' es fs ge gf"
  shows "\<exists>ds. labels ds \<and> map fst ds = ge @ gf \<and> tracks R i c s (overwrite ds V) w'"
proof -
  obtain E F where EF: "labels E" "labels F" "frees_only F" "s \<notin> seats_in E \<or> s \<notin> seats_in F" "map fst E = events_to R i c w"
    "map fst F = expiries_to i c w" "cluster_view R w s = overwrite E (overwrite F V) s"
    using assms(1) by (auto simp: tracks_def)
  have ts: "labels es" "labels fs" "frees_only fs" "es = [] \<or> fs = []"
    and view: "cluster_view R w' = overwrite fs (overwrite es (cluster_view R w))" using c by (simp_all add: carries_def)
  have apart: "s \<notin> seats_in (E @ es) \<or> s \<notin> seats_in (F @ fs)"
  proof -
    have "s \<notin> seats_in es" if "s \<in> seats_in F"
    proof
      assume "s \<in> seats_in es"
      then have "cluster_view R w s \<noteq> Free"
        using c that mentions_labels [OF EF(2), of s] by (auto simp: carries_def EF(6))
      moreover have "overwrite E (overwrite F V) s = overwrite F V s"
        using EF(4) that by (intro overwrite_none) simp
      ultimately show False using EF(7) frees_only_Free [OF EF(3) that] by simp
    qed
    moreover have "s \<notin> seats_in E" if "s \<in> seats_in fs"
      using c that mentions_labels [OF EF(1), of s] by (auto simp: carries_def EF(5))
    ultimately show ?thesis using EF(4) ts(4) by auto
  qed
  obtain dE E' where E: "E @ es = dE @ E'" "map fst dE = ge" "map fst E' = events_to R i c w'"
    using map_fst_split [of "E @ es" ge "events_to R i c w'"] c by (auto simp: carries_def EF(5))
  obtain dF F' where F: "F @ fs = dF @ F'" "map fst dF = gf" "map fst F' = expiries_to i c w'"
    using map_fst_split [of "F @ fs" gf "expiries_to i c w'"] c by (auto simp: carries_def EF(6))
  have l: "labels (dE @ E')" "labels (dF @ F')" "frees_only (dF @ F')"
    using EF(1-3) ts(1-3) by (simp_all flip: E(1) F(1))
  have a: "s \<notin> seats_in (dE @ E') \<or> s \<notin> seats_in (dF @ F')" using apart by (simp only: E(1) F(1))
  have "cluster_view R w' s = overwrite fs (overwrite (E @ es) (overwrite F V)) s"
    unfolding view overwrite_simps by (intro overwrite_cong) (rule EF(7))
  also have "\<dots> = overwrite (E @ es) (overwrite (F @ fs) V) s"
    using overwrite_commute [of s fs "E @ es" "overwrite F V"] apart by auto
  also have "\<dots> = overwrite E' (overwrite dE (overwrite F' (overwrite dF V))) s"
    by (simp only: E(1) F(1) overwrite_simps)
  also have "\<dots> = overwrite E' (overwrite F' (overwrite dE (overwrite dF V))) s"
    using a by (intro overwrite_cong overwrite_commute) auto
  also have "\<dots> = overwrite E' (overwrite F' (overwrite (dE @ dF) V)) s"
    using overwrite_commute [of s dE dF V] a by (intro overwrite_cong) auto
  finally have "cluster_view R w' s = overwrite E' (overwrite F' (overwrite (dE @ dF) V)) s" .
  then have "tracks R i c s (overwrite (dE @ dF) V) w'"
    using l E(3) F(3) a unfolding tracks_def by (intro exI [of _ E'] exI [of _ F']) auto
  then show ?thesis using l E(2) F(2) by (intro exI [of _ "dE @ dF"]) simp
qed

text \<open>What is still to come changes nothing of a view that has it already.\<close>

lemma tracks_again:
  assumes "tracks R i c s V w" and W: "W s = cluster_view R w s"
  shows "tracks R i c s W w"
proof -
  obtain E F where EF: "labels E" "labels F" "frees_only F" "s \<notin> seats_in E \<or> s \<notin> seats_in F" "map fst E = events_to R i c w"
    "map fst F = expiries_to i c w" "cluster_view R w s = overwrite E (overwrite F V) s"
    using assms(1) by (auto simp: tracks_def)
  have "overwrite E (overwrite F W) s = overwrite E (overwrite F (overwrite E (overwrite F V))) s"
    by (intro overwrite_cong) (simp add: W EF(7))
  also have "\<dots> = overwrite E (overwrite E (overwrite F (overwrite F V))) s"
    by (rule overwrite_cong, rule overwrite_commute) (use EF(4) in auto)
  also have "\<dots> = overwrite E (overwrite F V) s" by simp
  finally show ?thesis using EF unfolding tracks_def by (intro exI [of _ E] exI [of _ F]) simp
qed

text \<open>And with news of the seat still to come, what the view says of it now does not matter.\<close>

lemma tracks_anyway:
  assumes "tracks R i c s V w" and "mentions s (events_to R i c w) \<or> mentions s (expiries_to i c w)"
  shows "tracks R i c s W w"
proof -
  obtain E F where EF: "labels E" "labels F" "frees_only F" "s \<notin> seats_in E \<or> s \<notin> seats_in F" "map fst E = events_to R i c w"
    "map fst F = expiries_to i c w" "cluster_view R w s = overwrite E (overwrite F V) s"
    using assms(1) by (auto simp: tracks_def)
  have "s \<in> seats_in E \<or> s \<in> seats_in F"
    using assms(2) mentions_labels [OF EF(1), of s] mentions_labels [OF EF(2), of s] by (simp add: EF(5,6))
  then have "overwrite E (overwrite F V) s = overwrite E (overwrite F W) s"
    using overwrite_known [of s E] overwrite_known [of s F V W] overwrite_none [of s E] EF(4) by metis
  with EF show ?thesis unfolding tracks_def by (intro exI [of _ E] exI [of _ F]) simp
qed

text \<open>With nothing to come the view is right.\<close>

lemma tracks_all: "tracks R i c s V w \<Longrightarrow> events_to R i c w = [] \<Longrightarrow> expiries_to i c w = [] \<Longrightarrow> V s = cluster_view R w s"
  by (auto simp: tracks_def)

lemma tracks_nothing: "events_to R i c w = [] \<Longrightarrow> expiries_to i c w = [] \<Longrightarrow> tracks R i c s (cluster_view R w) w"
  unfolding tracks_def by (intro exI [of _ "[]"]) simp

section \<open>What a client shows\<close>

text \<open>Of a client that has its snapshot, as long as its instance keeps it.\<close>

definition told :: "'r redis_api \<Rightarrow> nat \<Rightarrow> nat \<Rightarrow> seat_id \<Rightarrow> socket_state \<Rightarrow> 'r cluster \<Rightarrow> bool" where
  "told R i c s st w \<longleftrightarrow> served c (ws_at i w) \<and>
     (live c (ws_at i w) \<longrightarrow> tracks R i c s (browser_view (fold onmessage (map payload (sent c (ws_at i w))) st)) w)"

lemma told_step:
  assumes c: "carries R i c w w' es fs ge gf" and told: "told R i c s st w"
  shows "told R i c s st w'"
proof -
  have at: "served c (ws_at i w)" using told by (simp add: told_def)
  have "tracks R i c s (browser_view (fold onmessage (map payload (sent c (ws_at i w'))) st)) w'" if "live c (ws_at i w')"
  proof -
    have l: "live c (ws_at i w)" "sent c (ws_at i w') = sent c (ws_at i w) @ map Delta (ge @ gf)"
      using carries_stays(3) [OF c _ that] at by simp_all
    then have "tracks R i c s (browser_view (fold onmessage (map payload (sent c (ws_at i w))) st)) w"
      using told by (simp add: told_def)
    from tracks_step [OF this c] obtain ds where ds: "labels ds" "map fst ds = ge @ gf"
      "tracks R i c s (overwrite ds (browser_view (fold onmessage (map payload (sent c (ws_at i w))) st))) w'" by blast
    have "map payload (sent c (ws_at i w')) = map payload (sent c (ws_at i w)) @ map fst ds"
      by (simp only: l(2) ds(2) map_append payloads)
    then have "browser_view (fold onmessage (map payload (sent c (ws_at i w'))) st) =
        overwrite ds (browser_view (fold onmessage (map payload (sent c (ws_at i w))) st))"
      using fold_tells [OF labels_tell [OF ds(1)]] by simp
    with ds(3) show ?thesis by simp
  qed
  with served_step [OF c at] show ?thesis by (simp add: told_def)
qed

text \<open>The instance has passed the ends of both streams, and no broadcast is in progress.\<close>

definition caught_up :: "'r redis_api \<Rightarrow> nat \<Rightarrow> 'r cluster \<Rightarrow> bool" where
  "caught_up R i w \<longleftrightarrow> bp_events (cl_backends w ! i) = length (published R (cl_redis w)) \<and>
     bp_expiries (cl_backends w ! i) = length (cl_expired w) \<and> at_rest (bp_ws (cl_backends w ! i))"

text \<open>And nothing is waiting in the buffer of a client that stays. What the client was sent is another matter.\<close>

definition flushed :: "'r redis_api \<Rightarrow> nat \<Rightarrow> nat \<Rightarrow> 'r cluster \<Rightarrow> bool" where
  "flushed R i c w \<longleftrightarrow> caught_up R i w \<and> live c (bp_ws (cl_backends w ! i)) \<and> written c (bp_ws (cl_backends w ! i))"

lemma caught_up_nothing: "caught_up R i w \<Longrightarrow> events_to R i c w = [] \<and> expiries_to i c w = []"
  by (simp add: caught_up_def events_to_def expiries_to_def Let_def at_rest_simps)

lemma written_sent: "written c ws \<Longrightarrow> texts (pr_wire (fst (ww_peers ws ! c))) = sent c ws"
  by (simp add: written_def sent_def sent_to_def)

lemma flushed_sent: "flushed R i c w \<Longrightarrow> sent c (ws_at i w) = texts (pr_wire (fst (ww_peers (ws_at i w) ! c)))"
  by (simp add: flushed_def written_sent)

lemma told_shows:
  assumes "told R i c s st w" and "flushed R i c w"
  shows "shown_by c st (ws_at i w) s = cluster_view R w s"
proof -
  have "tracks R i c s (shown_by c st (ws_at i w)) w"
    using assms(1,2) flushed_sent [OF assms(2)] by (simp add: told_def shown_by_def flushed_def)
  then show ?thesis using assms(2) caught_up_nothing unfolding flushed_def by (blast intro: tracks_all)
qed

section \<open>While a snapshot is built\<close>

text \<open>News of seat \<open>s\<close> is on its way to client \<open>c\<close>, or was sent to it after its first \<open>n\<close> items.\<close>

definition news_of :: "'r redis_api \<Rightarrow> nat \<Rightarrow> nat \<Rightarrow> seat_id \<Rightarrow> nat \<Rightarrow> 'r cluster \<Rightarrow> bool" where
  "news_of R i c s n w \<longleftrightarrow> mentions s (deltas (drop n (sent c (ws_at i w)))) \<or>
     mentions s (events_to R i c w) \<or> mentions s (expiries_to i c w)"

text \<open>A property of a registered client whose snapshot is still being built.\<close>

definition meanwhile :: "nat \<Rightarrow> nat \<Rightarrow> nat \<Rightarrow> ('r cluster \<Rightarrow> bool) \<Rightarrow> 'r cluster \<Rightarrow> bool" where
  "meanwhile i c n P w \<longleftrightarrow> c < length (ww_peers (ws_at i w)) \<and>
     (live c (ws_at i w) \<and> serving c (ws_at i w) \<longrightarrow> n \<le> length (sent c (ws_at i w)) \<and> P w)"

lemma meanwhile_step:
  assumes c: "carries R i c w w' es fs ge gf" and m: "meanwhile i c n P w"
    and P: "P w \<Longrightarrow> (news_of R i c s n w \<Longrightarrow> news_of R i c s n w') \<Longrightarrow>
      news_of R i c s n w' \<or> cluster_view R w' s = cluster_view R w s \<Longrightarrow> P w'"
  shows "meanwhile i c n P w'"
proof -
  have at: "c < length (ww_peers (ws_at i w))" using m by (simp add: meanwhile_def)
  note stays = carries_stays [OF c at]
  show ?thesis unfolding meanwhile_def
  proof (intro conjI impI)
    assume l: "live c (ws_at i w') \<and> serving c (ws_at i w')"
    then have was: "live c (ws_at i w)" "sent c (ws_at i w') = sent c (ws_at i w) @ map Delta (ge @ gf)" "serving c (ws_at i w)"
      using stays(2,3) by blast+
    then have n: "n \<le> length (sent c (ws_at i w))" "P w" using m by (simp_all add: meanwhile_def)
    then show "n \<le> length (sent c (ws_at i w'))" by (simp add: was(2))
    have "events_to R i c w @ map fst es = ge @ events_to R i c w'" "expiries_to i c w @ map fst fs = gf @ expiries_to i c w'"
      using c by (simp_all add: carries_def)
    then have ment: "mentions s (events_to R i c w) \<or> mentions s (map fst es) \<longleftrightarrow> mentions s ge \<or> mentions s (events_to R i c w')"
      "mentions s (expiries_to i c w) \<or> mentions s (map fst fs) \<longleftrightarrow> mentions s gf \<or> mentions s (expiries_to i c w')"
      by (simp_all flip: mentions_append)
    have lab: "labels es" "labels fs" and view: "cluster_view R w' = overwrite fs (overwrite es (cluster_view R w))"
      using c by (simp_all add: carries_def)
    have news: "news_of R i c s n w' \<longleftrightarrow> news_of R i c s n w \<or> s \<in> seats_in es \<or> s \<in> seats_in fs"
      using ment n(1) unfolding news_of_def mentions_labels [OF lab(1)] mentions_labels [OF lab(2)] was(2)
      by (auto simp: map_append [symmetric] simp del: map_append)
    have "cluster_view R w' s = cluster_view R w s" if "s \<notin> seats_in es" "s \<notin> seats_in fs"
      by (simp add: view overwrite_none that)
    with news show "P w'" by (intro P [OF n(2)]) blast+
  qed (rule stays(1))
qed

text \<open>Without news a seat is as it was; and news does not get lost.\<close>

lemma build_view:
  assumes R: "redis R" and wd: "sound R i wd" "c < length (ww_peers (ws_at i wd))"
    and run: "(paced_step R allowed i c)\<^sup>*\<^sup>* wd x" "(paced_step R allowed i c)\<^sup>*\<^sup>* x we"
    and we: "live c (ws_at i we)" "serving c (ws_at i we)"
    and none: "\<not> news_of R i c s (length (sent c (ws_at i wd))) we"
  shows "cluster_view R x s = cluster_view R wd s"
proof (rule ccontr)
  let ?n = "length (sent c (ws_at i wd))"
  assume changed: "cluster_view R x s \<noteq> cluster_view R wd s"
  let ?P = "\<lambda>w. cluster_view R w s = cluster_view R wd s \<or> news_of R i c s ?n w"
  have "meanwhile i c ?n ?P wd" using wd(2) by (simp add: meanwhile_def)
  then have x: "sound R i x \<and> meanwhile i c ?n ?P x"
    by (rule paced_run [OF R run(1) wd(1)]) (erule (1) meanwhile_step [where s = s], auto)
  with changed have "meanwhile i c ?n (news_of R i c s ?n) x" by (simp add: meanwhile_def)
  with x have "sound R i we \<and> meanwhile i c ?n (news_of R i c s ?n) we"
    using paced_run [OF R run(2), where P = "meanwhile i c ?n (news_of R i c s ?n)"] meanwhile_step [where s = s] by blast
  with we none show False by (simp add: meanwhile_def)
qed

text \<open>
  Then a snapshot says what the seat is, or what it says is put right by what is still to come.
\<close>

lemma snapshot_told:
  assumes ok: "sound R i w" and tr: "tracks R i c s V w" and waits: "awaits_snapshot c (ws_at i w)"
    and snap: "\<And>st'. live c (ws_at i w) \<Longrightarrow> tracks R i c s (browser_view (onmessage (marshal_snapshot snap) st')) w"
  shows "told R i c s st (serve_snapshot i c (Inr snap) w)"
proof -
  let ?ws = "ws_at i w" and ?w = "serve_snapshot i c (Inr snap) w"
  have i: "i < length (cl_backends w)" and inv: "ws_inv ?ws" using ok by (simp_all add: sound_def)
  note a = awaits_served [OF inv waits, of "marshal_snapshot snap"]
  have ws: "ws_at i ?w = put_client c (Serve_snapshot (map_sum id Snap (Inr (marshal_snapshot snap))) (get_client c ?ws)) ?ws"
    using i by (simp add: serve_snapshot_def Let_def)
  have same: "owed g c (ws_at i ?w) = owed g c ?ws" for g unfolding ws by (rule owed_cong [OF a(5,4)])
  have "events_to R i c ?w = events_to R i c w" "expiries_to i c ?w = expiries_to i c w" "cluster_view R ?w = cluster_view R w"
    using i same by (simp_all add: serve_snapshot_def Let_def events_to_def expiries_to_def cluster_view_def)
  then have "tracks R i c s W ?w" if "tracks R i c s W w" for W using that by (simp add: tracks_def)
  then show ?thesis using a(1,2,6) snap unfolding told_def ws a(3) by simp
qed

lemma serve_snapshot_step:
  assumes inv: "ws_inv (ws_at i w)" and waits: "awaits_snapshot c (ws_at i w)"
  shows "paced_step R allowed i a w (serve_snapshot i c (Inr snap) w)"
  unfolding serve_snapshot_def Let_def
proof (rule paced_step.goroutine [OF refl], unfold inner_step_def, intro conjI)
  show "ws_step allowed (ws_at i w) (put_client c (Serve_snapshot (map_sum id (Snap \<circ> marshal_snapshot) (Inr snap))
      (get_client c (ws_at i w))) (ws_at i w))"
    using waits ws_step.serve [of c "ws_at i w" allowed "Inr (marshal_snapshot snap)"] by (simp add: awaits_snapshot_def)
qed (simp add: awaits_served(4) [OF inv waits, simplified])

text \<open>The main argument: to the build, through it, and from it.\<close>

lemma snapshot_view:
  assumes R: "redis R" and w0: "sound R i w0" "caught_up R i w0"
    and run: "(paced_step R allowed i c)\<^sup>*\<^sup>* w0 wd" and joined: "c < length (ww_peers (ws_at i wd))"
    and build: "(paced_step R allowed i c)\<^sup>*\<^sup>* wd we" and waits: "awaits_snapshot c (ws_at i we)"
    and snap: "\<And>st'. (\<And>x. (paced_step R allowed i c)\<^sup>*\<^sup>* wd x \<Longrightarrow> (paced_step R allowed i c)\<^sup>*\<^sup>* x we \<Longrightarrow>
        cluster_view R x s = cluster_view R wd s) \<Longrightarrow>
      browser_view (onmessage (marshal_snapshot snap) st') s = cluster_view R wd s"
    and unsent: "\<not> mentions s (deltas (drop (length (sent c (ws_at i wd))) (sent c (ws_at i we))))"
    and run': "(paced_step R allowed i c)\<^sup>*\<^sup>* (serve_snapshot i c (Inr snap) we) w'" and fin: "flushed R i c w'"
  shows "shown_by c st (ws_at i w') s = cluster_view R w' s"
proof -
  have start: "\<exists>V. tracks R i c s V w0" using tracks_nothing caught_up_nothing [OF w0(2)] by blast
  have keep: "sound R i y \<and> (\<exists>V. tracks R i c s V y)"
    if "(paced_step R allowed i c)\<^sup>*\<^sup>* x y" "sound R i x" "\<exists>V. tracks R i c s V x" for x y
    by (rule paced_run [OF R that(1,2), where P = "\<lambda>w. \<exists>V. tracks R i c s V w"], rule that(3))
      (elim exE, drule (1) tracks_step, blast)
  note wd = keep [OF run w0(1) start]
  from keep [OF build] wd obtain V where V: "sound R i we" "tracks R i c s V we" by blast
  have inv: "ws_inv (ws_at i we)" using V(1) by (simp add: sound_def)
  have here: "serving c (ws_at i we)" using waits by (simp add: awaits_snapshot_def)
  have "tracks R i c s (browser_view (onmessage (marshal_snapshot snap) st')) we" if l: "live c (ws_at i we)" for st'
  proof (cases "news_of R i c s (length (sent c (ws_at i wd))) we")
    case True
    with unsent show ?thesis by (intro tracks_anyway [OF V(2)]) (simp add: news_of_def)
  next
    case False
    have "cluster_view R x s = cluster_view R wd s"
      if "(paced_step R allowed i c)\<^sup>*\<^sup>* wd x" "(paced_step R allowed i c)\<^sup>*\<^sup>* x we" for x
      using build_view [OF R _ joined that l here False] wd by blast
    note same = this
    have "browser_view (onmessage (marshal_snapshot snap) st') s = cluster_view R we s"
      by (simp only: snap [OF same] same [OF build rtranclp.rtrancl_refl])
    then show ?thesis by (rule tracks_again [OF V(2)])
  qed
  then have told: "told R i c s st (serve_snapshot i c (Inr snap) we)" by (rule snapshot_told [OF V waits])
  have "sound R i (serve_snapshot i c (Inr snap) we)"
    using paced_step_carries [OF R V(1) serve_snapshot_step [OF inv waits]] by blast
  from paced_run [OF R run' this, where P = "told R i c s st"] told told_step have "told R i c s st w'" by blast
  then show ?thesis by (rule told_shows [OF _ fin])
qed

text \<open>A message on its way reaches a client that stays, after the first \<open>n\<close> items it was sent.\<close>

definition arrives :: "'r redis_api \<Rightarrow> nat \<Rightarrow> nat \<Rightarrow> nat \<Rightarrow> json \<Rightarrow> 'r cluster \<Rightarrow> bool" where
  "arrives R i c n m w \<longleftrightarrow> served c (ws_at i w) \<and>
     (live c (ws_at i w) \<longrightarrow> n \<le> length (sent c (ws_at i w)) \<and>
       (m \<in> set (events_to R i c w) \<or> Delta m \<in> set (drop n (sent c (ws_at i w)))))"

lemma arrives_step:
  assumes c: "carries R i c w w' es fs ge gf" and a: "arrives R i c n m w"
  shows "arrives R i c n m w'"
proof -
  have at: "served c (ws_at i w)" using a by (simp add: arrives_def)
  have "set (events_to R i c w) \<subseteq> set ge \<union> set (events_to R i c w')"
  proof -
    have "set (events_to R i c w @ map fst es) = set (ge @ events_to R i c w')" using c unfolding carries_def by simp
    then show ?thesis by auto
  qed
  with served_step [OF c at] a carries_stays(3) [OF c] at show ?thesis by (auto simp: arrives_def)
qed

lemma arrived: "arrives R i c n m w \<Longrightarrow> flushed R i c w \<Longrightarrow>
    Delta m \<in> set (drop n (texts (pr_wire (fst (ww_peers (bp_ws (cl_backends w ! i)) ! c)))))"
  using flushed_sent [of R i c w] caught_up_nothing [of R i w] by (auto simp: arrives_def flushed_def)

section \<open>A backlog can be worked off\<close>

text \<open>Steps of the instance alone: they deliver, and news is neither published nor expires.\<close>

definition delivers :: "'r redis_api \<Rightarrow> string \<Rightarrow> nat \<Rightarrow> nat \<Rightarrow> 'r cluster \<Rightarrow> 'r cluster \<Rightarrow> bool" where
  "delivers R allowedOrigin i c w w' \<longleftrightarrow> paced_step R allowedOrigin i c w w' \<and> (\<exists>ge gf. carries R i c w w' [] [] ge gf)"

text \<open>Between two states, the messages that client \<open>c\<close> was sent are those that were to come and no longer are.\<close>

definition delivered :: "'r redis_api \<Rightarrow> nat \<Rightarrow> nat \<Rightarrow> 'r cluster \<Rightarrow> 'r cluster \<Rightarrow> bool" where
  "delivered R i c w w' \<longleftrightarrow> (\<exists>ge gf ms. events_to R i c w = ge @ events_to R i c w' \<and> expiries_to i c w = gf @ expiries_to i c w' \<and>
     ms \<in> shuffles ge gf \<and> sent c (ws_at i w') = sent c (ws_at i w) @ map Delta ms)"

lemma shuffles_append: "xs \<in> shuffles as bs \<Longrightarrow> ys \<in> shuffles as' bs' \<Longrightarrow> xs @ ys \<in> shuffles (as @ as') (bs @ bs')"
proof (induction as bs arbitrary: xs rule: shuffles.induct)
  case (2 as)
  have "as @ ys \<in> shuffles (as @ as') bs'" using 2(2) by (induction as) (auto intro: Cons_in_shuffles_leftI)
  with 2 show ?case by simp
next
  case (1 bs)
  have "bs @ ys \<in> shuffles as' (bs @ bs')" using 1(2) by (induction bs) (auto intro: Cons_in_shuffles_rightI)
  with 1 show ?case by simp
qed (auto intro: Cons_in_shuffles_leftI Cons_in_shuffles_rightI)

lemma delivered_trans: "delivered R i c w x \<Longrightarrow> delivered R i c x y \<Longrightarrow> delivered R i c w y"
  unfolding delivered_def
proof (elim exE conjE)
  fix ge gf ms ge' gf' ms'
  assume "events_to R i c w = ge @ events_to R i c x" "expiries_to i c w = gf @ expiries_to i c x" "ms \<in> shuffles ge gf"
    "sent c (ws_at i x) = sent c (ws_at i w) @ map Delta ms"
    "events_to R i c x = ge' @ events_to R i c y" "expiries_to i c x = gf' @ expiries_to i c y" "ms' \<in> shuffles ge' gf'"
    "sent c (ws_at i y) = sent c (ws_at i x) @ map Delta ms'"
  then show "\<exists>ge gf ms. events_to R i c w = ge @ events_to R i c y \<and> expiries_to i c w = gf @ expiries_to i c y \<and>
      ms \<in> shuffles ge gf \<and> sent c (ws_at i y) = sent c (ws_at i w) @ map Delta ms"
    by (intro exI [of _ "ge @ ge'"] exI [of _ "gf @ gf'"] exI [of _ "ms @ ms'"]) (simp add: shuffles_append)
qed

lemma delivers_run:
  assumes "(delivers R allowed i c)\<^sup>*\<^sup>* w w'" and "c < length (ww_peers (ws_at i w))"
  shows "c < length (ww_peers (ws_at i w')) \<and> (serving c (ws_at i w') \<longrightarrow> serving c (ws_at i w)) \<and>
    (live c (ws_at i w') \<and> (serving c (ws_at i w) \<longrightarrow> serving c (ws_at i w')) \<longrightarrow> live c (ws_at i w) \<and> delivered R i c w w')"
  using assms(1)
proof (induction rule: rtranclp_induct)
  case base
  have "delivered R i c w w" unfolding delivered_def by (intro exI [of _ "[]"]) simp
  with assms(2) show ?case by blast
next
  case (step x y)
  obtain ge gf where c: "carries R i c x y [] [] ge gf" using step.hyps(2) by (auto simp: delivers_def)
  have x: "c < length (ww_peers (ws_at i x))" using step.IH by blast
  note stays = carries_stays [OF c x]
  have "delivered R i c x y" if "live c (ws_at i y)" "serving c (ws_at i x) \<longrightarrow> serving c (ws_at i y)"
  proof -
    have "ge @ gf \<in> shuffles ge gf" using c by (auto simp: carries_def)
    with c stays(3) [OF that(1)] that(2) show ?thesis
      unfolding delivered_def carries_def by (intro exI [of _ ge] exI [of _ gf] exI [of _ "ge @ gf"]) simp
  qed
  with stays step.IH show ?case by (blast intro: delivered_trans)
qed

lemma inner_run:
  fixes w :: "'r cluster"
  assumes i: "i < length (cl_backends w)" and inv: "ws_inv (ws_at i w)" and run: "(inner_step allowed)\<^sup>*\<^sup>* (ws_at i w) ws"
  shows "(delivers R allowed i c)\<^sup>*\<^sup>* w (set_backend i ((cl_backends w ! i)\<lparr>bp_ws := ws\<rparr>) w)"
proof -
  let ?S = "\<lambda>x y. ws_inv (ws_at i x) \<longrightarrow> delivers R allowed i c x y \<and> ws_inv (ws_at i y)"
  have "?S\<^sup>*\<^sup>* w (set_backend i ((cl_backends w ! i)\<lparr>bp_ws := ws\<rparr>) w)"
  proof (rule inner_lift [where allowed = allowed, OF _ i run])
    fix x :: "'r cluster" and ws' assume x: "i < length (cl_backends x)" "inner_step allowed (ws_at i x) ws'"
    show "?S x (set_backend i ((cl_backends x ! i)\<lparr>bp_ws := ws'\<rparr>) x)"
      using goroutine_carries [OF x(1) _ refl x(2), of R c] paced_step.goroutine [OF refl x(2), of R c] x(1)
      by (simp add: delivers_def)
  qed
  then have "(delivers R allowed i c)\<^sup>*\<^sup>* w (set_backend i ((cl_backends w ! i)\<lparr>bp_ws := ws\<rparr>) w) \<and>
      ws_inv (ws_at i (set_backend i ((cl_backends w ! i)\<lparr>bp_ws := ws\<rparr>) w))"
    by (induction rule: rtranclp_induct) (auto simp: inv)
  then show ?thesis by blast
qed

lemma relay_one:
  assumes "ws_inv (bp_ws p)" and "alive c (bp_ws p)"
  shows "ready Events_loop order p \<Longrightarrow> ws_inv (handle_event order m (bp_ws p)) \<and> alive c (handle_event order m (bp_ws p)) \<and>
      serving c (handle_event order m (bp_ws p)) = serving c (bp_ws p)"
    "ready Expiry_loop order p \<Longrightarrow> ws_inv (handle_expiry order inst k (bp_ws p)) \<and>
       alive c (handle_expiry order inst k (bp_ws p)) \<and> serving c (handle_expiry order inst k (bp_ws p)) = serving c (bp_ws p)"
proof -
  have start: "ws_inv (broadcast_begin g m order (bp_ws p)) \<and> alive c (broadcast_begin g m order (bp_ws p)) \<and>
      serving c (broadcast_begin g m order (bp_ws p)) = serving c (bp_ws p)"
    if "ready g order p" for g m
    using assms begin_inv [OF assms(1), of g order] begin_live [OF assms(1), of g] that
    by (simp add: ready_def alive_def)
  show "ready Events_loop order p \<Longrightarrow> ws_inv (handle_event order m (bp_ws p)) \<and> alive c (handle_event order m (bp_ws p)) \<and>
      serving c (handle_event order m (bp_ws p)) = serving c (bp_ws p)"
    using assms start by (simp add: handle_event_def split: option.split)
  show "ready Expiry_loop order p \<Longrightarrow> ws_inv (handle_expiry order inst k (bp_ws p)) \<and>
       alive c (handle_expiry order inst k (bp_ws p)) \<and> serving c (handle_expiry order inst k (bp_ws p)) = serving c (bp_ws p)"
    using assms start by (simp add: handle_expiry_def split: prod.split)
qed

definition backlog :: "'r redis_api \<Rightarrow> nat \<Rightarrow> 'r cluster \<Rightarrow> nat" where
  "backlog R i w = (length (published R (cl_redis w)) - bp_events (cl_backends w ! i)) +
     (length (cl_expired w) - bp_expiries (cl_backends w ! i))"

text \<open>One more message of either stream, once the instance is at rest.\<close>

lemma relay_step:
  assumes i: "i < length (cl_backends w)" and p: "p = cl_backends w ! i" "ws_inv (bp_ws p)" "alive c (bp_ws p)" "at_rest (bp_ws p)"
    and le: "bp_events p \<le> length (published R (cl_redis w))" "bp_expiries p \<le> length (cl_expired w)" and more: "backlog R i w \<noteq> 0"
  shows "\<exists>q. delivers R allowed i c w (set_backend i q w) \<and> ws_inv (bp_ws q) \<and> alive c (bp_ws q) \<and>
    serving c (bp_ws q) = serving c (bp_ws p) \<and>
    bp_events q \<le> length (published R (cl_redis w)) \<and> bp_expiries q \<le> length (cl_expired w) \<and>
    backlog R i (set_backend i q w) < backlog R i w"
proof -
  let ?order = "hb_clients (ww_hub (bp_ws p))"
  have ready: "ready g ?order p" for g using p(4) by (simp add: ready_def at_rest_simps)
  show ?thesis
  proof (cases "bp_events p < length (published R (cl_redis w))")
    case True
    let ?q = "take_event R (cl_redis w) ?order p"
    have "delivers R allowed i c w (set_backend i ?q w)"
      using paced_step.event [OF p(1) True ready] event_carries [OF i p(2,1) True ready] by (simp add: delivers_def)
    then show ?thesis
      using i True le relay_one(1) [OF p(2,3) ready] by (intro exI [of _ ?q]) (simp add: take_event_def backlog_def flip: p(1))
  next
    case False
    then have more': "bp_expiries p < length (cl_expired w)" using more le by (simp add: backlog_def flip: p(1))
    let ?q = "take_expiry (cl_expired w) ?order p"
    have "delivers R allowed i c w (set_backend i ?q w)"
      using paced_step.expiry [OF p(1) more' ready] expiry_carries [OF i p(2,1) more' ready] by (simp add: delivers_def)
    then show ?thesis
      using i more' le relay_one(2) [OF p(2,3) ready] by (intro exI [of _ ?q]) (simp add: take_expiry_def backlog_def flip: p(1))
  qed
qed

lemma set_backend_twice [simp]: "set_backend i p (set_backend i q w) = set_backend i p w"
  by (simp add: set_backend_def)

lemma drain:
  assumes "i < length (cl_backends w)" and "ws_inv (bp_ws (cl_backends w ! i))" and "alive c (bp_ws (cl_backends w ! i))"
    and "bp_events (cl_backends w ! i) \<le> length (published R (cl_redis w))"
    and "bp_expiries (cl_backends w ! i) \<le> length (cl_expired w)"
  shows "\<exists>p. (delivers R allowed i c)\<^sup>*\<^sup>* w (set_backend i p w) \<and> flushed R i c (set_backend i p w) \<and> alive c (bp_ws p) \<and>
    serving c (bp_ws p) = serving c (bp_ws (cl_backends w ! i))"
  using assms
proof (induction "backlog R i w" arbitrary: w rule: less_induct)
  case less
  obtain ws where ws: "(inner_step allowed)\<^sup>*\<^sup>* (bp_ws (cl_backends w ! i)) ws" "ws_inv ws" "alive c ws" "written c ws" "at_rest ws"
    "serving c ws = serving c (bp_ws (cl_backends w ! i))"
    using ws_drain [OF less.prems(2,3), of allowed] by blast
  let ?p = "(cl_backends w ! i)\<lparr>bp_ws := ws\<rparr>"
  let ?w = "set_backend i ?p w"
  have run: "(delivers R allowed i c)\<^sup>*\<^sup>* w ?w" by (rule inner_run [OF less.prems(1,2) ws(1)])
  have same: "backlog R i ?w = backlog R i w" using less.prems(1) by (simp add: backlog_def)
  show ?case
  proof (cases "backlog R i w = 0")
    case True
    then have "flushed R i c ?w"
      using less.prems ws by (simp add: flushed_def caught_up_def alive_def backlog_def)
    with run ws(3,6) show ?thesis by (intro exI [of _ ?p]) simp
  next
    case False
    have "\<exists>q. delivers R allowed i c ?w (set_backend i q ?w) \<and> ws_inv (bp_ws q) \<and> alive c (bp_ws q) \<and>
        serving c (bp_ws q) = serving c (bp_ws ?p) \<and>
        bp_events q \<le> length (published R (cl_redis ?w)) \<and> bp_expiries q \<le> length (cl_expired ?w) \<and>
        backlog R i (set_backend i q ?w) < backlog R i ?w"
      by (rule relay_step [where p = ?p]) (use less.prems ws False same in simp_all)
    then obtain q where q: "delivers R allowed i c ?w (set_backend i q w)" "ws_inv (bp_ws q)" "alive c (bp_ws q)"
      "bp_events q \<le> length (published R (cl_redis w))" "bp_expiries q \<le> length (cl_expired w)"
      "backlog R i (set_backend i q w) < backlog R i w" "serving c (bp_ws q) = serving c (bp_ws (cl_backends w ! i))"
      unfolding same by (auto simp: ws(6))
    obtain p where "(delivers R allowed i c)\<^sup>*\<^sup>* (set_backend i q w) (set_backend i p w)"
      "flushed R i c (set_backend i p w)" "alive c (bp_ws p)" "serving c (bp_ws p) = serving c (bp_ws (cl_backends w ! i))"
      using less.hyps [OF q(6)] q(2-5,7) less.prems(1) by auto
    with rtranclp.rtrancl_into_rtrancl [of "delivers R allowed i c", OF run q(1)] show ?thesis
      by (blast intro: rtranclp_trans)
  qed
qed

lemma delivers_paced: "(delivers R allowed i c)\<^sup>*\<^sup>* w w' \<Longrightarrow> (paced_step R allowed i c)\<^sup>*\<^sup>* w w'"
  by (erule rtranclp_mono [THEN predicate2D, rotated]) (auto simp: delivers_def)

lemma sound_drain:
  assumes "sound R i w" and "alive c (bp_ws (cl_backends w ! i))"
  obtains p where "(paced_step R allowed i c)\<^sup>*\<^sup>* w (set_backend i p w)" "flushed R i c (set_backend i p w)" "alive c (bp_ws p)"
  using drain [of i w c R allowed] delivers_paced assms unfolding sound_def by blast

section \<open>Runs of the cluster\<close>

lemma paced_step_cluster:
  assumes R: "redis R" and step: "paced_step R allowed i c w w'" and i: "i < length (cl_backends w)"
    and co: "coherent R (cl_redis w, cl_db w)"
  shows "cluster_step R allowed w w'"
  using step
proof cases
  case (hold j sv nets s now u r' res)
  from cluster_step.environment [OF Hold_news(1) [OF R co hold(4-6,10)],
      where allowedOrigin = allowed and d' = "cl_db w" and ks = "[]"]
  show ?thesis by (simp add: hold(1))
next
  case (confirm j sv nets s u r' d' res)
  from cluster_step.environment [OF Confirm_news(1) [OF R co confirm(4-6,8)],
      where allowedOrigin = allowed and d' = d' and ks = "[]"]
  show ?thesis by (simp add: confirm(1))
next
  case (elapse r' ms ks)
  have "rd_log R r' = rd_log R (cl_redis w) @ []" by (simp add: elapse(2) redis.elapse_log [OF R])
  from cluster_step.environment [OF this, where allowedOrigin = allowed and d' = "cl_db w" and ks = ks]
  show ?thesis by (simp add: elapse(1))
next
  case (event p order)
  show ?thesis unfolding event(1) by (rule cluster_step.event [OF i event(2-4)])
next
  case (expiry p order)
  show ?thesis unfolding expiry(1) by (rule cluster_step.expiry [OF i expiry(2-4)])
next
  case (goroutine p ws')
  show ?thesis unfolding goroutine(1) by (rule cluster_step.goroutine [OF i goroutine(2,3)])
qed simp

lemma paced_run_reachable:
  assumes R: "redis R" and run: "(paced_step R allowed i c)\<^sup>*\<^sup>* w w'"
    and reach: "cluster_reachable R allowed w" and ok: "sound R i w"
  shows "cluster_reachable R allowed w' \<and> sound R i w'"
  using run
proof (induction rule: rtranclp_induct)
  case (step x y)
  have "cluster_step R allowed x y"
    by (rule paced_step_cluster [OF R step.hyps(2)]) (use step.IH in \<open>simp_all add: sound_def\<close>)
  with step.IH paced_step_carries [OF R _ step.hyps(2)] show ?case by (blast intro: cluster_reachable.step)
qed (use reach ok in simp)

end
