(* ===== verification/Convergence.thy ===== *)
theory Convergence
  imports Follow
begin

text \<open>
  What browsers on any instance show: every client is sent the whole stream, browsers converge on
  what the system knows once all is delivered, and where they do not. On a cluster of two instances.
\<close>

section \<open>Two instances\<close>

definition sample_backend :: "string \<Rightarrow> ws_world \<Rightarrow> backend_proc" where
  "sample_backend inst ws = \<lparr>bp_service = sample_service\<lparr>sv_instanceID := inst\<rparr>, bp_events = 0, bp_expiries = 0,
     bp_ws = ws, bp_joined = 0, bp_joined_expiries = 0, bp_missed = False\<rparr>"

text \<open>Seat 1 is held, and a browser has just connected to the second instance.\<close>

definition sample_cluster :: "mem_state cluster" where
  "sample_cluster = \<lparr>cl_redis = held_redis, cl_db = sample_db, cl_expired = [],
     cl_backends = [sample_backend ''b1'' ws_start, sample_backend ''b2'' (connect ws_start)]\<rparr>"

lemma published_held [simp]: "published mem_redis held_redis = []"
  by (simp add: published_def mem_defs held_redis_def)

lemma sample_cluster_reachable: "cluster_reachable mem_redis allowed sample_cluster"
proof -
  let ?w = "\<lambda>bs. \<lparr>cl_redis = held_redis, cl_db = sample_db, cl_expired = [], cl_backends = bs\<rparr>"
  let ?b = "\<lambda>inst. sample_backend inst ws_start"
  have "cluster_reachable mem_redis allowed (?w [])" by (rule cluster_reachable.start) simp
  then have "cluster_reachable mem_redis allowed (?w [?b ''b1''])"
    by (rule cluster_reachable.step)
      (use cluster_step.start_backend [of mem_redis allowed "?w []" "bp_service (?b ''b1'')"] in
        \<open>simp add: new_backend_def sample_backend_def\<close>)
  then have "cluster_reachable mem_redis allowed (?w [?b ''b1'', ?b ''b2''])"
    by (rule cluster_reachable.step)
      (use cluster_step.start_backend [of mem_redis allowed "?w [?b ''b1'']" "bp_service (?b ''b2'')"] in
        \<open>simp add: new_backend_def sample_backend_def\<close>)
  moreover have "cluster_step mem_redis allowed (?w [?b ''b1'', ?b ''b2'']) sample_cluster"
  proof -
    have "inner_step allowed ws_start (connect ws_start)"
      using ws_step.upgrade [where origin = "[]" and w = ws_start and allowedOrigin = allowed]
      by (simp add: inner_step_def CheckOrigin_def connect_def Let_def)
    then show ?thesis
      using cluster_step.goroutine [of 1 "?w [?b ''b1'', ?b ''b2'']" "?b ''b2''" allowed "connect ws_start" mem_redis]
      by (simp add: set_backend_def sample_cluster_def sample_backend_def)
  qed
  ultimately show ?thesis by (rule cluster_reachable.step)
qed

lemmas ws_sample_defs = connect_def ws_start_def NewHub_def add_def make_chan_def new_peer_def Let_def
  found_stuck_def

lemma sample_awaits: "awaits_snapshot 0 (bp_ws (cl_backends sample_cluster ! 1))"
  by (simp add: sample_cluster_def sample_backend_def awaits_snapshot_def full_def sendBufferSize_def ws_sample_defs)

lemma sample_alive: "alive 0 (bp_ws (cl_backends sample_cluster ! 1))"
  by (simp add: sample_cluster_def sample_backend_def alive_def live_def ws_sample_defs)

lemma sample_cluster_simps [simp]:
  "cl_redis sample_cluster = held_redis" "cl_db sample_cluster = sample_db" "cl_expired sample_cluster = []"
  "length (cl_backends sample_cluster) = 2"
  "bp_events (cl_backends sample_cluster ! 1) = 0" "bp_events (cl_backends sample_cluster ! Suc 0) = 0"
  "bp_expiries (cl_backends sample_cluster ! 1) = 0" "bp_expiries (cl_backends sample_cluster ! Suc 0) = 0"
  "bp_ws (cl_backends sample_cluster ! 1) = connect ws_start"
  "bp_ws (cl_backends sample_cluster ! Suc 0) = connect ws_start"
  "cl_backends sample_cluster ! 0 = sample_backend ''b1'' ws_start"
  by (simp_all add: sample_cluster_def sample_backend_def)

lemma connect_simps [simp]:
  "alive 0 (connect ws_start)" "live 0 (connect ws_start)" "written 0 (connect ws_start)" "at_rest (connect ws_start)"
  "hb_clients (ww_hub (connect ws_start)) = [0]" "sent 0 (connect ws_start) = []"
  by (simp_all add: alive_def live_def written_def sent_def sent_to_def at_rest_def ws_sample_defs)

lemma connected_inv [simp]: "ws_inv (connect ws_start)"
  by (rule ws_reachable_inv [OF connected_reachable])

text \<open>A hold on the first instance, seen by the browser of the second.\<close>

definition sample_hold_redis :: mem_state where
  "sample_hold_redis = fst (Hold mem_redis sample_service ok_hold 0 2 ''bob'' held_redis)"

definition sample_held_event :: seat_event where
  "sample_held_event = held_event sample_service 2 ''bob'' (unix_milli (time_add 0 (120 * second)))"

lemma sample_ttl_fields: "sv_holdTTL sample_service = 120 * second" "sv_instanceID sample_service = ''b1''"
  by (simp_all add: sample_service_def)

lemma sample_service_b1 [simp]: "bp_service (sample_backend ''b1'' ws) = sample_service"
  by (simp add: sample_backend_def sample_service_def)

lemma sample_publish: "hn_publish ok_hold = Answered 0"
  by (simp add: ok_hold_def)

lemma sample_event_ok: "event_ok sample_held_event"
proof -
  have "sint (120 * second) = 120000000000" by (simp add: second_def)
  then show ?thesis
    by (simp add: sample_held_event_def held_event_def event_ok_def int_range_def unix_milli_def time_add_def)
qed

lemma sample_hold_news:
  "published mem_redis sample_hold_redis = [marshal_event sample_held_event]"
  "view mem_redis (sample_hold_redis, sample_db) = (view mem_redis (held_redis, sample_db))(2 := HeldBy ''bob'')"
  "coherent mem_redis (sample_hold_redis, sample_db)"
proof -
  have c: "hold_clean ok_hold" "hn_publish ok_hold = Answered 0" "0 < int_seconds (sv_holdTTL sample_service)"
    using sample_ttl by (simp_all add: sample_publish)
  have run: "Hold mem_redis sample_service ok_hold 0 2 ''bob'' held_redis =
      (sample_hold_redis, snd (Hold mem_redis sample_service ok_hold 0 2 ''bob'' held_redis))"
    by (simp add: sample_hold_redis_def)
  have n: "hold_news mem_redis sample_service 0 2 ''bob'' held_redis =
      [(marshal_event sample_held_event, 2, HeldBy ''bob'')]"
    by (simp add: hold_news_def sample_held_event_def sample_ttl_fields)
  note h = Hold_news [OF mem.redis_axioms sample_coherent(2) c run, unfolded n]
  show "published mem_redis sample_hold_redis = [marshal_event sample_held_event]"
    using published_news [of mem_redis sample_hold_redis held_redis "[(marshal_event sample_held_event, 2, HeldBy ''bob'')]"] h(1)
    by simp
  show "view mem_redis (sample_hold_redis, sample_db) = (view mem_redis (held_redis, sample_db))(2 := HeldBy ''bob'')"
    using h(2) by simp
  show "coherent mem_redis (sample_hold_redis, sample_db)" by (rule h(3))
qed

lemma sample_snapshot:
  "\<exists>snap. BuildSnapshot mem_redis sample_server (sample_call held_redis) sample_db = Some (Inr snap) \<and> sn_RedisHealthy snap"
proof -
  have "\<And>i. ce_trips (sample_call held_redis) i = Some (\<lambda>_. held_redis, (\<lambda>_ _. 0) i)" "canonical_holds mem_redis held_redis"
    "wf_db sample_db" "only_event (Event_ID (srv_Event sample_server)) sample_db"
    "ce_pg (sample_call held_redis) = Pg_ok" "iterates (sample_call held_redis)"
    using sample_quiet by (simp_all add: quiet_def)
  from BuildSnapshot_live [OF mem.redis_axioms this] show ?thesis by blast
qed

lemma sample_served:
  "ws_inv (bp_ws (cl_backends (serve_snapshot 1 0 (Inr snap) sample_cluster) ! 1))"
  "alive 0 (bp_ws (cl_backends (serve_snapshot 1 0 (Inr snap) sample_cluster) ! 1))"
  "\<not> pr_serving (fst (ww_peers (bp_ws (cl_backends (serve_snapshot 1 0 (Inr snap) sample_cluster) ! 1)) ! 0))"
  "cl_redis (serve_snapshot 1 0 (Inr snap) sample_cluster) = held_redis" "cl_db (serve_snapshot 1 0 (Inr snap) sample_cluster) = sample_db"
  "length (cl_backends (serve_snapshot 1 0 (Inr snap) sample_cluster)) = 2"
  "bp_service (cl_backends (serve_snapshot 1 0 (Inr snap) sample_cluster) ! 0) = sample_service"
  "bp_events (cl_backends (serve_snapshot 1 0 (Inr snap) sample_cluster) ! 1) = 0"
  "cl_expired (serve_snapshot 1 0 (Inr snap) sample_cluster) = []"
proof -
  have w: "bp_ws (cl_backends (serve_snapshot 1 0 (Inr snap) sample_cluster) ! 1) = put_client 0 (Serve_snapshot
      (map_sum id Snap (Inr (marshal_snapshot snap))) (get_client 0 (connect ws_start))) (connect ws_start)"
    by (simp add: serve_snapshot_def Let_def)
  then show "ws_inv (bp_ws (cl_backends (serve_snapshot 1 0 (Inr snap) sample_cluster) ! 1))"
    "alive 0 (bp_ws (cl_backends (serve_snapshot 1 0 (Inr snap) sample_cluster) ! 1))"
    "\<not> pr_serving (fst (ww_peers (bp_ws (cl_backends (serve_snapshot 1 0 (Inr snap) sample_cluster) ! 1)) ! 0))"
    using served_alive [OF connected_inv, of 0] awaits_served(2) [OF connected_inv, of 0] sample_awaits
    by (simp_all del: One_nat_def)
qed (simp_all add: serve_snapshot_def Let_def set_backend_def)

text \<open>The hold on seat 1 runs out, then bob takes the seat.\<close>

definition lapsed_redis :: mem_state where
  "lapsed_redis = rd_elapse mem_redis held_redis 120000"

definition bob_redis :: mem_state where
  "bob_redis = fst (Hold mem_redis sample_service ok_hold 0 1 ''bob'' (lapsed_redis))"

definition bob_event :: seat_event where
  "bob_event = held_event sample_service 1 ''bob'' (unix_milli (time_add 0 (120 * second)))"

lemma bob_event_ok: "event_ok bob_event"
  using sample_event_ok by (simp add: bob_event_def sample_held_event_def event_ok_def held_event_def int_range_def)

lemma expired_redis:
  "seat_holder mem_redis (lapsed_redis) s = None"
  "seat_marker mem_redis (lapsed_redis) s = None"
  "rd_log mem_redis (lapsed_redis) = []"
  by (simp_all add: seat_views lapsed_redis_def mem.elapse_laws) (simp_all add: mem_defs held_redis_def)

lemma bob_news:
  "rd_log mem_redis bob_redis = [(eventChannel, marshal_event bob_event)]"
  "view mem_redis (bob_redis, sample_db) 1 = HeldBy ''bob''"
  "coherent mem_redis (bob_redis, sample_db)" "view mem_redis (bob_redis, sample_db) 2 = Free"
proof -
  let ?r = "lapsed_redis"
  have co: "coherent mem_redis (?r, sample_db)" by (simp add: coherent_def expired_redis)
  have c: "hold_clean ok_hold" "hn_publish ok_hold = Answered 0" "0 < int_seconds (sv_holdTTL sample_service)"
    using sample_ttl by (simp_all add: sample_publish)
  have run: "Hold mem_redis sample_service ok_hold 0 1 ''bob'' ?r =
      (bob_redis, snd (Hold mem_redis sample_service ok_hold 0 1 ''bob'' ?r))"
    by (simp add: bob_redis_def)
  have n: "hold_news mem_redis sample_service 0 1 ''bob'' ?r = [(marshal_event bob_event, 1, HeldBy ''bob'')]"
    by (simp add: hold_news_def expired_redis bob_event_def sample_ttl_fields)
  note h = Hold_news [OF mem.redis_axioms co c run, unfolded n]
  show "rd_log mem_redis bob_redis = [(eventChannel, marshal_event bob_event)]"
    using h(1) by (simp add: expired_redis)
  show "view mem_redis (bob_redis, sample_db) 1 = HeldBy ''bob''" using h(2) by simp
  show "coherent mem_redis (bob_redis, sample_db)" by (rule h(3))
  show "view mem_redis (bob_redis, sample_db) 2 = Free" using h(2) by (simp add: view_def expired_redis)
qed

text \<open>As steps of a run.\<close>

lemma lapse_step:
  assumes "cl_redis w = held_redis" and "events_to mem_redis i c w = []"
  shows "paced_step mem_redis allowed i c w (w\<lparr>cl_redis := lapsed_redis, cl_expired := cl_expired w @ [holdKey 1]\<rparr>)"
proof (rule paced_step.elapse)
  show "lapsed_redis = rd_elapse mem_redis (cl_redis w) 120000" by (simp add: lapsed_redis_def assms(1))
  show "set [holdKey 1] = {k. rd_get mem_redis (cl_redis w) k \<noteq> None \<and> rd_get mem_redis lapsed_redis k = None}"
    unfolding assms(1) lapsed_redis_def mem.elapse_laws by (auto simp: mem_defs held_redis_def)
qed (simp add: assms(2) mentions_def)

lemma bob_step:
  assumes "j < length (cl_backends w)" "bp_service (cl_backends w ! j) = sample_service"
    "cl_redis w = lapsed_redis" "expiries_to i c w = []"
  shows "paced_step mem_redis allowed i c w (w\<lparr>cl_redis := bob_redis\<rparr>)"
proof (rule paced_step.hold [OF assms(1) refl])
  show "Hold mem_redis (bp_service (cl_backends w ! j)) ok_hold 0 1 ''bob'' (cl_redis w) =
      (bob_redis, snd (Hold mem_redis sample_service ok_hold 0 1 ''bob'' lapsed_redis))"
    by (simp add: assms bob_redis_def)
  show "int_range (unix_milli (time_add 0 (sv_holdTTL (bp_service (cl_backends w ! j)))))"
    using bob_event_ok by (simp add: assms bob_event_def held_event_def event_ok_def sample_ttl_fields)
  show "0 < int_seconds (sv_holdTTL (bp_service (cl_backends w ! j)))" using sample_ttl by (simp add: assms)
qed (simp_all add: sample_publish int_range_def assms mentions_def)

lemma sample_sound: "sound mem_redis 1 sample_cluster"
  by (rule reachable_sound [OF sample_cluster_reachable]) simp_all

lemma sample_served_nothing: "events_to mem_redis 1 0 (serve_snapshot 1 0 (Inr snap) sample_cluster) = []"
proof -
  have "owed Events_loop 0 (bp_ws (cl_backends (serve_snapshot 1 0 (Inr snap) sample_cluster) ! 1)) = owed Events_loop 0 (connect ws_start)"
    by (rule owed_cong) (simp_all add: serve_snapshot_def Let_def)
  then show ?thesis using sample_served(4,8) [of snap] by (simp add: events_to_def Let_def at_rest_simps)
qed

text \<open>Where Redis and Postgres agree, the view of a seat says who holds it.\<close>

lemma view_holder:
  "coherent R (r, d) \<Longrightarrow> seat_holder R r s = (case view R (r, d) s of HeldBy u \<Rightarrow> Some u | _ \<Rightarrow> None)"
  using coherentD(2) [of R r d s] by (auto simp: view_def split: option.splits)

section \<open>Properties\<close>

text \<open>C13: one stream for every client: whatever instances start, relay, lose or drop, a client connected
  to one of them has been put on its way at most one snapshot and exactly the messages that each of the
  two loops of its instance has broadcast since the client joined (but for one it is still to
  be visited with), each loop's in its order; and what a loop has broadcast is the published messages,
  or the expired holds, that the instance has passed, without a gap as long as its
  connection to Redis lost nothing.\<close>

theorem every_client_gets_every_event:
  assumes "cluster_reachable R allowedOrigin w" and "i < length (cl_backends w)" and "p = cl_backends w ! i"
    and "live c (bp_ws p)"
  shows "snaps (sent c (bp_ws p)) \<le> 1 \<and>
    deltas (sent c (bp_ws p)) \<in> shuffles (passed Events_loop c (bp_ws p)) (passed Expiry_loop c (bp_ws p)) \<and>
    relayed (ww_log (bp_ws p) Events_loop) (bp_missed p) (events_of R (cl_redis w) p) \<and>
    relayed (ww_log (bp_ws p) Expiry_loop) (bp_missed p) (expiries_of (cl_expired w) p)"
proof -
  have "proc_ok R allowedOrigin (cl_redis w) (cl_expired w) p"
    using cluster_reachable_inv [OF assms(1)] assms(2,3) by (simp add: cluster_inv_def)
  then show ?thesis
    using live_deltas [OF ws_reachable_inv assms(4)] by (auto simp: proc_ok_def)
qed

text \<open>The instance has begun to relay the hold on seat 2, and has visited its only client.\<close>

definition sample_visited :: ws_world where
  "sample_visited = broadcast_turn Events_loop
     (broadcast_begin Events_loop (marshal_event sample_held_event) [0] (connect ws_start))"

lemma sample_visited_simps:
  "live 0 sample_visited" "passed Events_loop 0 sample_visited = [marshal_event sample_held_event]"
  "passed Expiry_loop 0 sample_visited = []"
  unfolding sample_visited_def first_visit
  by (simp_all add: live_def passed_def pending_def broadcast_begin_def ws_sample_defs)

theorem every_client_gets_every_event_witness:
  "\<exists>w. cluster_reachable mem_redis ''origin'' w \<and>
    deltas (sent 0 (bp_ws (cl_backends w ! 1))) = [marshal_event sample_held_event]"
proof -
  let ?w1 = "sample_cluster\<lparr>cl_redis := sample_hold_redis, cl_db := sample_db, cl_expired := cl_expired sample_cluster @ []\<rparr>"
  let ?p = "cl_backends ?w1 ! 1"
  let ?w2 = "set_backend 1 (take_event mem_redis sample_hold_redis [0] ?p) ?w1"
  let ?p2 = "cl_backends ?w2 ! 1"
  let ?w3 = "set_backend 1 (?p2\<lparr>bp_ws := sample_visited\<rparr>) ?w2"
  have "cluster_reachable mem_redis ''origin'' ?w1"
    by (rule cluster_reachable.step [OF sample_cluster_reachable], rule cluster_step.environment [of _ _ _ "mm_log sample_hold_redis"])
      (simp add: mem_defs held_redis_def)
  moreover have "cluster_step mem_redis ''origin'' ?w1 ?w2"
    using cluster_step.event [of 1 ?w1 ?p mem_redis "[0]" "''origin''"] connect_simps(4)
    by (simp add: sample_hold_news ready_def at_rest_def)
  ultimately have "cluster_reachable mem_redis ''origin'' ?w2" by (rule cluster_reachable.step)
  moreover have "cluster_step mem_redis ''origin'' ?w2 ?w3"
  proof (rule cluster_step.goroutine)
    have ws: "bp_ws ?p2 = broadcast_begin Events_loop (marshal_event sample_held_event) [0] (connect ws_start)"
      by (simp add: take_event_def handle_event_def sample_hold_news unmarshal_marshal_event [OF sample_event_ok])
    show "inner_step ''origin'' (bp_ws ?p2) sample_visited"
      unfolding ws inner_step_def sample_visited_def
      by (intro conjI ws_step.turn) (simp_all add: first_visit, simp_all add: broadcast_begin_def)
  qed simp_all
  ultimately have r: "cluster_reachable mem_redis ''origin'' ?w3" by (rule cluster_reachable.step)
  with every_client_gets_every_event [OF r, of 1 _ 0] show ?thesis
    by (intro exI [of _ ?w3]) (simp add: sample_visited_simps)
qed

text \<open>C14: browsers on any instance converge, whatever races with the build of their snapshot: a client has
  been registered by \<open>Serve\<close>, its bookings are read from Postgres and, command by command, the holds from
  Redis, while requests and expiries on all instances go on and their messages are sent to it; then its
  snapshot is queued. Once all the messages have been relayed and written, its browser shows a seat as
  the system has it. This is for a seat of which the client was sent nothing during the build (the
  delta that the stale snapshot undoes is a flaw, shown below), starting from Redis and Postgres
  that agree and well-formed hold keys, with requests that take effect at once, no lost
  messages, and no overtaking of the two streams: no seat is held again while its last expiry is still
  on its way to this client, and no hold runs out before it has been told of it.\<close>

theorem browsers_converge:
  assumes "redis R" and "cluster_reachable R allowedOrigin w0" and "coherent R (cl_redis w0, cl_db w0)"
    and "canonical_holds R (cl_redis w0)" and "i < length (cl_backends w0)" and "caught_up R i w0"
    and "(paced_step R allowedOrigin i c)\<^sup>*\<^sup>* w0 wd" and "c < length (ww_peers (bp_ws (cl_backends wd ! i)))"
    and "wf_db (cl_db wd)" and "only_event (Event_ID (srv_Event srv)) (cl_db wd)" and "iterates ce"
    and "BuildSnapshot R srv ce (cl_db wd) = Some (Inr snap)" and "sn_RedisHealthy snap"
    and "\<forall>k rs clk j. ce_trips ce k = Some (rs, clk) \<longrightarrow> (\<exists>x. (paced_step R allowedOrigin i c)\<^sup>*\<^sup>* wd x \<and>
      (paced_step R allowedOrigin i c)\<^sup>*\<^sup>* x we \<and> rs j = cl_redis x)"
    and "(paced_step R allowedOrigin i c)\<^sup>*\<^sup>* wd we" and "awaits_snapshot c (bp_ws (cl_backends we ! i))"
    and "\<not> mentions s (deltas (drop (length (sent c (bp_ws (cl_backends wd ! i)))) (sent c (bp_ws (cl_backends we ! i)))))"
    and "(paced_step R allowedOrigin i c)\<^sup>*\<^sup>* (serve_snapshot i c (Inr snap) we) w'" and "flushed R i c w'"
    and "int_range s"
  shows "shown_by c st (bp_ws (cl_backends w' ! i)) s = cluster_view R w' s"
proof -
  let ?run = "(paced_step R allowedOrigin i c)\<^sup>*\<^sup>*"
  have w0: "sound R i w0" by (rule reachable_sound [OF assms(2,5,3,4)])
  note keep = paced_run_reachable [OF assms(1)]
  note wd = keep [OF assms(7,2) w0]
  have ok: "sound R i x" if "?run wd x" for x using keep [OF that] wd by blast
  show ?thesis
  proof (rule snapshot_view [OF assms(1) w0 assms(6-8,15,16) _ assms(17-19)])
    fix st'
    assume same: "\<And>x. ?run wd x \<Longrightarrow> ?run x we \<Longrightarrow> cluster_view R x s = cluster_view R wd s"
    let ?h = "case cluster_view R wd s of HeldBy u \<Rightarrow> Some u | _ \<Rightarrow> None"
    have canon: "canonical_holds R (rs j)" if "ce_trips ce k = Some (rs, clk)" for k rs clk j
      using assms(14) [rule_format, OF that, of j] ok by (auto simp: sound_def)
    note b = BuildSnapshot_over [OF assms(1,12,13) _ assms(9-11)]
    have sn: "sn_Type snap = MsgSnapshot" "distinct (map st_SeatID (sn_Seats snap))" "list_all known_status (sn_Seats snap)"
      by (rule b, erule canon)+
    have "seat_holder R (rs j) s = ?h" if t: "ce_trips ce k = Some (rs, clk)" for k rs clk j
      using assms(14) [rule_format, OF t, of j] ok same view_holder unfolding sound_def by (metis cluster_view_def)
    then have "shown (sn_Seats snap) s = (case booking_owner (cl_db wd) s of Some u \<Rightarrow> SoldTo u
        | None \<Rightarrow> (case ?h of Some u \<Rightarrow> HeldBy u | None \<Rightarrow> Free))"
      by (intro b(4) [OF _ assms(20)]) (erule canon, blast)
    then have "shown (sn_Seats snap) s = cluster_view R wd s"
      by (auto simp: cluster_view_def view_def split: option.splits)
    then show "browser_view (onmessage (marshal_snapshot snap) st') s = cluster_view R wd s"
      by (simp add: onmessage_snapshot [OF sn])
  qed
qed

text \<open>Seat 1 runs out while the snapshot is built, the browser is told, and bob takes the seat on the first instance.\<close>

theorem browsers_converge_witness:
  "\<exists>snap w. BuildSnapshot mem_redis sample_server (sample_call held_redis) sample_db = Some (Inr snap) \<and>
    (paced_step mem_redis ''origin'' 1 0)\<^sup>*\<^sup>* (serve_snapshot 1 0 (Inr snap)
      (sample_cluster\<lparr>cl_redis := lapsed_redis, cl_expired := [holdKey 1]\<rparr>)) w \<and>
    shown_by 0 initial_socket (bp_ws (cl_backends w ! 1)) 1 = HeldBy ''bob'' \<and>
    shown_by 0 initial_socket (bp_ws (cl_backends w ! 1)) 2 = Free"
proof -
  obtain snap where snap: "BuildSnapshot mem_redis sample_server (sample_call held_redis) sample_db = Some (Inr snap)"
    "sn_RedisHealthy snap" using sample_snapshot by blast
  let ?run = "(paced_step mem_redis ''origin'' 1 0)\<^sup>*\<^sup>*"
  let ?we = "sample_cluster\<lparr>cl_redis := lapsed_redis, cl_expired := [holdKey 1]\<rparr>"
  let ?w2 = "serve_snapshot 1 0 (Inr snap) ?we"
  note keep = paced_run_reachable [OF mem.redis_axioms]
  have caught: "caught_up mem_redis 1 sample_cluster" by (simp add: caught_up_def)
  have one: "?run sample_cluster ?we"
    using lapse_step [of sample_cluster 1 0 "''origin''"] caught_up_nothing [OF caught] by (intro r_into_rtranclp) simp
  have waits: "awaits_snapshot 0 (bp_ws (cl_backends ?we ! 1))" using sample_awaits by simp
  note s = sample_served [of snap]
  have two: "?run ?we ?w2" by (rule r_into_rtranclp, rule serve_snapshot_step [OF _ waits]) simp
  note ok2 = keep [OF rtranclp_trans [OF one two] sample_cluster_reachable sample_sound]
  have same: "?w2 = (serve_snapshot 1 0 (Inr snap) sample_cluster)\<lparr>cl_redis := lapsed_redis, cl_expired := [holdKey 1]\<rparr>"
    by (simp add: serve_snapshot_def set_backend_def)
  have t: "cl_redis ?w2 = lapsed_redis" "cl_db ?w2 = sample_db" "length (cl_backends ?w2) = 2"
    "bp_service (cl_backends ?w2 ! 0) = sample_service"
    using s by (simp_all only: same) simp_all
  have "alive 0 (bp_ws (cl_backends ?w2 ! 1))" using s(2) by (simp only: same) simp
  then obtain p where p: "?run ?w2 (set_backend 1 p ?w2)" "flushed mem_redis 1 0 (set_backend 1 p ?w2)" "alive 0 (bp_ws p)"
    by (rule sound_drain [OF ok2 [THEN conjunct2]])
  let ?w3 = "set_backend 1 p ?w2"
  note ok3 = keep [OF p(1) ok2 [THEN conjunct1] ok2 [THEN conjunct2]]
  let ?w4 = "?w3\<lparr>cl_redis := bob_redis\<rparr>"
  have four: "?run ?w3 ?w4"
    using caught_up_nothing p(2) t
    by (intro r_into_rtranclp bob_step [where j = 0]) (auto simp: flushed_def set_backend_def)
  note ok4 = keep [OF four ok3 [THEN conjunct1] ok3 [THEN conjunct2]]
  obtain q where q: "?run ?w4 (set_backend 1 q ?w4)" "flushed mem_redis 1 0 (set_backend 1 q ?w4)"
    using sound_drain [OF ok4 [THEN conjunct2], of 0 "''origin''"] p(3) t(3) by auto
  let ?w = "set_backend 1 q ?w4"
  have run: "?run ?w2 ?w" using rtranclp_trans [OF rtranclp_trans [OF p(1) four] q(1)] .
  have db: "wf_db (cl_db sample_cluster)" "only_event (Event_ID (srv_Event sample_server)) (cl_db sample_cluster)"
    "iterates (sample_call held_redis)" "0 < length (ww_peers (bp_ws (cl_backends sample_cluster ! 1)))"
    using sample_quiet sample_awaits by (simp_all add: quiet_def awaits_snapshot_def)
  have co: "coherent mem_redis (cl_redis sample_cluster, cl_db sample_cluster)"
    "canonical_holds mem_redis (cl_redis sample_cluster)" "1 < length (cl_backends sample_cluster)" by simp_all
  have trips: "\<forall>k rs clk j. ce_trips (sample_call held_redis) k = Some (rs, clk) \<longrightarrow>
      (\<exists>x. ?run sample_cluster x \<and> ?run x ?we \<and> rs j = cl_redis x)"
    using one by (intro allI impI exI [of _ sample_cluster]) (auto simp: sample_call_def)
  have built: "BuildSnapshot mem_redis sample_server (sample_call held_redis) (cl_db sample_cluster) = Some (Inr snap)"
    "\<not> mentions s (deltas (drop (length (sent 0 (bp_ws (cl_backends sample_cluster ! 1)))) (sent 0 (bp_ws (cl_backends ?we ! 1)))))"
    for s using snap(1) by (simp_all add: mentions_def)
  have "shown_by 0 initial_socket (bp_ws (cl_backends ?w ! 1)) s = cluster_view mem_redis ?w s" if "int_range s" for s
    by (rule browsers_converge [OF mem.redis_axioms sample_cluster_reachable co caught rtranclp.rtrancl_refl db(4,1-3) built(1) snap(2)
        trips one waits built(2) run q(2) that])
  then have "shown_by 0 initial_socket (bp_ws (cl_backends ?w ! 1)) 1 = HeldBy ''bob''"
    "shown_by 0 initial_socket (bp_ws (cl_backends ?w ! 1)) 2 = Free"
    using bob_news(2,4) t by (simp_all add: int_range_def cluster_view_def del: One_nat_def)
  with run snap show ?thesis by blast
qed

text \<open>C15: and they can always get there: in any reachable state, with no client buffer in the way, the
  instance and the pump of a connected client can, on their own, work off the backlog of both streams: the client
  is sent, after what it has been sent before, all the messages that were still to come, each
  stream's in its order, everything is written to its connection, and nothing is left on its way. What the
  instance had lost before is not made up for.\<close>

theorem backlog_can_be_delivered:
  assumes "cluster_reachable R allowedOrigin w" and "i < length (cl_backends w)"
    and "alive c (bp_ws (cl_backends w ! i))"
  shows "\<exists>p ms. (paced_step R allowedOrigin i c)\<^sup>*\<^sup>* w (set_backend i p w) \<and> flushed R i c (set_backend i p w) \<and>
    ms \<in> shuffles (events_to R i c w) (expiries_to i c w) \<and>
    texts (pr_wire (fst (ww_peers (bp_ws p) ! c))) = sent c (bp_ws (cl_backends w ! i)) @ map Delta ms"
proof -
  have ok: "proc_ok R allowedOrigin (cl_redis w) (cl_expired w) (cl_backends w ! i)"
    using cluster_reachable_inv [OF assms(1)] assms(2) by (simp add: cluster_inv_def)
  then have inv: "ws_inv (bp_ws (cl_backends w ! i))" by (auto simp: proc_ok_def intro: ws_reachable_inv)
  obtain p where p: "(delivers R allowedOrigin i c)\<^sup>*\<^sup>* w (set_backend i p w)" "flushed R i c (set_backend i p w)"
    "serving c (bp_ws p) = serving c (bp_ws (cl_backends w ! i))"
    using drain [OF assms(2) inv assms(3), of R allowedOrigin] ok unfolding proc_ok_def by blast
  have "c < length (ww_peers (bp_ws (cl_backends w ! i)))" using live_index [OF inv] assms(3) by (simp add: alive_def)
  from delivers_run [OF p(1) this] have "delivered R i c w (set_backend i p w)"
    using p(2,3) assms(2) by (simp add: flushed_def)
  then obtain ms where "ms \<in> shuffles (events_to R i c w) (expiries_to i c w)"
    "sent c (bp_ws p) = sent c (bp_ws (cl_backends w ! i)) @ map Delta ms"
    using caught_up_nothing [of R i "set_backend i p w" c] p(2) assms(2) by (auto simp: delivered_def flushed_def)
  moreover have "sent c (bp_ws p) = texts (pr_wire (fst (ww_peers (bp_ws p) ! c)))"
    using flushed_sent [OF p(2)] assms(2) by simp
  ultimately show ?thesis using delivers_paced [OF p(1)] p(2) by (intro exI [of _ p] exI [of _ ms]) simp
qed

text \<open>The client of the second instance when bob has taken seat 2 on the first: it will be told.\<close>

theorem backlog_can_be_delivered_witness:
  "\<exists>p. (paced_step mem_redis ''origin'' 1 0)\<^sup>*\<^sup>* (sample_cluster\<lparr>cl_redis := sample_hold_redis\<rparr>)
      (set_backend 1 p (sample_cluster\<lparr>cl_redis := sample_hold_redis\<rparr>)) \<and>
    texts (pr_wire (fst (ww_peers (bp_ws p) ! 0))) = [Delta (marshal_event sample_held_event)]"
proof -
  let ?w = "sample_cluster\<lparr>cl_redis := sample_hold_redis, cl_db := sample_db, cl_expired := cl_expired sample_cluster @ []\<rparr>"
  have w: "?w = sample_cluster\<lparr>cl_redis := sample_hold_redis\<rparr>" by (cases "sample_cluster") (simp add: sample_cluster_def)
  have "cluster_reachable mem_redis ''origin'' ?w"
    by (rule cluster_reachable.step [OF sample_cluster_reachable], rule cluster_step.environment [of _ _ _ "mm_log sample_hold_redis"])
      (simp add: mem_defs held_redis_def)
  from backlog_can_be_delivered [OF this [unfolded w], of 1 0] show ?thesis
    using sample_alive unmarshal_marshal_event [OF sample_event_ok]
    by (auto simp: events_to_def expiries_to_def at_rest_simps sample_hold_news)
qed

text \<open>
  Two browsers on the second instance have their snapshots. The events loop broadcasts the new hold and
  the expiry loop the old one, which came first, both under the shared lock: the first client
  is visited by the events loop first, the second one by the expiry loop.
\<close>

datatype move = Join | Snapshot nat json | Turn caster | Write nat

fun can_act :: "move \<Rightarrow> ws_world \<Rightarrow> bool" where
  "can_act Join w = unlocked w"
| "can_act (Snapshot c j) w = (c < length (ww_peers w) \<and> pr_serving (fst (ww_peers w ! c)))"
| "can_act (Turn g) w = sending (ww_casts w g)"
| "can_act (Write c) w = (c < length (ww_peers w) \<and> pr_writing (fst (ww_peers w ! c)) \<and> pr_open (fst (ww_peers w ! c)))"

fun act :: "move \<Rightarrow> ws_world \<Rightarrow> ws_world" where
  "act Join w = connect w"
| "act (Snapshot c j) w = put_client c (Serve_snapshot (map_sum id Snap (Inr j)) (get_client c w)) w"
| "act (Turn g) w = broadcast_turn g w"
| "act (Write c) w = put_client c (writePump Wake_send True (get_client c w)) w"

fun can_acts :: "move list \<Rightarrow> ws_world \<Rightarrow> bool" where
  "can_acts [] w = True"
| "can_acts (v # vs) w = (can_act v w \<and> can_acts vs (act v w))"

lemma move_step:
  assumes "can_act v w" and inv: "ws_inv w"
  shows "inner_step allowed w (act v w)"
proof (cases v)
  case Join
  with assms ws_step.upgrade [of allowed "[]" w] show ?thesis
    by (simp add: inner_step_def CheckOrigin_def) (simp add: connect_def Let_def)
next
  case (Turn g)
  have "ww_casts w g \<noteq> Idle" "dropping (ww_casts w g) \<longrightarrow> unlocked w"
    using assms(1) Turn by (auto elim: sending.elims)
  then show ?thesis using Turn by (simp add: inner_step_def ws_step.turn turn_live(2) [OF inv])
next
  case (Snapshot c j)
  with assms(1) ws_step.serve [of c w allowed "Inr j"] show ?thesis by (simp add: inner_step_def)
qed (use assms in \<open>auto simp: inner_step_def intro: ws_step.pump\<close>)

lemma moves_run:
  "can_acts vs w \<Longrightarrow> ws_inv w \<Longrightarrow> (inner_step allowed)\<^sup>*\<^sup>* w (fold act vs w) \<and> ws_inv (fold act vs w)"
proof (induction vs arbitrary: w)
  case (Cons v vs)
  have s: "inner_step allowed w (act v w)" by (rule move_step) (use Cons.prems in simp_all)
  then have "ws_inv (act v w)" using Cons.prems(2) unfolding inner_step_def by (blast intro: ws_step_inv)
  with Cons have "(inner_step allowed)\<^sup>*\<^sup>* (act v w) (fold act vs (act v w)) \<and> ws_inv (fold act vs (act v w))"
    by simp
  with converse_rtranclp_into_rtranclp [of "inner_step allowed", OF s] show ?case by simp
qed simp

definition race_moves :: "json \<Rightarrow> move list" where
  "race_moves j = [Join, Snapshot 0 j, Snapshot 1 j, Write 0, Write 1]"

definition race_ws :: "json \<Rightarrow> ws_world" where
  "race_ws j = fold act (race_moves j) (connect ws_start)"

definition overlap_moves :: "move list" where
  "overlap_moves = [Turn Events_loop, Turn Expiry_loop, Turn Expiry_loop, Turn Events_loop, Turn Events_loop, Turn Expiry_loop,
     Write 0, Write 0, Write 1, Write 1]"

definition overlap_ws :: "json \<Rightarrow> json \<Rightarrow> json \<Rightarrow> ws_world" where
  "overlap_ws j m f = broadcast_begin Expiry_loop f [0, 1] (broadcast_begin Events_loop m [0, 1] (race_ws j))"

definition client_at :: "item list \<Rightarrow> ws_world \<Rightarrow> nat \<Rightarrow> bool" where
  "client_at is w c \<longleftrightarrow> live c w \<and> written c w \<and> texts (pr_wire (fst (ww_peers w ! c))) = is"

lemmas move_defs = put_client_def get_client_def Serve_snapshot_def writePump_def receive_def try_send_def sendBufferSize_def
  crash_or_def set_cast_def broadcast_turn_def broadcast_begin_def finish_stuck_def unlocked_def

lemma race_ws_ok:
  "can_acts (race_moves j) (connect ws_start)" "at_rest (race_ws j)" "hb_clients (ww_hub (race_ws j)) = [1, 0]"
  by (simp_all add: race_moves_def race_ws_def move_defs at_rest_def ws_sample_defs)

lemma overlap_ok:
  "can_acts overlap_moves (overlap_ws j m f)"
  "at_rest (fold act overlap_moves (overlap_ws j m f))"
  "client_at [Snap j, Delta m, Delta f] (fold act overlap_moves (overlap_ws j m f)) 0"
  "client_at [Snap j, Delta f, Delta m] (fold act overlap_moves (overlap_ws j m f)) 1"
  by (simp_all add: overlap_ws_def overlap_moves_def race_ws_def race_moves_def client_at_def live_def written_def
      move_defs at_rest_def ws_sample_defs)

text \<open>The two broadcasts as steps of the cluster.\<close>

definition raced_backend :: "json \<Rightarrow> backend_proc" where
  "raced_backend j = (sample_backend ''b2'' (fold act overlap_moves (overlap_ws j (marshal_event bob_event)
     (marshal_event (freed_event ''b2'' 1)))))\<lparr>bp_events := 1, bp_expiries := 1\<rparr>"

definition raced_cluster :: "json \<Rightarrow> mem_state cluster" where
  "raced_cluster j = \<lparr>cl_redis = bob_redis, cl_db = sample_db, cl_expired = [holdKey 1],
     cl_backends = [sample_backend ''b1'' ws_start, raced_backend j]\<rparr>"

lemma raced_reachable: "cluster_reachable mem_redis allowed (raced_cluster j)"
proof -
  let ?b = "sample_backend ''b1'' ws_start" and ?p = "sample_backend ''b2'' (race_ws j)"
  let ?m = "marshal_event bob_event" and ?f = "marshal_event (freed_event ''b2'' 1)"
  let ?w = "\<lambda>r ks p. \<lparr>cl_redis = r, cl_db = sample_db, cl_expired = ks, cl_backends = [?b, p]\<rparr>"
  let ?q = "?p\<lparr>bp_ws := broadcast_begin Events_loop ?m [0, 1] (race_ws j), bp_events := 1\<rparr>"
  let ?q' = "?q\<lparr>bp_ws := overlap_ws j ?m ?f, bp_expiries := 1\<rparr>"
  have pub: "published mem_redis bob_redis = [?m]" by (simp add: published_def bob_news(1))
  have join: "(inner_step allowed)\<^sup>*\<^sup>* (connect ws_start) (race_ws j)" and inv: "ws_inv (race_ws j)"
    using moves_run [OF race_ws_ok(1) connected_inv, of allowed] by (simp_all add: race_ws_def)
  have run: "cluster_reachable mem_redis allowed (set_backend i ((cl_backends w ! i)\<lparr>bp_ws := ws\<rparr>) w)"
    if "cluster_reachable mem_redis allowed w" "i < length (cl_backends w)"
      "(inner_step allowed)\<^sup>*\<^sup>* (bp_ws (cl_backends w ! i)) ws" for i w ws
    using inner_reachable [OF that] .
  have "cluster_reachable mem_redis allowed (?w held_redis [] ?p)"
    using run [OF sample_cluster_reachable, of 1 "race_ws j"] join
    by (simp add: set_backend_def sample_cluster_def sample_backend_def)
  moreover have "cluster_step mem_redis allowed (?w held_redis [] ?p) (?w bob_redis [holdKey 1] ?p)"
    using cluster_step.environment [where R = mem_redis and r' = bob_redis and w = "?w held_redis [] ?p" and
        new = "[(eventChannel, ?m)]" and allowedOrigin = allowed and d' = sample_db and ks = "[holdKey 1]"]
    by (simp add: bob_news(1)) (simp add: mem_defs held_redis_def)
  ultimately have "cluster_reachable mem_redis allowed (?w bob_redis [holdKey 1] ?p)"
    by (rule cluster_reachable.step)
  moreover have "cluster_step mem_redis allowed (?w bob_redis [holdKey 1] ?p) (?w bob_redis [holdKey 1] ?q)"
  proof -
    have "take_event mem_redis bob_redis [0, 1] ?p = ?q"
      by (simp add: take_event_def handle_event_def sample_backend_def pub unmarshal_marshal_event [OF bob_event_ok])
    moreover have "ready Events_loop [0, 1] ?p"
      using race_ws_ok(2,3) by (simp add: ready_def sample_backend_def at_rest_def)
    ultimately show ?thesis
      using cluster_step.event [of 1 "?w bob_redis [holdKey 1] ?p" ?p mem_redis "[0, 1]" allowed]
      by (simp add: pub set_backend_def) (simp add: sample_backend_def)
  qed
  moreover have "cluster_step mem_redis allowed (?w bob_redis [holdKey 1] ?q) (?w bob_redis [holdKey 1] ?q')"
  proof -
    have "take_expiry [holdKey 1] [0, 1] ?q = ?q'"
      by (simp add: take_expiry_def handle_expiry_def sample_backend_def overlap_ws_def int_range_def)
    moreover have "ready Expiry_loop [0, 1] ?q"
      using race_ws_ok(2,3) by (simp add: ready_def broadcast_begin_def at_rest_def)
    ultimately show ?thesis
      using cluster_step.expiry [of 1 "?w bob_redis [holdKey 1] ?q" ?q "[0, 1]" mem_redis allowed]
      by (simp add: set_backend_def) (simp add: sample_backend_def)
  qed
  ultimately have reach: "cluster_reachable mem_redis allowed (?w bob_redis [holdKey 1] ?q')"
    by (blast intro: cluster_reachable.step)
  have "proc_ok mem_redis allowed bob_redis [holdKey 1] ?q'"
    using cluster_reachable_inv [OF reach] by (simp add: cluster_inv_def)
  then have "ws_inv (overlap_ws j ?m ?f)" by (auto simp: proc_ok_def intro: ws_reachable_inv)
  with moves_run [OF overlap_ok(1) this, of allowed] run [OF reach, of 1 "fold act overlap_moves (overlap_ws j ?m ?f)"]
  show ?thesis by (simp add: set_backend_def raced_cluster_def raced_backend_def sample_backend_def)
qed

text \<open>C38: the two loops of an instance are not ordered, and the hub's lock lets their broadcasts overlap: a hold
  runs out, the seat is taken again, and of two clients of one instance one is sent the new
  hold first and the old expiry after it, the other the reverse. When everything has been delivered and
  nothing was lost, the first shows the seat as free for good, the second as held, and the
  system knows it as held.\<close>

theorem late_expiry_hides_hold:
  "\<exists>w snap. cluster_reachable mem_redis allowedOrigin w \<and> flushed mem_redis 1 0 w \<and> flushed mem_redis 1 1 w \<and>
    BuildSnapshot mem_redis sample_server (sample_call held_redis) sample_db = Some (Inr snap) \<and>
    texts (pr_wire (fst (ww_peers (bp_ws (cl_backends w ! 1)) ! 0))) = [Snap (marshal_snapshot snap),
      Delta (marshal_event bob_event), Delta (marshal_event (freed_event ''b2'' 1))] \<and>
    texts (pr_wire (fst (ww_peers (bp_ws (cl_backends w ! 1)) ! 1))) = [Snap (marshal_snapshot snap),
      Delta (marshal_event (freed_event ''b2'' 1)), Delta (marshal_event bob_event)] \<and>
    \<not> bp_missed (cl_backends w ! 1) \<and>
    shown_by 0 st (bp_ws (cl_backends w ! 1)) 1 = Free \<and> shown_by 1 st (bp_ws (cl_backends w ! 1)) 1 = HeldBy ''bob'' \<and>
    cluster_view mem_redis w 1 = HeldBy ''bob''"
proof -
  obtain snap where snap: "BuildSnapshot mem_redis sample_server (sample_call held_redis) sample_db = Some (Inr snap)"
    using sample_snapshot by blast
  let ?w = "raced_cluster (marshal_snapshot snap)" and ?j = "marshal_snapshot snap"
  let ?m = "marshal_event bob_event" and ?f = "marshal_event (freed_event ''b2'' 1)"
  let ?ws = "fold act overlap_moves (overlap_ws ?j ?m ?f)"
  have p: "cl_backends ?w ! 1 = raced_backend ?j" "cl_redis ?w = bob_redis" "cl_db ?w = sample_db"
    "cl_expired ?w = [holdKey 1]" "bp_ws (raced_backend ?j) = ?ws" "bp_events (raced_backend ?j) = 1"
    "bp_expiries (raced_backend ?j) = 1" "\<not> bp_missed (raced_backend ?j)"
    by (simp_all add: raced_cluster_def raced_backend_def) (simp_all add: sample_backend_def)
  have pub: "published mem_redis bob_redis = [?m]" by (simp add: published_def bob_news(1))
  note c = overlap_ok(2-4) [where j = ?j and m = ?m and f = ?f, unfolded client_at_def]
  have "flushed mem_redis 1 0 ?w" "flushed mem_redis 1 1 ?w"
    using c by (simp_all add: flushed_def caught_up_def p pub del: One_nat_def)
  moreover have "shown_by 0 st ?ws 1 = Free" "shown_by 1 st ?ws 1 = HeldBy ''bob''"
    using c by (simp_all add: shown_by_def onmessage_freed bob_event_def onmessage_held del: One_nat_def)
  moreover have "cluster_view mem_redis ?w 1 = HeldBy ''bob''" by (simp add: cluster_view_def p bob_news(2))
  ultimately show ?thesis
    using raced_reachable [of allowedOrigin ?j] snap c p by (intro exI [of _ ?w] exI [of _ snap]) simp
qed

end
