(* ===== verification/Harness_Ws.thy ===== *)
theory Harness_Ws
  imports Convergence "HOL-Library.Log_Nat"
begin

text \<open>
  The websocket client of \<open>loadtest/harness.go\<close>: connecting, the goroutine that decodes the frames,
  and waiting for an event. It decodes into a \<open>map[string]any\<close>, where a JSON number is a \<open>float64\<close>,
  so this theory starts with IEEE double precision. The last section puts the client on the
  cluster: the test that a hold on one instance is announced by all of them.
\<close>

section \<open>Double precision\<close>

text \<open>A finite double is the rational number it stands for.\<close>

type_synonym float64 = rat

definition pow2 :: "int \<Rightarrow> rat" where
  "pow2 e = (if 0 \<le> e then 2 ^ nat e else 1 / 2 ^ nat (- e))"

text \<open>The exponent of the leading bit of a positive number.\<close>

definition binade :: "rat \<Rightarrow> int" where
  "binade q = (case quotient_of q of (a, b) \<Rightarrow>
     (let k = int (floorlog 2 (nat a)) - int (floorlog 2 (nat b)) in if pow2 k \<le> q then k else k - 1))"

definition round_even :: "rat \<Rightarrow> int" where
  "round_even x = (let n = \<lfloor>x\<rfloor>; d = x - of_int n in
     if d < 1 / 2 then n else if 1 / 2 < d then n + 1 else if even n then n else n + 1)"

text \<open>The nearest double, ties to even; \<open>None\<close> when it is beyond the largest one.\<close>

definition to_float64 :: "rat \<Rightarrow> float64 option" where
  "to_float64 q = (let e = max (binade \<bar>q\<bar> - 52) (-1074); x = of_int (round_even (q / pow2 e)) * pow2 e
     in if \<bar>x\<bar> < 2 ^ 1024 then Some x else None)"

text \<open>The value of a number literal with a fraction or an exponent.\<close>

definition is_digit :: "char \<Rightarrow> bool" where
  "is_digit c \<longleftrightarrow> digit_val c \<noteq> None"

definition digits_value :: "string \<Rightarrow> int" where
  "digits_value ds = (case atou 0 ds of Some n \<Rightarrow> int n | None \<Rightarrow> 0)"

definition signed_digits :: "string \<Rightarrow> int" where
  "signed_digits s = (case s of [] \<Rightarrow> 0
     | c # ds \<Rightarrow> if c = CHR ''-'' then - digits_value ds else if c = CHR ''+'' then digits_value ds else digits_value s)"

definition pow10 :: "int \<Rightarrow> rat" where
  "pow10 e = (if 0 \<le> e then 10 ^ nat e else 1 / 10 ^ nat (- e))"

definition literal_value :: "string \<Rightarrow> rat" where
  "literal_value s =
     (let (sg, s1) = (case s of [] \<Rightarrow> (1, []) | c # cs \<Rightarrow> if c = CHR ''-'' then (-1, cs) else (1, s));
          ip = takeWhile is_digit s1; r1 = dropWhile is_digit s1;
          (fp, r2) = (case r1 of [] \<Rightarrow> ([], []) | c # cs \<Rightarrow>
            if c = CHR ''.'' then (takeWhile is_digit cs, dropWhile is_digit cs) else ([], r1));
          e = (case r2 of [] \<Rightarrow> 0 | c # cs \<Rightarrow> signed_digits cs)
      in sg * of_int (digits_value (ip @ fp)) * pow10 (e - int (length fp)))"

fun number_value :: "json \<Rightarrow> float64 option" where
  "number_value (JInt n) = to_float64 (of_int n)"
| "number_value (JNum l) = to_float64 (literal_value l)"
| "number_value _ = None"

text \<open>Whole numbers below \<open>2 ^ 53\<close> are exact.\<close>

lemma pow2_le_iff: "pow2 e \<le> of_int n \<Longrightarrow> n < 2 ^ k \<Longrightarrow> e < int k"
proof (rule ccontr)
  assume le: "pow2 e \<le> of_int n" and n: "n < 2 ^ k" and "\<not> e < int k"
  then have e: "0 \<le> e" "k \<le> nat e" by simp_all
  have "(2::rat) ^ k \<le> 2 ^ nat e" using e(2) by simp
  also have "\<dots> \<le> of_int n" using le e(1) by (simp add: pow2_def)
  also have "\<dots> < of_int (2 ^ k)" using n by (simp only: of_int_less_iff)
  finally show False by simp
qed

lemma binade_int: "n < 2 ^ k \<Longrightarrow> 0 < k \<Longrightarrow> binade (of_int n) < int k"
proof -
  assume n: "n < 2 ^ k" and k: "0 < k"
  then have "nat n < 2 ^ k" by (simp add: nat_less_iff)
  then have "floorlog 2 (nat n) \<le> k" by (intro floorlog_leI) simp_all
  moreover have "floorlog 2 (Suc 0) = 1" using floorlog_power [of "Suc 0" 2 0] by (simp add: floorlog_def)
  ultimately show ?thesis
    using pow2_le_iff [OF _ n, of "int (floorlog 2 (nat n)) - 1"] k by (auto simp: binade_def Let_def)
qed

lemma round_even_int [simp]: "round_even (of_int n) = n"
  by (simp add: round_even_def)

lemma to_float64_exact: "\<bar>n\<bar> < 2 ^ 53 \<Longrightarrow> to_float64 (of_int n) = Some (of_int n)"
proof -
  assume n: "\<bar>n\<bar> < 2 ^ 53"
  let ?e = "max (binade \<bar>of_int n\<bar> - 52) (-1074)"
  have "binade (of_int \<bar>n\<bar>) < 53" using binade_int [OF n] by simp
  then have e: "?e \<le> 0" by simp
  have x: "of_int n / pow2 ?e = (of_int (n * 2 ^ nat (- ?e)) :: rat)" "pow2 ?e \<noteq> 0"
    using e by (auto simp: pow2_def)
  have "of_int (round_even (of_int n / pow2 ?e)) * pow2 ?e = (of_int n :: rat)"
  proof -
    have "of_int (round_even (of_int n / pow2 ?e)) = (of_int n / pow2 ?e :: rat)"
      by (simp only: x(1) round_even_int)
    with x(2) show ?thesis by simp
  qed
  moreover have "\<bar>of_int n\<bar> < (2 ^ 1024 :: rat)"
  proof -
    have "\<bar>of_int n\<bar> < (of_int (2 ^ 53) :: rat)" using n by (simp only: of_int_less_iff flip: of_int_abs)
    also have "\<dots> < of_int (2 ^ 1024)" by (simp only: of_int_less_iff) simp
    finally show ?thesis by simp
  qed
  ultimately show ?thesis by (simp add: to_float64_def Let_def)
qed

section \<open>The client\<close>

text \<open>A message as \<open>map[string]any\<close>: any object whose numbers fit a double, or \<open>null\<close>, the nil map.\<close>

fun numbers_fit :: "json \<Rightarrow> bool" where
  "numbers_fit (JArr vs) = list_all numbers_fit vs"
| "numbers_fit (JObj ms) = list_all (\<lambda>(k, v). numbers_fit v) ms"
| "numbers_fit (JInt n) = (number_value (JInt n) \<noteq> None)"
| "numbers_fit (JNum l) = (number_value (JNum l) \<noteq> None)"
| "numbers_fit _ = True"

definition decode_map :: "json \<Rightarrow> json option" where
  "decode_map j = (case j of
     JObj ms \<Rightarrow> if numbers_fit j then Some j else None
   | JNull \<Rightarrow> Some JNull
   | _ \<Rightarrow> None)"

definition numField :: "json \<Rightarrow> string \<Rightarrow> float64" where
  "numField m k = (case Option.bind (member m k) number_value of Some v \<Rightarrow> v | None \<Rightarrow> -1)"

text \<open>
  Dialling either fails or gives a connection, whose first read fails or gives a frame (\<open>None\<close> is
  a frame that is not JSON). The left result is the message of \<open>t.Fatalf\<close>.
\<close>

definition connectWS :: "(go_error, (go_error, json option) result) result \<Rightarrow> (go_error, hs_snapshot) result" where
  "connectWS dial =
     (case dial of
        Inl e \<Rightarrow> Inl (Wrap ''ws dial'' e)
      | Inr (Inl e) \<Rightarrow> Inl (Wrap ''read snapshot'' e)
      | Inr (Inr raw) \<Rightarrow>
          (case Option.bind raw (\<lambda>j. decode_struct set_snapshot_member j zero_snapshot) of
             None \<Rightarrow> Inl (Err ''decode snapshot'')
           | Some sn \<Rightarrow> Inr sn))"

text \<open>The goroutine: what it puts on the channel of events, and whether it has closed it.\<close>

datatype ws_read = Frame "json option" | Read_error

fun read_events :: "ws_read list \<Rightarrow> json list \<times> bool" where
  "read_events [] = ([], False)"
| "read_events (Read_error # rs) = ([], True)"
| "read_events (Frame b # rs) =
     (case read_events rs of (es, cl) \<Rightarrow>
        (case Option.bind b decode_map of Some m \<Rightarrow> (m # es, cl) | None \<Rightarrow> (es, cl)))"

text \<open>
  \<open>waitForEvent\<close>, given what each turn of its \<open>select\<close> picks; \<open>None\<close> is still waiting. The conversion
  of a double outside the range of \<open>int\<close> depends on the machine and is the argument \<open>conv\<close>.
\<close>

datatype select_case = Event_case json | Closed_case | Deadline_case

definition int_of_float :: "(float64 \<Rightarrow> int) \<Rightarrow> float64 \<Rightarrow> int" where
  "int_of_float conv x = (let n = (if x < 0 then - \<lfloor>- x\<rfloor> else \<lfloor>x\<rfloor>) in if int_range n then n else conv x)"

fun waitForEvent :: "(float64 \<Rightarrow> int) \<Rightarrow> seat_id \<Rightarrow> string \<Rightarrow> select_case list \<Rightarrow> (go_error, unit) result option" where
  "waitForEvent conv seatID evType [] = None"
| "waitForEvent conv seatID evType (Event_case m # cs) =
     (if int_of_float conv (numField m ''seat_id'') = seatID \<and> member m ''type'' = Some (JStr evType) then Some (Inr ())
      else waitForEvent conv seatID evType cs)"
| "waitForEvent conv seatID evType (Closed_case # cs) =
     Some (Inl (Err (''ws closed before seeing '' @ evType @ '' for seat '' @ itoa seatID)))"
| "waitForEvent conv seatID evType (Deadline_case # cs) =
     Some (Inl (Err (''timed out waiting for '' @ evType @ '' on seat '' @ itoa seatID)))"

section \<open>What it sees of the backend's messages\<close>

lemma pow2_pos [simp]: "0 < pow2 e"
  by (simp add: pow2_def)

lemma round_even_near: "\<bar>of_int (round_even x)\<bar> \<le> \<bar>x\<bar> + 1"
proof -
  have "of_int \<lfloor>x\<rfloor> \<le> x" "x < of_int \<lfloor>x\<rfloor> + 1" by linarith+
  moreover have "round_even x = \<lfloor>x\<rfloor> \<or> round_even x = \<lfloor>x\<rfloor> + 1" by (simp add: round_even_def Let_def)
  then have "of_int (round_even x) = (of_int \<lfloor>x\<rfloor> :: rat) \<or> of_int (round_even x) = (of_int \<lfloor>x\<rfloor> + 1 :: rat)" by auto
  ultimately show ?thesis by linarith
qed

lemma to_float64_fits: "\<bar>n\<bar> \<le> 2 ^ 63 \<Longrightarrow> to_float64 (of_int n) \<noteq> None"
proof -
  assume n: "\<bar>n\<bar> \<le> 2 ^ 63"
  define e where "e = max (binade \<bar>of_int n\<bar> - 52) (-1074)"
  have "binade (of_int \<bar>n\<bar>) < int 64" using n by (intro binade_int) simp_all
  then have e: "e < 12" by (simp add: e_def)
  have p: "pow2 e \<le> 2 ^ 12"
  proof (cases "0 \<le> e")
    case True
    with e have "nat e \<le> 12" by simp
    then have "(2::rat) ^ nat e \<le> 2 ^ 12" by (rule power_increasing) simp
    with True show ?thesis by (simp add: pow2_def)
  next
    case False
    have "(1::rat) \<le> 2 ^ nat (- e)" by (rule one_le_power) simp
    then have "pow2 e \<le> 1" using False by (simp add: pow2_def)
    then show ?thesis by (rule order_trans) simp
  qed
  have "\<bar>of_int (round_even (of_int n / pow2 e)) * pow2 e\<bar> = \<bar>of_int (round_even (of_int n / pow2 e))\<bar> * pow2 e"
    by (simp only: abs_mult abs_of_pos [OF pow2_pos])
  also have "\<dots> \<le> (\<bar>of_int n / pow2 e\<bar> + 1) * pow2 e"
    by (rule mult_right_mono [OF round_even_near]) (simp add: less_imp_le)
  also have "\<dots> = \<bar>of_int n\<bar> + pow2 e"
    using pow2_pos [of e] by (simp add: abs_divide abs_of_pos [OF pow2_pos] distrib_right less_imp_neq [symmetric])
  also have "\<dots> \<le> 2 ^ 63 + 2 ^ 12"
  proof (rule add_mono [OF _ p])
    have "of_int \<bar>n\<bar> \<le> (of_int (2 ^ 63) :: rat)" using n by (simp only: of_int_le_iff)
    then show "\<bar>of_int n\<bar> \<le> (2 ^ 63 :: rat)" by simp
  qed
  also have "\<dots> < 2 ^ 1024" by simp
  finally show ?thesis by (simp add: to_float64_def Let_def e_def)
qed

lemma numbers_fit_event: "event_ok ev \<Longrightarrow> decode_map (marshal_event ev) = Some (marshal_event ev)"
  using to_float64_fits [of "ev_SeatID ev"] to_float64_fits [of "ev_ExpiresAtMs ev"]
  by (auto simp: decode_map_def marshal_event_def omit_str_def omit_int_def event_ok_def int_range_def)

lemma numField_event: "\<bar>ev_SeatID ev\<bar> < 2 ^ 53 \<Longrightarrow> numField (marshal_event ev) ''seat_id'' = of_int (ev_SeatID ev)"
  by (simp add: numField_def to_float64_exact)

lemma int_of_float_int [simp]: "int_range n \<Longrightarrow> int_of_float conv (of_int n) = n"
  by (simp add: int_of_float_def flip: of_int_minus)

lemma read_events_frames: "read_events (map (\<lambda>j. Frame (Some j)) js) = (List.map_filter decode_map js, False)"
  by (induction js) (auto simp: List.map_filter_def split: option.splits)

text \<open>Every branch of the wait at once: the first event that matches ends it.\<close>

lemma waitForEvent_finds:
  assumes "m \<in> set es" and "int_of_float conv (numField m ''seat_id'') = s" and "member m ''type'' = Some (JStr ty)"
  shows "waitForEvent conv s ty (map Event_case es @ cs) = Some (Inr ())"
  using assms by (induction es) auto

lemma waitForEvent_misses:
  "\<forall>m \<in> set es. int_of_float conv (numField m ''seat_id'') = s \<longrightarrow> member m ''type'' \<noteq> Some (JStr ty) \<Longrightarrow>
   waitForEvent conv s ty (map Event_case es @ cs) = waitForEvent conv s ty cs"
  by (induction es) auto

section \<open>Properties\<close>

text \<open>C16: the multi-instance test of the repository: a client of the load tests has been sent its snapshot by one
  instance, with nothing else on its way to it, and another instance answers a hold with HELD; the client is told of
  it, where Redis and Postgres agree, whatever requests and expiries there are meanwhile on any instance, as long as the two streams of its instance do not overtake each other for
  it and no message is lost: once everything has been written to its connection, its wait
  for the event of that seat returns and does not fail.\<close>

theorem hold_is_announced_everywhere:
  assumes "redis R" and "cluster_reachable R allowedOrigin w" and "coherent R (cl_redis w, cl_db w)"
    and "canonical_holds R (cl_redis w)" and "i < length (cl_backends w)" and "flushed R i c w"
    and "\<not> pr_serving (fst (ww_peers (bp_ws (cl_backends w ! i)) ! c))"
    and "j < length (cl_backends w)" and "hold_clean nets" and "hn_publish nets = Answered 0"
    and "Hold R (bp_service (cl_backends w ! j)) nets now s u (cl_redis w) = (r', Inr (OutcomeHeld, ms))"
    and "\<bar>s\<bar> < 2 ^ 53" and "int_range ms"
    and "(paced_step R allowedOrigin i c)\<^sup>*\<^sup>* (w\<lparr>cl_redis := r'\<rparr>) w'" and "flushed R i c w'"
    and "seen = length (texts (pr_wire (fst (ww_peers (bp_ws (cl_backends w ! i)) ! c))))"
    and "frames = map payload (drop seen (texts (pr_wire (fst (ww_peers (bp_ws (cl_backends w' ! i)) ! c)))))"
  shows "waitForEvent conv s ''held'' (map Event_case (fst (read_events (map (\<lambda>j. Frame (Some j)) frames))) @ rest)
    = Some (Inr ())"
proof -
  let ?ws = "bp_ws (cl_backends w ! i)"
  let ?ev = "held_event (bp_service (cl_backends w ! j)) s u ms"
  note won = redis.Hold_wonD [OF assms(1,11)]
  have s: "int_range s" using assms(12) by (auto simp: int_range_def)
  have ok: "event_ok ?ev" using s assms(13) by (simp add: event_ok_def held_event_def)
  have sound: "sound R i w" by (rule reachable_sound [OF assms(2,5,3,4)])
  have step: "paced_step R allowedOrigin i c w (w\<lparr>cl_redis := r'\<rparr>)"
    by (rule paced_step.hold [OF assms(8) refl assms(9,10) won(3) s _ _ assms(11)])
      (use won(6) assms(6,13) caught_up_nothing [of R i w c] in \<open>simp_all add: flushed_def mentions_def\<close>)
  have "rd_log R r' = rd_log R (cl_redis w) @ [(eventChannel, marshal_event ?ev)]"
    using redis.Hold_log [OF assms(1) _ assms(10) won(3), of now s u "cl_redis w"] assms(9,11) won(1,2,6)
    by (simp add: hold_clean_def)
  then have "marshal_event ?ev \<in> set (events_to R i c (w\<lparr>cl_redis := r'\<rparr>))"
    using assms(6) unmarshal_marshal_event [OF ok] by (simp add: events_to_def Let_def published_def flushed_def caught_up_def)
  then have first: "arrives R i c seen (marshal_event ?ev) (w\<lparr>cl_redis := r'\<rparr>)"
    using assms(6,7,16) flushed_sent [OF assms(6)] live_index [of ?ws c] sound
    by (simp add: arrives_def Let_def sound_def flushed_def)
  have "sound R i (w\<lparr>cl_redis := r'\<rparr>)" using paced_step_carries [OF assms(1) sound step] by blast
  then have "arrives R i c seen (marshal_event ?ev) w'"
    using paced_run [OF assms(1,14), where P = "arrives R i c seen (marshal_event ?ev)"] first arrives_step by blast
  from imageI [OF arrived [OF this assms(15)], of payload] have "marshal_event ?ev \<in> set frames" by (simp add: assms(17))
  then have "marshal_event ?ev \<in> set (fst (read_events (map (\<lambda>j. Frame (Some j)) frames)))"
    using numbers_fit_event [OF ok] by (auto simp: read_events_frames List.map_filter_def intro: rev_image_eqI)
  moreover have "int_of_float conv (numField (marshal_event ?ev) ''seat_id'') = s"
    using numField_event [of ?ev] assms(12) s by (simp add: held_event_def)
  moreover have "member (marshal_event ?ev) ''type'' = Some (JStr ''held'')"
    by (simp only: member_event) (simp add: held_event_def MsgHeld_def)
  ultimately show ?thesis by (rule waitForEvent_finds)
qed

text \<open>The cluster of the samples, once its client has been written its snapshot.\<close>

lemma sample_settled:
  obtains w where "cluster_reachable mem_redis allowed w" "flushed mem_redis 1 0 w" "alive 0 (bp_ws (cl_backends w ! 1))"
    "\<not> pr_serving (fst (ww_peers (bp_ws (cl_backends w ! 1)) ! 0))" "cl_redis w = held_redis" "cl_db w = sample_db"
    "0 < length (cl_backends w)" "1 < length (cl_backends w)" "bp_service (cl_backends w ! 0) = sample_service"
proof -
  obtain snap :: snapshot where True by simp
  let ?w = "serve_snapshot 1 0 (Inr snap) sample_cluster"
  note s = sample_served [of snap]
  have step: "paced_step mem_redis allowed 1 0 sample_cluster ?w"
    by (rule serve_snapshot_step [OF _ sample_awaits]) simp
  note r1 = paced_run_reachable [OF mem.redis_axioms r_into_rtranclp [of "paced_step mem_redis allowed 1 0", OF step]
      sample_cluster_reachable sample_sound]
  obtain p where p: "(paced_step mem_redis allowed 1 0)\<^sup>*\<^sup>* ?w (set_backend 1 p ?w)" "flushed mem_redis 1 0 (set_backend 1 p ?w)"
    "alive 0 (bp_ws p)" using sound_drain [OF r1 [THEN conjunct2] s(2)] .
  note r2 = paced_run_reachable [OF mem.redis_axioms p(1) r1 [THEN conjunct1] r1 [THEN conjunct2]]
  have "served 0 (bp_ws (cl_backends ?w ! 1))" using s(3) live_index [OF s(1), of 0] s(2) by (auto simp: alive_def simp del: One_nat_def)
  then have "served 0 (bp_ws (cl_backends (set_backend 1 p ?w) ! 1))"
    using paced_run [OF mem.redis_axioms p(1) r1 [THEN conjunct2], where P = "\<lambda>w. served 0 (bp_ws (cl_backends w ! 1))"]
      served_step by blast
  with that [of "set_backend 1 p ?w"] p r2 s show ?thesis by (simp add: set_backend_def del: One_nat_def)
qed

text \<open>The client of the second instance, once its snapshot is written, and bob's hold on the first.\<close>

theorem hold_is_announced_everywhere_witness:
  "\<exists>w w'. flushed mem_redis 1 0 w \<and> cl_redis w = held_redis \<and>
    (paced_step mem_redis ''origin'' 1 0)\<^sup>*\<^sup>* (w\<lparr>cl_redis := sample_hold_redis\<rparr>) w' \<and> flushed mem_redis 1 0 w' \<and>
    waitForEvent (\<lambda>_. 0) 2 ''held'' (map Event_case (fst (read_events (map (\<lambda>j. Frame (Some j))
      (map payload (drop (length (texts (pr_wire (fst (ww_peers (bp_ws (cl_backends w ! 1)) ! 0)))))
        (texts (pr_wire (fst (ww_peers (bp_ws (cl_backends w' ! 1)) ! 0))))))))) @ [Deadline_case]) = Some (Inr ())"
proof -
  obtain w where w: "cluster_reachable mem_redis ''origin'' w" "flushed mem_redis 1 0 w" "alive 0 (bp_ws (cl_backends w ! 1))"
    "\<not> pr_serving (fst (ww_peers (bp_ws (cl_backends w ! 1)) ! 0))" "cl_redis w = held_redis" "cl_db w = sample_db"
    "0 < length (cl_backends w)" "1 < length (cl_backends w)" "bp_service (cl_backends w ! 0) = sample_service"
    by (rule sample_settled)
  have co: "coherent mem_redis (cl_redis w, cl_db w)" "canonical_holds mem_redis (cl_redis w)" by (simp_all add: w)
  let ?w1 = "w\<lparr>cl_redis := sample_hold_redis\<rparr>"
  have inv: "ws_inv (bp_ws (cl_backends ?w1 ! 1))"
    using cluster_reachable_inv [OF w(1)] w(8) by (auto simp: cluster_inv_def proc_ok_def intro: ws_reachable_inv)
  obtain w' where w': "(paced_step mem_redis ''origin'' 1 0)\<^sup>*\<^sup>* ?w1 w'" "flushed mem_redis 1 0 w'"
    using drain [of 1 ?w1 0 mem_redis "''origin''"] inv w(2,3,5,8)
    by (auto simp: flushed_def caught_up_def sample_hold_news dest!: delivers_paced)
  have "hn_try ok_hold = Answered 0" "0 < int_seconds (sv_holdTTL sample_service)"
    using sample_ttl by (simp_all add: ok_hold_def)
  then have held: "Hold mem_redis (bp_service (cl_backends w ! 0)) ok_hold 0 2 ''bob'' (cl_redis w) =
      (sample_hold_redis, Inr (OutcomeHeld, ev_ExpiresAtMs sample_held_event))"
    using mem.Hold_free [of held_redis 2 sample_service ok_hold 0 "''bob''"]
    by (auto simp: w sample_hold_redis_def sample_held_event_def held_event_def sample_ttl_fields)
  have "int_range (ev_ExpiresAtMs sample_held_event)" using sample_event_ok by (simp add: event_ok_def)
  from hold_is_announced_everywhere [OF mem.redis_axioms w(1) co w(8,2,4,7) sample_clean(1) sample_publish held _ this w'
      refl refl, of "\<lambda>_. 0" "[Deadline_case]"]
  show ?thesis using w(2,5) w' by auto
qed

end
