(* ===== verification/Spec2Isabelle.thy ===== *)
theory Spec2Isabelle
  imports Prelude Go_Std Model Redis_Api Locking Store Seed Booking Seat_Spec Contest Interleaving
    Sample Ratelimit Ws Keepalive Ws_Run Ws_Client Config Api App Seat_Client Harness
    Seat_Hook Cluster Paced Follow Convergence Harness_Ws
begin

text \<open>
  GrabSeat sells the seats of one event. A browser holds a seat for a limited time
  (\<open>POST /api/hold\<close>), then books it (\<open>POST /api/confirm\<close>), and is told of every change over a
  websocket. Any number of backend instances share one Redis, which keeps the holds, a cache of
  booked markers and the pub/sub channel, and one Postgres, which keeps the bookings. This
  development models the backend (\<open>src/backend\<close>), the clients of the load tests
  (\<open>src/loadtest/harness.go\<close>) and the browser's live channel
  (\<open>src/frontend/lib/useSeatSocket.ts\<close>).

  \<^bold>\<open>The theories\<close>, in the order they build on each other:

  \<^item> \<open>Prelude\<close>: lemmas on lists and association lists, the collections of simplification rules.
  \<^item> \<open>Go_Std\<close>: what is used of Go's library: \<open>strconv\<close>, \<open>strings\<close>, \<open>time.Duration\<close> as a 64-bit
    word, wrapped errors, JSON values and the matching of their member names.
  \<^item> \<open>Model\<close> (\<open>model/model.go\<close>): the shared structs, how they are marshalled and unmarshalled.
  \<^item> \<open>Redis_Api\<close>: the Redis commands used, as a record of operations on an abstract server, their
    documented laws as the locale \<open>redis\<close>, and an in-memory server \<open>mem_redis\<close> that satisfies them.
    The fate of a round trip (lost before or after it took effect, resent) is an argument.
  \<^item> \<open>Locking\<close> (\<open>locking/locking.go\<close>): the two scripts, holding, marking, refilling, the scan of the
    holds with the server changing between its commands, those of one pipeline included, publishing and
    the subscriptions.
  \<^item> \<open>Store\<close>, \<open>Seed\<close> (\<open>store/store.go\<close>, \<open>store/seed.go\<close>, \<open>db/schema.sql\<close>): the tables with their
    constraints, every statement, and the seeding transaction with a fate for each statement.
  \<^item> \<open>Booking\<close> (\<open>booking/booking.go\<close>): \<open>Hold\<close> and \<open>Confirm\<close>.
  \<^item> \<open>Seat_Spec\<close>: the abstract seat, a machine with the states free, held and sold, and the view
    that reads it off Redis and Postgres.
  \<^item> \<open>Contest\<close>: the race for one seat, as a locale of one atomic attempt, and its instance \<open>Hold\<close>.
  \<^item> \<open>Interleaving\<close>: requests as machines that make one round trip per step, any number of them
    interleaved in any order, while Redis changes in any way at all.
  \<^item> \<open>Sample\<close>: concrete states on which the properties are applied.
  \<^item> \<open>Ratelimit\<close> (\<open>ratelimit/ratelimit.go\<close>): the limiter over a heap of \<open>rate.Limiter\<close>s; the package
    \<open>golang.org/x/time/rate\<close> is a parameter with its documented contract as the locale
    \<open>token_bucket\<close>, interpreted on the bucket that package describes.
  \<^item> \<open>Ws\<close> (\<open>ws/hub.go\<close>, \<open>ws/client.go\<close>): channels in a heap, the hub, a connection and its pumps;
    sending on or closing a closed channel is a panic.
  \<^item> \<open>Keepalive\<close> (\<open>ws/client.go\<close>): one connection on the clock: two pumps that start when they are
    scheduled, the ticker, the pings and pongs, the deadlines of the reads and writes.
  \<^item> \<open>Ws_Run\<close>: the goroutines of all connections and of the two loops that broadcast, as a step relation.
    The hub's lock is a read-write lock, so two broadcasts overlap, send by send.
  \<^item> \<open>Ws_Client\<close>: what one client is sent and still owed in such a run, and how its backlog is worked off.
  \<^item> \<open>Config\<close> (\<open>config/config.go\<close>, parts of \<open>observability/observability.go\<close>): the settings, the log
    level, the request logger.
  \<^item> \<open>Api\<close> (\<open>api/api.go\<close>, \<open>api/handlers.go\<close>, \<open>api/middleware.go\<close>): routing, every handler, both
    middlewares and the snapshot.
  \<^item> \<open>App\<close> (\<open>main.go\<close>, \<open>cmd/healthcheck/main.go\<close>): the boot sequence with a fate for each step, the
    refill of the markers, the handlers of the two subscriptions, how the process ends, the healthcheck.
  \<^item> \<open>Seat_Client\<close>: how a browser turns snapshots and deltas into its map of seats.
  \<^item> \<open>Seat_Hook\<close>: the effect around it, with its sockets, timeouts and refs, as a step relation.
  \<^item> \<open>Harness\<close>: the HTTP client, and that client put together with the handlers of \<open>Api\<close>.
  \<^item> \<open>Cluster\<close>: any number of instances on one Redis, each at a position of the stream of published
    events and of the stream of expired keys, with its hub and its websocket clients; \<open>serve_snapshot\<close> is the
    end of \<open>Serve\<close>, which queues a snapshot built over the states before it.
  \<^item> \<open>Paced\<close>: the runs of a cluster in which seats are held, booked and released while the messages are
    on their way, and what every step of such a run means for one client.
  \<^item> \<open>Follow\<close>: along such a run what a client shows of a seat, with what is still to come laid over it, is
    the seat as it is, from before its snapshot is built to the end; and how a backlog of both streams is
    worked off.
  \<^item> \<open>Convergence\<close>: what the browsers on any instance end up showing, and a cluster of two instances.
  \<^item> \<open>Harness_Ws\<close>: the websocket client of the load tests, with the \<open>float64\<close> numbers it decodes to, and
    that client put on the cluster.

  \<^bold>\<open>State\<close>. The state of Redis is whatever the locale \<open>redis\<close> is instantiated with; the properties hold
  for every server that satisfies its laws, and the witnesses use \<open>mem_redis\<close>. The state of Postgres is
  the record \<open>db\<close>; a statement runs as a whole, which is what the database guarantees, and a lost
  reply leaves open whether it ran. A seat id is the primary key of a row. Go's \<open>int\<close> is \<open>int\<close> with the
  range checked where the code parses or stores a number; \<open>time.Duration\<close> is a word, because the
  hold time can overflow it. An instant is a number of nanoseconds, an argument of what reads the
  clock. The iteration order of a Go map is an argument, any permutation.

  \<^bold>\<open>What is shown\<close>. On bookings: no seat is sold twice, a success names the owner, a booking is for
  ever, a retry is settled, whatever the interleaving, the losses and the state of Redis. These rest
  on \<open>db_step\<close>, the relation every operation keeps, and on the invariant \<open>world_inv\<close>.
  On holds: at most one winner, exclusive for exactly the configured time. On the service as a
  whole: where Redis and Postgres agree (\<open>coherent\<close>), \<open>Hold\<close>, \<open>Confirm\<close> and expiry are the transitions
  of the abstract seat; the machines of \<open>Interleaving\<close>, run alone, are \<open>Hold\<close> and \<open>Confirm\<close>. On the
  limiter: it refines one token bucket per client that is never dropped, which bounds what it admits.
  On the hub: no panic outside \<open>Serve\<close> (\<open>ws_inv\<close>). On the cluster: no client of any instance that stays
  misses a message that its instance has received (\<open>cluster_inv\<close>), a browser on any instance ends up showing a seat as
  it is (\<open>tracks\<close>), through holds, confirms and expiries on any instance during and after the build of its
  snapshot, where it was sent nothing about the seat during that build, no message is lost and the
  two streams of its instance do not overtake each other for one seat (\<open>paced_step\<close>); a hold is
  announced by every instance. On the edges: a snapshot and the load tests see the seats as they
  are, a page keeps one connection (\<open>hook_inv\<close>), which pongs keep open
  (\<open>ahead\<close>), a 200 means that the seat is the caller's, in Redis for a hold and in Postgres
  for a confirm, a refusal changes nothing, a boot is consistent
  whatever failed in it. The last sections of the theories also show where the answers mislead: a
  hold resent by the client library, a sold seat whose marker is lost, a snapshot overtaken by a delta, a
  snapshot torn between its two reads, an expiry broadcast while the
  hold that followed it is, a page mounted twice, a write slower than the pings allow, a hold time
  beyond the range of a duration, a panic in \<open>Serve\<close>.

  \<^bold>\<open>Bounds and termination\<close>. The scan of the holds is a loop without a bound in the code and a
  \<open>partial_function\<close> here; that it ends and what it returns is shown for a server that does not change
  meanwhile; for one that does, what it returns is shown to be real, and a hold that does not change to be
  returned. A request needs at most four
  steps. The retries of \<open>connectStore\<close> (15) and \<open>waitStackReady\<close> (30) are the bounds of the code. The
  buffer of a websocket client has 64 slots, as in the code.

  \<^bold>\<open>Not modelled\<close>. Calls that only reach into libraries: spans and their
  attributes, the go-redis, pgx and HTTP server objects and their shutdown, websocket frames and the
  upgrade itself; log lines other than the access line. In the runs of \<open>Paced\<close> a request takes effect at once; its round trips are
  separate in \<open>Interleaving\<close>. Left out are the load tests themselves, the React components, the gateway and the
  containers.
\<close>

section \<open>No seat is sold twice\<close>

text \<open>C1: of all confirm requests for a seat, whatever their number, their interleaving, the losses
  on the network and whatever happens to Redis, at most one ever writes the booking and is
  answered CONFIRMED.\<close>

theorem one_sale_per_seat:
  assumes "reachable R sv w" and "i < length (w_reqs w)" "j < length (w_reqs w)"
    and "rq_pc (w_reqs w ! i) = PDone (Inr OutcomeConfirmed)"
    and "rq_pc (w_reqs w ! j) = PDone (Inr OutcomeConfirmed)"
    and "rq_seat (w_reqs w ! i) = rq_seat (w_reqs w ! j)"
  shows "i = j"
  using reachable_inv [OF assms(1)] assms(2-6) by (auto simp: world_inv_def won_def)

theorem one_sale_per_seat_witness:
  "{j. j < 2 \<and> rq_pc (w_reqs sold_world ! j) = PDone (Inr OutcomeConfirmed)} = {0}"
proof -
  have seat: "rq_seat (w_reqs sold_world ! j) = 1" if "j < 2" for j
    using that by (auto simp: sold_world_def less_2_cases_iff)
  have "length (w_reqs sold_world) = 2" "rq_pc (w_reqs sold_world ! 0) = PDone (Inr OutcomeConfirmed)"
    by (simp_all add: sold_world_def)
  with seat one_sale_per_seat [OF sold_reachable, of _ 0] show ?thesis by auto
qed

text \<open>C2: two requests for a seat that are both told the seat is theirs, by a first confirmation or
  by a retry, come from the same session, and that session owns the seat's one booking row.\<close>

theorem success_means_owner:
  assumes "reachable R sv w" and "i < length (w_reqs w)" "j < length (w_reqs w)"
    and "rq_pc (w_reqs w ! i) = PDone (Inr oc)" "oc = OutcomeConfirmed \<or> oc = OutcomeAlreadyMine"
    and "rq_pc (w_reqs w ! j) = PDone (Inr oc')" "oc' = OutcomeConfirmed \<or> oc' = OutcomeAlreadyMine"
    and "rq_seat (w_reqs w ! i) = rq_seat (w_reqs w ! j)"
  shows "rq_session (w_reqs w ! i) = rq_session (w_reqs w ! j) \<and>
    booking_owner (w_db w) (rq_seat (w_reqs w ! i)) = Some (rq_session (w_reqs w ! i))"
proof -
  have "succeeded (rq_pc (w_reqs w ! i))" "succeeded (rq_pc (w_reqs w ! j))"
    using assms(4-7) by (auto simp: succeeded_def won_def)
  with reachable_inv [OF assms(1)] assms(2,3,8) show ?thesis
    by (metis option.inject world_inv_def)
qed

theorem success_means_owner_witness:
  "rq_session (w_reqs sold_world ! 0) = rq_session (w_reqs sold_world ! 1) \<and>
    booking_owner (w_db sold_world) 1 = Some (rq_session (w_reqs sold_world ! 0))"
  using success_means_owner [OF sold_reachable, of 0 1 OutcomeConfirmed OutcomeAlreadyMine]
  by (simp add: sold_world_def)

text \<open>C3: once a seat is sold to a session it stays sold to that session, in every later state.\<close>

theorem sold_for_good:
  assumes "(world_step R sv)\<^sup>*\<^sup>* w w'" and "booking_owner (w_db w) s = Some u"
  shows "booking_owner (w_db w') s = Some u"
  by (rule run_owner [OF assms])

theorem sold_for_good_witness:
  "booking_owner (w_db (sold_world\<lparr>w_redis := mem_empty\<rparr>)) 1 = Some ''ada''"
proof (rule sold_for_good [of mem_redis sample_service sold_world])
  show "(world_step mem_redis sample_service)\<^sup>*\<^sup>* sold_world (sold_world\<lparr>w_redis := mem_empty\<rparr>)"
    by (rule r_into_rtranclp, rule world_step.redis_moves)
qed (simp add: sold_world_def)

text \<open>The statistics endpoint's figure is right: in every reachable state the number of bookings
  equals the number of distinct seats, so \<open>double_bookings\<close> is 0.\<close>

theorem stats_show_no_double_booking:
  assumes "reachable R sv w" and "BookingStats n (sv_eventID sv) (w_db w) = Inr (cnt, uniq)"
  shows "cnt = uniq \<and> cnt = length (db_bookings (w_db w))"
proof -
  have "wf_db (w_db w)" "only_event (sv_eventID sv) (w_db w)"
    using reachable_inv [OF assms(1)] by (simp_all add: world_inv_def)
  with BookingStats_equal [OF _ assms(2)] assms(2) show ?thesis
    by (cases n) (simp_all add: BookingStats_def only_event_filter)
qed

theorem stats_show_no_double_booking_witness:
  "(1::nat) = 1 \<and> (1::nat) = length (db_bookings (w_db sold_world))"
  by (rule stats_show_no_double_booking [OF sold_reachable, of Pg_ok])
    (simp add: BookingStats_def event_bookings_def sold_world_def sold_db_def sample_service_def)

text \<open>C8: a confirm is idempotent under any interleaving: a confirm request that arrives when its
  session already owns the seat can only be answered ALREADY\_MINE or with an error, and never
  reaches the steps that mark the seat and send the broadcast.\<close>

theorem retry_is_settled:
  assumes "(world_step R sv)\<^sup>*\<^sup>* w w'" and "i < length (w_reqs w)"
    and "w_reqs w ! i = \<lparr>rq_seat = s, rq_session = u, rq_pc = PCheck\<rparr>"
    and "booking_owner (w_db w) s = Some u"
  shows "settled (rq_pc (w_reqs w' ! i))"
  using run_settled [OF assms(1,2), of s u] assms(3,4) by (simp add: settled_def)

theorem retry_is_settled_witness: "settled (rq_pc (w_reqs sold_world ! 1))"
  by (rule retry_is_settled [OF retry_run, of 1 1 "''ada''"]) (simp_all add: retry_world_def)

text \<open>C31: no request hangs on the program's account: after at most four round trips, whatever their
  fates, a hold or confirm request has its answer.\<close>

theorem requests_finish:
  assumes "4 \<le> length fts"
  shows "finished (fst (run_request R sv fts s u (p, r, d)))"
  using assms by (intro run_request_finishes) (cases p; simp)

theorem requests_finish_witness:
  "finished (fst (run_request mem_redis sample_service (replicate 4 ok_fate) 1 ''bob''
     (PCheck, held_redis, sample_db)))"
  by (rule requests_finish) simp

text \<open>The one-call models of \<open>Hold\<close> and \<open>Confirm\<close>, of which the next sections speak, are the uninterrupted
  runs of the machines whose steps were interleaved above.\<close>

lemma operations_are_runs:
  "run_request R sv (hold_fates hn now) s u (HTry, r, d) =
     (case Hold R sv hn now s u r of (r', res) \<Rightarrow> (HDone res, r', d)) \<and>
   run_confirm R sv cn 4 s u (PCheck, r, d) =
     (case Confirm R sv cn s u (r, d) of ((r', d'), res) \<Rightarrow> (PDone res, r', d'))"
  by (simp add: run_hold run_confirm_eq)

section \<open>The seat as a state machine\<close>

text \<open>C4: while Redis and Postgres agree, \<open>Hold\<close> is the transition of the three-state seat machine
  on its seat, with its outcome, leaves every other seat alone, and keeps them agreeing.\<close>

theorem hold_implements_spec:
  assumes "redis R" and "coherent R (r, d)" and "hold_clean nets"
    and "0 < int_seconds (sv_holdTTL sv)" and "Hold R sv nets now s u r = (r', res)"
  shows "view R (r', d) = (view R (r, d))(s := fst (spec_hold (view R (r, d) s) u)) \<and>
    (\<exists>ms. res = Inr (snd (spec_hold (view R (r, d) s) u), ms)) \<and> coherent R (r', d)"
  using redis.Hold_refines [OF assms] by blast

theorem hold_implements_spec_witness:
  "view mem_redis (fst (Hold mem_redis sample_service ok_hold 0 1 ''ada'' mem_empty), sample_db) 1
     = HeldBy ''ada''"
proof -
  obtain r res where h: "Hold mem_redis sample_service ok_hold 0 1 ''ada'' mem_empty = (r, res)"
    by fastforce
  have "view mem_redis (mem_empty, sample_db) 1 = Free" by (simp add: view_def)
  with hold_implements_spec [OF mem.redis_axioms _ _ _ h, of sample_db] h show ?thesis by simp
qed

text \<open>C5: the same for \<open>Confirm\<close>: it sells the seat exactly to the session that holds it, repeats its
  answer to the owner, and answers every other caller with a conflict or an expired hold.\<close>

theorem confirm_implements_spec:
  assumes "redis R" and "coherent R (r, d)" and "confirm_clean nets"
    and "insertable d s (sv_eventID sv)" and "Confirm R sv nets s u (r, d) = ((r', d'), res)"
  shows "view R (r', d') = (view R (r, d))(s := fst (spec_confirm (view R (r, d) s) u)) \<and>
    res = Inr (snd (spec_confirm (view R (r, d) s) u)) \<and> coherent R (r', d')"
  using redis.Confirm_refines [OF assms] by blast

theorem confirm_implements_spec_witness:
  "snd (Confirm mem_redis sample_service ok_confirm 1 ''ada'' (held_redis, sample_db))
     = Inr OutcomeConfirmed"
proof -
  obtain r d res where h: "Confirm mem_redis sample_service ok_confirm 1 ''ada'' (held_redis, sample_db)
      = ((r, d), res)" by (metis prod.collapse)
  have "view mem_redis (held_redis, sample_db) 1 = HeldBy ''ada''" by (simp add: view_def)
  with confirm_implements_spec [OF mem.redis_axioms _ _ _ h] h show ?thesis by simp
qed

section \<open>The race for a seat\<close>

text \<open>C6: of any number of hold requests for a seat, arriving in any order on any network, at most one
  is told the seat is theirs; where the seat is open and the network answers, exactly one is,
  the first to reach Redis.\<close>

theorem one_hold_winner:
  assumes "redis R"
  shows "length (filter (\<lambda>(q, won). won \<and> hr_seat q = s) (snd (run_attempts (hold_attempt R sv) qs r))) \<le> 1 \<and>
    (hold_open R sv r s \<and> seat_holder R r s = None \<and> list_all (\<lambda>q. hn_try (hr_nets q) = Answered 0) qs \<and>
       filter (\<lambda>q. hr_seat q = s) qs = q # rest \<longrightarrow>
     filter (\<lambda>(q, won). won \<and> hr_seat q = s) (snd (run_attempts (hold_attempt R sv) qs r)) = [(q, True)])"
proof -
  note f = redis.hold_fair_contest [OF assms, of sv]
  note h = fair_contest.axioms(1) [OF f]
  show ?thesis
    using contest.one_winner [OF h, of s qs r] fair_contest.exactly_one [OF f, of r s qs q rest]
    by (auto simp: list_all_iff)
qed

definition two_callers :: "hold_req list" where
  "two_callers = [\<lparr>hr_seat = 1, hr_session = ''ada'', hr_nets = ok_hold, hr_now = 0\<rparr>,
     \<lparr>hr_seat = 1, hr_session = ''bob'', hr_nets = ok_hold, hr_now = 0\<rparr>]"

theorem one_hold_winner_witness:
  "filter (\<lambda>(q, won). won \<and> hr_seat q = 1)
     (snd (run_attempts (hold_attempt mem_redis sample_service) two_callers mem_empty)) = [(hd two_callers, True)]"
  using one_hold_winner [OF mem.redis_axioms, of 1 sample_service two_callers mem_empty "hd two_callers" "tl two_callers"]
  by (simp add: hold_open_def two_callers_def ok_hold_def)

text \<open>C7: a hold is exclusive for exactly its time: until the configured seconds have passed, nobody
  else is told the seat is theirs, whatever they try; once they have passed the seat is free.\<close>

theorem hold_lasts_its_time:
  assumes "redis R" and "Hold R sv nets now s u r = (r', Inr (OutcomeHeld, ms))"
    and "int (waited es) < 1000 * int_seconds (sv_holdTTL sv)"
    and "1000 * int_seconds (sv_holdTTL sv) \<le> int t"
  shows "seat_holder R (fst (run_events R sv es r')) s = Some u \<and>
    list_all (\<lambda>(q, won). hr_seat q = s \<longrightarrow> \<not> won) (snd (run_events R sv es r')) \<and>
    seat_holder R (rd_elapse R r' t) s = None"
proof -
  note w = redis.Hold_wonD [OF assms(1,2)]
  have left: "int (waited es) < hold_left R r' s" "0 \<le> hold_left R r' s" "hold_left R r' s \<le> int t"
    using w(3,5) assms(3,4) by simp_all
  show ?thesis
    using redis.run_events_held [OF assms(1) w(4) left(1), of sv] redis.hold_expires [OF assms(1) w(4) left(2,3)]
    by (auto simp: list_all_iff)
qed

theorem hold_lasts_its_time_witness:
  "\<exists>r. fst (Hold mem_redis sample_service ok_hold 0 1 ''ada'' mem_empty) = r \<and>
     seat_holder mem_redis (fst (run_events mem_redis sample_service (Wait 119999 # map Attempt two_callers) r)) 1
       = Some ''ada'' \<and>
     seat_holder mem_redis (rd_elapse mem_redis r 120000) 1 = None"
proof -
  obtain r ms where h: "Hold mem_redis sample_service ok_hold 0 1 ''ada'' mem_empty = (r, Inr (OutcomeHeld, ms))"
    using sample_hold by blast
  from hold_lasts_its_time [OF mem.redis_axioms h, of "Wait 119999 # map Attempt two_callers" 120000] h
  show ?thesis by (simp add: two_callers_def)
qed

section \<open>Where the answers mislead\<close>

text \<open>C35: when the reply to the hold script is lost, the client library resends it, and the resent
  script finds the caller's own hold: the caller is told that someone grabbed the seat first,
  while the seat is held by the caller for the full time.\<close>

theorem resent_hold_is_refused:
  assumes "redis R" and "seat_marker R r s = None" "seat_holder R r s = None"
    and "0 < int_seconds (sv_holdTTL sv)" and "hn_try nets = Answered (Suc n)"
  shows "\<exists>r'. Hold R sv nets now s u r = (r', Inr (OutcomeTaken, 0)) \<and> seat_holder R r' s = Some u \<and>
    hold_left R r' s = 1000 * int_seconds (sv_holdTTL sv)"
  using redis.TryHold_free(2) [OF assms(1-4), of n now u] redis.grabbed_free [OF assms(1-4), of u] assms(5)
  by (simp add: Hold_def lock_defs)

theorem resent_hold_is_refused_witness:
  "\<exists>r. Hold mem_redis sample_service \<lparr>hn_try = Answered 1, hn_publish = Answered 0\<rparr> 0 1 ''ada'' mem_empty
     = (r, Inr (OutcomeTaken, 0)) \<and> seat_holder mem_redis r 1 = Some ''ada''"
  using resent_hold_is_refused [OF mem.redis_axioms, of mem_empty 1 sample_service
      "\<lparr>hn_try = Answered 1, hn_publish = Answered 0\<rparr>" 0 0 "''ada''"] by auto

text \<open>C34: a sold seat whose marker Redis has lost, or that was not marked because the marking failed,
  can be held by someone else, but not bought: the hold succeeds, the confirm is answered
  CONFLICT and the booking stays with its owner.\<close>

theorem unmarked_sold_seat_is_safe:
  assumes "redis R" and "booking_owner d s = Some v" "u \<noteq> v" "insertable d s (sv_eventID sv)"
    and "seat_marker R r s = None" "seat_holder R r s = None" "0 < int_seconds (sv_holdTTL sv)"
    and "hold_clean hn" "confirm_clean cn"
  shows "\<exists>r' ms. Hold R sv hn now s u r = (r', Inr (OutcomeHeld, ms)) \<and>
    Confirm R sv cn s u (r', d) = ((r', d), Inr OutcomeConflict)"
proof -
  obtain r' ms where h: "Hold R sv hn now s u r = (r', Inr (OutcomeHeld, ms))"
    using redis.Hold_free [OF assms(1,5-7), of hn now u] assms(8) by (auto simp: hold_clean_def)
  have "seat_holder R r' s = Some u" by (rule redis.Hold_wonD(4) [OF assms(1) h])
  then have "Confirm R sv cn s u (r', d) = ((r', d), Inr OutcomeConflict)"
    using assms(2-4,9) redis.HoldOwner_answered [OF assms(1), of 0 s r']
    by (simp add: Confirm_def confirm_clean_def ConfirmBooking_taken insertable_def)
  with h show ?thesis by blast
qed

theorem unmarked_sold_seat_is_safe_witness:
  "\<exists>r ms. Hold mem_redis sample_service ok_hold 0 1 ''bob'' mem_empty = (r, Inr (OutcomeHeld, ms)) \<and>
    Confirm mem_redis sample_service ok_confirm 1 ''bob'' (r, sold_db) = ((r, sold_db), Inr OutcomeConflict)"
  by (rule unmarked_sold_seat_is_safe [OF mem.redis_axioms, where v = "''ada''"]) simp_all

text \<open>C19: a snapshot can show a sale as a free seat, with Redis and Postgres in agreement all the time and no
  message involved: \<open>BuildSnapshot\<close> reads the bookings before it reads the holds, and a confirm that
  takes effect in between moves the seat from one to the other behind its back. The seat was held before
  and is sold after; the snapshot, and a browser that is given it, show it as free.\<close>

theorem torn_snapshot_hides_sale:
  assumes "redis R" and "coherent R (r, d)" and "canonical_holds R r" and "confirm_clean nets"
    and "insertable d s (sv_eventID sv)" and "Confirm R sv nets s u (r, d) = ((r', d'), Inr OutcomeConfirmed)"
    and "wf_db d" and "only_event (Event_ID (srv_Event srv)) d" and "ce_pg ce = Pg_ok" and "iterates ce"
    and "\<And>i. ce_trips ce i = Some (\<lambda>_. r', clk i)" and "int_range s"
  shows "\<exists>snap. BuildSnapshot R srv ce d = Some (Inr snap) \<and> sn_RedisHealthy snap \<and>
    view R (r, d) s = HeldBy u \<and> view R (r', d') s = SoldTo u \<and>
    browser_view (onmessage (marshal_snapshot snap) st) s = Free"
proof -
  have before: "view R (r, d) s = HeldBy u" and after: "view R (r', d') s = SoldTo u" and co: "coherent R (r', d')"
    using redis.Confirm_refines [OF assms(1,2,4-6)]
    by (cases "view R (r, d) s"; auto split: if_splits)+
  have "booking_owner d s = None" using before by (auto simp: view_def split: option.splits)
  moreover have "seat_holder R r' s = None" using after view_holder [OF co, of s] by simp
  ultimately have "view R (r', d) s = Free" by (simp add: view_def)
  moreover have "canonical_holds R r'"
    using redis.Confirm_canonical [OF assms(1,3,4,5,2), of u] by (simp add: assms(6))
  ultimately show ?thesis
    using BuildSnapshot_live [OF assms(1,11) _ assms(7-10)] assms(12) before after by (auto simp: onmessage_snapshot)
qed

theorem torn_snapshot_hides_sale_witness:
  "\<exists>r d snap. Confirm mem_redis sample_service ok_confirm 1 ''ada'' (held_redis, sample_db) = ((r, d), Inr OutcomeConfirmed) \<and>
    BuildSnapshot mem_redis sample_server (sample_call r) sample_db = Some (Inr snap) \<and>
    browser_view (onmessage (marshal_snapshot snap) initial_socket) 1 = Free"
proof -
  obtain r d where c: "Confirm mem_redis sample_service ok_confirm 1 ''ada'' (held_redis, sample_db) =
      ((r, d), Inr OutcomeConfirmed)"
    using sample_confirm by blast
  have q: "wf_db sample_db" "only_event (Event_ID (srv_Event sample_server)) sample_db" "ce_pg (sample_call r) = Pg_ok"
    "iterates (sample_call r)" "\<And>i. ce_trips (sample_call r) i = Some (\<lambda>_. r, (\<lambda>_ _. 0) i)"
    using sample_quiet by (simp_all add: quiet_def sample_call_def iterates_def)
  from torn_snapshot_hides_sale [OF mem.redis_axioms sample_coherent(2) canonical_held _ _ c q] show ?thesis
    using c by (force simp: int_range_def)
qed

end
